(* ===== verification/Prelude.thy ===== *)
theory Prelude
  imports Main "HOL-Library.Word"
begin

unbundle bit_operations_syntax

text \<open>
  Shared vocabulary of the development: machine integers, monotonic time and deadlines,
  Rust's I/O errors, text as a list of Unicode scalar values, byte encodings, and the list
  lemmas the components share.

  Conventions.  A \<^verbatim>\<open>Result<T, io::Error>\<close> is \<open>io_error + 'a\<close> (\<open>Inl\<close> is the error).  An
  \<^verbatim>\<open>Option<Instant>\<close> that bounds a wait is a \<open>deadline\<close>, whose order puts \<open>Never\<close> last.  An
  \<^verbatim>\<open>Instant\<close> is a number of nanoseconds.  Handles, tasks and threads are numbered.
\<close>

named_theorems op_defs \<open>unfolding equations of the modelled operations\<close>
named_theorems wf_intros \<open>preservation of the components' invariants\<close>
named_theorems frame_simps \<open>what an operation leaves unchanged\<close>

section \<open>Machine integers\<close>

type_synonym u8 = "8 word"
type_synonym u16 = "16 word"
type_synonym u32 = "32 word"
type_synonym u64 = "64 word"
type_synonym bytes = "u8 list"

abbreviation u64_max :: nat where
  "u64_max \<equiv> 18446744073709551615"

abbreviation usize_max :: nat where
  "usize_max \<equiv> 18446744073709551615"

lemma unat_u64_bound [simp]: "unat (w :: u64) \<le> u64_max"
proof -
  have "unat w < 2 ^ LENGTH(64)" by (rule unsigned_less)
  then show ?thesis by simp
qed

lemma unat_u8_bound [simp]: "unat (w :: u8) < 256"
proof -
  have "unat w < 2 ^ LENGTH(8)" by (rule unsigned_less)
  then show ?thesis by simp
qed

lemma bit_below:
  assumes "(i :: nat) < 2 ^ k" "bit i n"
  shows "n < k"
proof -
  have "take_bit k i = i" using assms(1) by (simp add: take_bit_nat_eq_self_iff)
  with assms(2) show ?thesis by (metis bit_take_bit_iff)
qed

section \<open>Time and deadlines\<close>

text \<open>
  \<^verbatim>\<open>Instant\<close> is the monotonic clock.  On Linux it is a pair of a 64-bit signed second count and
  a nanosecond count, so \<^verbatim>\<open>checked_add\<close> fails past \<open>instant_max\<close>.
\<close>

type_synonym instant = nat

definition instant_max :: instant where
  "instant_max = 9223372036854775807 * 1000000000 + 999999999"

datatype deadline = At instant | Never

definition checked_add :: "instant \<Rightarrow> nat \<Rightarrow> deadline" where
  "checked_add t d = (if t + d \<le> instant_max then At (t + d) else Never)"

text \<open>\<^verbatim>\<open>deadline.is_some_and(|at| Instant::now() >= at)\<close>.\<close>

fun passed :: "instant \<Rightarrow> deadline \<Rightarrow> bool" where
  "passed now Never = False"
| "passed now (At t) = (t \<le> now)"

text \<open>Deadlines are ordered by how late they are; \<^verbatim>\<open>None\<close> (never) is the latest.\<close>

instantiation deadline :: linorder
begin

fun less_eq_deadline :: "deadline \<Rightarrow> deadline \<Rightarrow> bool" where
  "less_eq_deadline d Never = True"
| "less_eq_deadline Never (At t) = False"
| "less_eq_deadline (At s) (At t) = (s \<le> t)"

definition less_deadline :: "deadline \<Rightarrow> deadline \<Rightarrow> bool" where
  "less_deadline a b = (a \<le> b \<and> \<not> b \<le> a)"

instance
proof
  fix a b c :: deadline
  show "(a < b) = (a \<le> b \<and> \<not> b \<le> a)"
    by (rule less_deadline_def)
  show "a \<le> a"
    by (cases a) auto
  show "a \<le> b \<Longrightarrow> b \<le> c \<Longrightarrow> a \<le> c"
    by (cases a; cases b; cases c) auto
  show "a \<le> b \<Longrightarrow> b \<le> a \<Longrightarrow> a = b"
    by (cases a; cases b) auto
  show "a \<le> b \<or> b \<le> a"
    by (cases a; cases b) auto
qed

end

lemma passed_mono: "d \<le> e \<Longrightarrow> passed now e \<Longrightarrow> passed now d"
  by (cases d; cases e) auto

lemma passed_min [simp]: "passed now (min d e) = (passed now d \<or> passed now e)"
  using passed_mono [of d e now] passed_mono [of e d now]
  by (auto simp: min_def)

lemma passed_later: "passed now d \<Longrightarrow> now \<le> now' \<Longrightarrow> passed now' d"
  by (cases d) auto

lemma checked_add_future: "0 < d \<Longrightarrow> \<not> passed t (checked_add t d)"
  by (simp add: checked_add_def)

section \<open>I/O errors\<close>

text \<open>
  The \<^verbatim>\<open>std::io::ErrorKind\<close>s the host tells apart.  \<open>OtherError\<close> is \<^verbatim>\<open>ErrorKind::Other\<close> (what
  \<^verbatim>\<open>io::Error::other\<close> makes); \<open>Uncategorized\<close> stands for every kind the source never names.
\<close>

datatype error_kind =
    NotFound | PermissionDenied | ConnectionRefused | ConnectionReset | ConnectionAborted
  | NotConnected | AddrInUse | AddrNotAvailable | BrokenPipe | AlreadyExists | WouldBlock
  | InvalidInput | InvalidData | TimedOut | WriteZero | Interrupted | Unsupported
  | UnexpectedEof | OtherError | Uncategorized

section \<open>Text\<close>

text \<open>
  A Rust \<^verbatim>\<open>str\<close> is a list of Unicode scalar values.  \<open>utf8_char\<close> and \<open>utf8\<close> are its UTF-8 bytes,
  which \<^verbatim>\<open>len\<close> counts.
\<close>

type_synonym str = "nat list"

definition lit :: "string \<Rightarrow> str" where
  "lit s = map of_char s"

text \<open>
  \<^verbatim>\<open>io::Error\<close>: an OS error code with the kind the standard library decodes it to, a bare kind, a kind
  with a message, or the scheduler's \<^verbatim>\<open>Cancelled\<close> wrapped by \<^verbatim>\<open>io::Error::other\<close>.
\<close>

datatype io_error =
    OsError nat error_kind | SimpleError error_kind | CustomError error_kind str | CancelledError

fun err_kind :: "io_error \<Rightarrow> error_kind" where
  "err_kind (OsError n k) = k"
| "err_kind (SimpleError k) = k"
| "err_kind (CustomError k m) = k"
| "err_kind CancelledError = OtherError"

fun raw_os_error :: "io_error \<Rightarrow> nat option" where
  "raw_os_error (OsError n k) = Some n"
| "raw_os_error e = None"

definition is_cancelled_error :: "io_error \<Rightarrow> bool" where
  "is_cancelled_error e \<longleftrightarrow> e = CancelledError"

definition timed_out :: io_error where
  "timed_out = CustomError TimedOut (lit ''timed out'')"

lemma err_kind_timed_out [simp]: "err_kind timed_out = TimedOut"
  by (simp add: timed_out_def)

definition is_whitespace :: "nat \<Rightarrow> bool" where
  "is_whitespace c \<longleftrightarrow> (9 \<le> c \<and> c \<le> 13) \<or> c = 32 \<or> c = 133 \<or> c = 160 \<or> c = 5760
     \<or> (8192 \<le> c \<and> c \<le> 8202) \<or> c = 8232 \<or> c = 8233 \<or> c = 8239 \<or> c = 8287 \<or> c = 12288"

definition is_control :: "nat \<Rightarrow> bool" where
  "is_control c \<longleftrightarrow> c < 32 \<or> (127 \<le> c \<and> c < 160)"

definition to_ascii_lowercase :: "nat \<Rightarrow> nat" where
  "to_ascii_lowercase c = (if 65 \<le> c \<and> c \<le> 90 then c + 32 else c)"

definition to_ascii_uppercase :: "nat \<Rightarrow> nat" where
  "to_ascii_uppercase c = (if 97 \<le> c \<and> c \<le> 122 then c - 32 else c)"

definition eq_ignore_ascii_case :: "str \<Rightarrow> str \<Rightarrow> bool" where
  "eq_ignore_ascii_case a b \<longleftrightarrow> map to_ascii_lowercase a = map to_ascii_lowercase b"

definition trim :: "str \<Rightarrow> str" where
  "trim s = rev (dropWhile is_whitespace (rev (dropWhile is_whitespace s)))"

definition utf8_char :: "nat \<Rightarrow> nat list" where
  "utf8_char c =
     (if c < 128 then [c]
      else if c < 2048 then [192 + c div 64, 128 + c mod 64]
      else if c < 65536 then [224 + c div 4096, 128 + c div 64 mod 64, 128 + c mod 64]
      else [240 + c div 262144, 128 + c div 4096 mod 64, 128 + c div 64 mod 64, 128 + c mod 64])"

definition utf8_len :: "str \<Rightarrow> nat" where
  "utf8_len s = sum_list (map (\<lambda>c. length (utf8_char c)) s)"

lemma utf8_len_Nil [simp]: "utf8_len [] = 0"
  by (simp add: utf8_len_def)

lemma utf8_len_Cons [simp]: "utf8_len (c # s) = length (utf8_char c) + utf8_len s"
  by (simp add: utf8_len_def)

lemma utf8_len_append [simp]: "utf8_len (s @ t) = utf8_len s + utf8_len t"
  by (simp add: utf8_len_def)

lemma utf8_char_length: "1 \<le> length (utf8_char c) \<and> length (utf8_char c) \<le> 4"
  by (simp add: utf8_char_def)

lemma utf8_char_ascii [simp]: "c < 128 \<Longrightarrow> utf8_char c = [c]"
  by (simp add: utf8_char_def)

text \<open>Decimal printing of an unsigned integer, as \<^verbatim>\<open>to_string\<close> does it.\<close>

fun show_nat :: "nat \<Rightarrow> str" where
  "show_nat n = (if n < 10 then [48 + n] else show_nat (n div 10) @ [48 + n mod 10])"

declare show_nat.simps [simp del]

lemma show_nat_digits: "\<forall>c \<in> set (show_nat n). 48 \<le> c \<and> c \<le> 57"
proof (induction n rule: show_nat.induct)
  case (1 n)
  then show ?case
    by (cases "n < 10") (auto simp: show_nat.simps [of n])
qed

lemma show_nat_nonempty [simp]: "show_nat n \<noteq> []"
  by (subst show_nat.simps) simp

section \<open>Integers as bytes\<close>

text \<open>\<^verbatim>\<open>u64::to_le_bytes\<close>, \<^verbatim>\<open>u64::to_be_bytes\<close>, \<^verbatim>\<open>u16::to_be_bytes\<close> and \<^verbatim>\<open>u16::from_be_bytes\<close>.\<close>

definition u64_le :: "u64 \<Rightarrow> bytes" where
  "u64_le x = map (\<lambda>i. ucast (drop_bit (8 * i) x)) [0..<8]"

definition u64_be :: "u64 \<Rightarrow> bytes" where
  "u64_be x = rev (u64_le x)"

definition u16_be :: "u16 \<Rightarrow> bytes" where
  "u16_be x = [ucast (drop_bit 8 x), ucast x]"

definition u16_from_be :: "u8 \<Rightarrow> u8 \<Rightarrow> u16" where
  "u16_from_be a b = push_bit 8 (ucast a) OR ucast b"

lemma u64_le_length [simp]: "length (u64_le x) = 8"
  by (simp add: u64_le_def)

lemma u64_be_length [simp]: "length (u64_be x) = 8"
  by (simp add: u64_be_def)

lemma u64_le_inject [simp]: "u64_le x = u64_le y \<longleftrightarrow> x = y"
proof
  assume eq: "u64_le x = u64_le y"
  show "x = y"
  proof (rule bit_word_eqI)
    fix n assume n: "n < LENGTH(64)"
    have d: "n div 8 < 8" using n by simp
    then have "[0..<8] ! (n div 8) = n div 8" by (subst nth_upt) simp_all
    moreover have "u64_le x ! (n div 8) = u64_le y ! (n div 8)" using eq by simp
    ultimately have "bit (ucast (drop_bit (8 * (n div 8)) x) :: u8) (n mod 8) =
        bit (ucast (drop_bit (8 * (n div 8)) y) :: u8) (n mod 8)"
      using d by (simp add: u64_le_def)
    then show "bit x n = bit y n"
      by (simp add: bit_ucast_iff bit_drop_bit_eq)
  qed
qed simp

lemma u64_be_inject [simp]: "u64_be x = u64_be y \<longleftrightarrow> x = y"
  by (simp add: u64_be_def)

lemma u16_from_be_u16_be: "u16_be x = [a, b] \<Longrightarrow> u16_from_be a b = x"
  by (auto simp: u16_be_def u16_from_be_def intro!: bit_word_eqI
      simp: bit_or_iff bit_push_bit_iff bit_ucast_iff bit_drop_bit_eq)

section \<open>Lists\<close>

text \<open>\<^verbatim>\<open>slice::chunks(n)\<close>: consecutive pieces of \<open>n\<close>, the last perhaps shorter; none of nothing.\<close>

function chunks :: "nat \<Rightarrow> 'a list \<Rightarrow> 'a list list" where
  "chunks n xs = (if n = 0 \<or> xs = [] then [] else take n xs # chunks n (drop n xs))"
  by pat_completeness auto
termination
  by (relation "measure (\<lambda>(n, xs). length xs)") auto

declare chunks.simps [simp del]

lemma chunks_Nil [simp]: "chunks n [] = []"
  by (simp add: chunks.simps)

lemma concat_chunks: "0 < n \<Longrightarrow> concat (chunks n xs) = xs"
proof (induction n xs rule: chunks.induct)
  case (1 n xs)
  then show ?case
    by (cases "xs = []") (simp_all add: chunks.simps [of n xs])
qed

lemma chunks_bounds: "c \<in> set (chunks n xs) \<Longrightarrow> c \<noteq> [] \<and> length c \<le> n"
proof (induction n xs rule: chunks.induct)
  case (1 n xs)
  then show ?case
    by (auto simp: chunks.simps [of n xs] split: if_splits)
qed

text \<open>\<^verbatim>\<open>Vec::pop\<close>: take the last element.\<close>

definition vec_pop :: "'a list \<Rightarrow> ('a \<times> 'a list) option" where
  "vec_pop xs = (if xs = [] then None else Some (last xs, butlast xs))"

lemma vec_pop_Some: "vec_pop xs = Some (x, ys) \<longleftrightarrow> xs = ys @ [x]"
  by (auto simp: vec_pop_def append_butlast_last_id)

lemma vec_pop_None [simp]: "vec_pop xs = None \<longleftrightarrow> xs = []"
  by (simp add: vec_pop_def)

text \<open>\<^verbatim>\<open>VecDeque::pop_front\<close>.\<close>

fun pop_front :: "'a list \<Rightarrow> ('a \<times> 'a list) option" where
  "pop_front [] = None"
| "pop_front (x # xs) = Some (x, xs)"

lemma pop_front_Some: "pop_front xs = Some (x, ys) \<longleftrightarrow> xs = x # ys"
  by (cases xs) auto

lemma pop_front_None [simp]: "pop_front xs = None \<longleftrightarrow> xs = []"
  by (cases xs) auto

text \<open>\<^verbatim>\<open>iter().position(p)\<close>: the index of the first element that satisfies \<open>p\<close>.\<close>

fun position :: "('a \<Rightarrow> bool) \<Rightarrow> 'a list \<Rightarrow> nat option" where
  "position p [] = None"
| "position p (x # xs) = (if p x then Some 0 else map_option Suc (position p xs))"

lemma position_Some:
  "position p xs = Some i \<Longrightarrow> i < length xs \<and> p (xs ! i) \<and> (\<forall>j < i. \<not> p (xs ! j))"
proof (induction xs arbitrary: i)
  case (Cons x xs)
  then show ?case
    by (cases i) (auto split: if_splits simp: less_Suc_eq_0_disj)
qed simp

lemma position_None: "position p xs = None \<longleftrightarrow> (\<forall>x \<in> set xs. \<not> p x)"
  by (induction xs) auto

lemma position_less: "position p xs = Some i \<Longrightarrow> i < length xs"
  using position_Some by blast

section \<open>What every run comes to\<close>

text \<open>
  Every run of the steps \<open>R\<close>, whichever of them is taken each time, comes to a state with \<open>P\<close>: none gets
  stuck or goes on for ever before it.
\<close>

inductive inevitable :: "('a \<Rightarrow> 'a \<Rightarrow> bool) \<Rightarrow> ('a \<Rightarrow> bool) \<Rightarrow> 'a \<Rightarrow> bool" for R P where
  here: "P x \<Longrightarrow> inevitable R P x"
| onward: "R x y \<Longrightarrow> (\<And>z. R x z \<Longrightarrow> inevitable R P z) \<Longrightarrow> inevitable R P x"

lemma inevitable_measure:
  fixes m :: "'a \<Rightarrow> nat"
  assumes "I x" and step: "\<And>x y. I x \<Longrightarrow> R x y \<Longrightarrow> I y \<and> m y < m x" and moves: "\<And>x. I x \<Longrightarrow> \<not> P x \<Longrightarrow> \<exists>y. R x y"
  shows "inevitable R P x"
  using assms(1)
proof (induction "m x" arbitrary: x rule: less_induct)
  case less
  show ?case
  proof (cases "P x")
    case False
    then obtain y where "R x y" using moves less.prems by blast
    then show ?thesis using less step by (blast intro: inevitable.onward)
  qed (rule inevitable.here)
qed

end
