(* ===== verification/Limits.thy ===== *)
theory Limits
  imports Prelude
begin

text \<open>
  Resource limits read from environment variables at startup (\<^verbatim>\<open>src/limits.rs\<close>), and the
  number parsing they rest on.  The process environment is a map from names to values; a name
  that is unset, or whose value is not Unicode, is absent (\<^verbatim>\<open>std::env::var\<close> fails).  Each limit
  is computed once (\<^verbatim>\<open>OnceLock\<close>), when \<^verbatim>\<open>run\<close> in \<^verbatim>\<open>src/lib.rs\<close> asks for it; a bad value is
  reported (a \<open>warning\<close>) and replaced by the default.
\<close>

type_synonym env = "str \<Rightarrow> str option"

section \<open>Parsing a number\<close>

text \<open>\<^verbatim>\<open>usize::from_str\<close>: an optional plus sign and at least one digit, within range.\<close>

fun parse_digits :: "nat \<Rightarrow> str \<Rightarrow> nat option" where
  "parse_digits acc [] = Some acc"
| "parse_digits acc (c # cs) =
     (if 48 \<le> c \<and> c \<le> 57 \<and> acc * 10 + (c - 48) \<le> usize_max
      then parse_digits (acc * 10 + (c - 48)) cs else None)"

definition parse_usize :: "str \<Rightarrow> nat option" where
  "parse_usize s =
     (case s of
        [] \<Rightarrow> None
      | c # cs \<Rightarrow> if c = 43 then (if cs = [] then None else parse_digits 0 cs)
                  else parse_digits 0 s)"

lemma parse_digits_append:
  "parse_digits acc (s @ t) = Option.bind (parse_digits acc s) (\<lambda>a. parse_digits a t)"
  by (induction s arbitrary: acc) auto

lemma parse_digits_show_nat: "n \<le> usize_max \<Longrightarrow> parse_digits 0 (show_nat n) = Some n"
proof (induction n rule: show_nat.induct)
  case (1 n)
  show ?case
  proof (cases "n < 10")
    case True
    then show ?thesis by (simp add: show_nat.simps [of n])
  next
    case False
    with "1" have "parse_digits 0 (show_nat (n div 10)) = Some (n div 10)" by simp
    with False "1.prems" show ?thesis
      by (simp add: show_nat.simps [of n] parse_digits_append)
  qed
qed

lemma parse_usize_show_nat: "n \<le> usize_max \<Longrightarrow> parse_usize (show_nat n) = Some n"
proof -
  assume n: "n \<le> usize_max"
  obtain c cs where s: "show_nat n = c # cs"
    by (cases "show_nat n") auto
  with show_nat_digits [of n] have "c \<noteq> 43" by auto
  with n s show ?thesis
    using parse_digits_show_nat [OF n] by (simp add: parse_usize_def)
qed

lemma parse_digits_le: "parse_digits acc s = Some n \<Longrightarrow> acc \<le> usize_max \<Longrightarrow> n \<le> usize_max"
  by (induction s arbitrary: acc) (auto split: if_splits)

lemma trim_show_nat: "trim (show_nat n) = show_nat n"
proof -
  have nows: "\<not> is_whitespace c" if "c \<in> set (show_nat n)" for c
    using that show_nat_digits [of n] by (auto simp: is_whitespace_def)
  have drop: "dropWhile is_whitespace s = s" if "\<forall>c \<in> set s. \<not> is_whitespace c" for s
    using that by (cases s) auto
  show ?thesis
    unfolding trim_def by (simp add: drop nows)
qed

lemma trim_padded:
  assumes "\<forall>c \<in> set pre. is_whitespace c" and "\<forall>c \<in> set post. is_whitespace c"
    and "s \<noteq> []" and "\<forall>c \<in> set s. \<not> is_whitespace c"
  shows "trim (pre @ s @ post) = trim s"
proof -
  from assms(3,4) obtain c cs where c: "s = c # cs" "\<not> is_whitespace c"
    by (cases s) auto
  from assms(3) obtain d ds where rs: "rev s = d # ds"
    by (cases "rev s") auto
  then have "d \<in> set s"
    by (metis list.set_intros(1) set_rev)
  with assms(4) rs have d: "rev s = d # ds" "\<not> is_whitespace d"
    by auto
  have "dropWhile is_whitespace (pre @ s @ post) = s @ post"
    using assms(1) c by (simp add: dropWhile_append2)
  moreover have "dropWhile is_whitespace (rev post @ rev s) = rev s"
    using assms(2) d dropWhile_append2 [of "rev post" is_whitespace "rev s"] by simp
  moreover have "dropWhile is_whitespace s = s" and "dropWhile is_whitespace (rev s) = rev s"
    using c d by simp_all
  ultimately show ?thesis
    by (simp add: trim_def)
qed

section \<open>Reading a variable\<close>

datatype expected_range = AtLeast nat | FromTo nat nat

datatype warning =
    IgnoringNumber str str expected_range nat   \<comment> \<open>name, raw value, range, default used\<close>
  | IgnoringChoice str str "str list" str       \<comment> \<open>name, raw value, choices, default used\<close>

definition from_env :: "env \<Rightarrow> str \<Rightarrow> nat \<Rightarrow> nat \<Rightarrow> nat \<Rightarrow> nat \<times> warning list" where
  "from_env env name dflt lo hi =
     (case env name of
        None \<Rightarrow> (dflt, [])
      | Some raw \<Rightarrow>
          (let ignored = (dflt, [IgnoringNumber name raw
                            (if hi = usize_max then AtLeast lo else FromTo lo hi) dflt])
           in case parse_usize (trim raw) of
                Some v \<Rightarrow> if lo \<le> v \<and> v \<le> hi then (v, []) else ignored
              | None \<Rightarrow> ignored))"

definition from_env_choice :: "env \<Rightarrow> str \<Rightarrow> str list \<Rightarrow> nat \<Rightarrow> nat \<times> warning list" where
  "from_env_choice env name choices dflt =
     (case env name of
        None \<Rightarrow> (dflt, [])
      | Some raw \<Rightarrow>
          (case position (\<lambda>choice. eq_ignore_ascii_case (trim raw) choice) choices of
             Some index \<Rightarrow> (index, [])
           | None \<Rightarrow> (dflt, [IgnoringChoice name raw choices (choices ! dflt)])))"

section \<open>The limits\<close>

definition max_tasks :: "env \<Rightarrow> nat \<times> warning list" where
  "max_tasks env = from_env env (lit ''ROC_NET_MAX_TASKS'') 100000 1 usize_max"

text \<open>\<open>cpus\<close> is \<^verbatim>\<open>available_parallelism()\<close>: the number of CPUs, if the system says.\<close>

definition workers_limit :: "nat option \<Rightarrow> env \<Rightarrow> nat \<times> warning list" where
  "workers_limit cpus env =
     from_env env (lit ''ROC_NET_WORKERS'')
       (min (case cpus of None \<Rightarrow> 1 | Some n \<Rightarrow> n) 64) 1 64"

text \<open>In nanoseconds.\<close>

definition share_after :: "env \<Rightarrow> nat \<times> warning list" where
  "share_after env =
     (let (us, w) = from_env env (lit ''ROC_NET_SHARE_AFTER_US'') 500 0 10000000 in (us * 1000, w))"

definition task_stack_bytes :: "env \<Rightarrow> nat \<times> warning list" where
  "task_stack_bytes env =
     (let (kib, w) = from_env env (lit ''ROC_NET_TASK_STACK_KIB'') 256 64 (1024 * 1024)
      in (kib * 1024, w))"

definition max_sockets :: "env \<Rightarrow> nat \<times> warning list" where
  "max_sockets env = from_env env (lit ''ROC_NET_MAX_SOCKETS'') 16384 1 65535"

definition max_channels :: "env \<Rightarrow> nat \<times> warning list" where
  "max_channels env = from_env env (lit ''ROC_NET_MAX_CHANNELS'') 8192 1 32767"

definition log_level :: "env \<Rightarrow> nat \<times> warning list" where
  "log_level env = from_env_choice env (lit ''ROC_NET_LOG'')
     [lit ''debug'', lit ''info'', lit ''warn'', lit ''error'', lit ''off''] 1"

definition log_json :: "env \<Rightarrow> bool \<times> warning list" where
  "log_json env =
     (let (i, w) = from_env_choice env (lit ''ROC_NET_LOG_FORMAT'') [lit ''text'', lit ''json''] 0
      in (i = 1, w))"

definition log_buffer_bytes :: "env \<Rightarrow> nat \<times> warning list" where
  "log_buffer_bytes env =
     (let (kib, w) = from_env env (lit ''ROC_NET_LOG_BUFFER_KIB'') 1024 4 (1024 * 1024)
      in (kib * 1024, w))"

text \<open>\<^verbatim>\<open>run\<close> reads every limit at startup, in this order, so that a bad setting is reported then.\<close>

definition startup_warnings :: "nat option \<Rightarrow> env \<Rightarrow> warning list" where
  "startup_warnings cpus env =
     snd (max_tasks env) @ snd (max_sockets env) @ snd (max_channels env)
     @ snd (workers_limit cpus env) @ snd (task_stack_bytes env) @ snd (share_after env)
     @ snd (log_level env) @ snd (log_json env) @ snd (log_buffer_bytes env)"

lemmas [op_defs] = max_tasks_def workers_limit_def share_after_def task_stack_bytes_def
  max_sockets_def max_channels_def log_level_def log_json_def log_buffer_bytes_def

section \<open>What the limits guarantee\<close>

lemma from_env_bounds:
  "lo \<le> dflt \<Longrightarrow> dflt \<le> hi \<Longrightarrow>
   lo \<le> fst (from_env env name dflt lo hi) \<and> fst (from_env env name dflt lo hi) \<le> hi"
  by (simp add: from_env_def Let_def split: option.splits)

lemma from_env_choice_bound:
  "dflt < length choices \<Longrightarrow> fst (from_env_choice env name choices dflt) < length choices"
  by (auto simp: from_env_choice_def dest: position_less split: option.splits)

lemma from_env_warns_iff:
  "snd (from_env env name dflt lo hi) \<noteq> [] \<longleftrightarrow>
     (\<exists>raw. env name = Some raw \<and>
        \<not> (\<exists>v. parse_usize (trim raw) = Some v \<and> lo \<le> v \<and> v \<le> hi))"
  by (auto simp: from_env_def Let_def split: option.splits)

text \<open>
  C21.  Whatever the environment holds, every limit lies in the range its documentation gives:
  a variable that is absent, unparsable or out of range yields a default inside the range, so
  no setting can make the worker mask overflow or a table index not fit.
\<close>

theorem limits_in_range:
  assumes "cpus \<noteq> Some 0"
  shows "fst (max_tasks env) \<in> {1..usize_max} \<and> fst (workers_limit cpus env) \<in> {1..64}
    \<and> fst (max_sockets env) \<in> {1..65535} \<and> fst (max_channels env) \<in> {1..32767}
    \<and> fst (task_stack_bytes env) \<in> {64 * 1024..1024 * 1024 * 1024}
    \<and> fst (share_after env) \<le> 10000000000 \<and> fst (log_level env) \<le> 4
    \<and> fst (log_buffer_bytes env) \<in> {4096..1024 * 1024 * 1024}"
proof -
  have "1 \<le> min (case cpus of None \<Rightarrow> 1 | Some n \<Rightarrow> n) 64"
    using assms by (cases cpus) auto
  then have w: "fst (workers_limit cpus env) \<in> {1..64}"
    using from_env_bounds [of 1 "min (case cpus of None \<Rightarrow> 1 | Some n \<Rightarrow> n) 64" 64 env]
    by (simp add: op_defs)
  have l: "fst (log_level env) \<le> 4"
    using from_env_choice_bound [of 1 "[lit ''debug'', lit ''info'', lit ''warn'', lit ''error'', lit ''off'']"
      env "lit ''ROC_NET_LOG''"]
    by (simp add: op_defs)
  show ?thesis
    using w l from_env_bounds [of 1 100000 usize_max env "lit ''ROC_NET_MAX_TASKS''"]
      from_env_bounds [of 1 16384 65535 env "lit ''ROC_NET_MAX_SOCKETS''"]
      from_env_bounds [of 1 8192 32767 env "lit ''ROC_NET_MAX_CHANNELS''"]
      from_env_bounds [of 64 256 "1024 * 1024" env "lit ''ROC_NET_TASK_STACK_KIB''"]
      from_env_bounds [of 0 500 10000000 env "lit ''ROC_NET_SHARE_AFTER_US''"]
      from_env_bounds [of 4 1024 "1024 * 1024" env "lit ''ROC_NET_LOG_BUFFER_KIB''"]
    by (auto simp: op_defs case_prod_beta Let_def)
qed

theorem limits_in_range_witness:
  "Some (8 :: nat) \<noteq> Some 0 \<and> fst (workers_limit (Some 8) (\<lambda>_. None)) \<in> {1..64}"
  using limits_in_range [of "Some 8" "\<lambda>_. None"] by simp

text \<open>
   A limit set to any number in its range, written in decimal with any surrounding
  whitespace, is the limit used, and nothing is reported.
\<close>

lemma from_env_accepts:
  assumes "lo \<le> n" and "n \<le> hi" and "hi \<le> usize_max"
    and "\<forall>c \<in> set pre. is_whitespace c" and "\<forall>c \<in> set post. is_whitespace c"
    and "env name = Some (pre @ show_nat n @ post)"
  shows "from_env env name dflt lo hi = (n, [])"
proof -
  have "trim (pre @ show_nat n @ post) = trim (show_nat n)"
    by (rule trim_padded [OF assms(4,5) show_nat_nonempty]) (use show_nat_digits [of n] in \<open>auto simp: is_whitespace_def\<close>)
  with assms(1-3,6) show ?thesis
    by (simp add: from_env_def Let_def trim_show_nat parse_usize_show_nat)
qed

lemma from_env_accepts_example:
  "from_env (\<lambda>_. Some (lit '' 12 '')) (lit ''N'') 5 1 64 = (12, [])"
  by (rule from_env_accepts [where pre = "[32]" and post = "[32]"])
    (auto simp: is_whitespace_def lit_def show_nat.simps)

end
