(* ===== verification/Sched.thy ===== *)
theory Sched
  imports Limits "HOL-Library.Product_Lexorder" "HOL-Library.Multiset"
begin

text \<open>
  The scheduler's core (\<^verbatim>\<open>src/sched.rs\<close>): tasks and their state flags, waking, the run queues of
  the workers, work stealing, timers, and the wait lists built on them.

  One record, \<open>sched\<close>, holds what the source keeps in statics and in the tasks and workers
  themselves.  Tasks are numbered (an \<^verbatim>\<open>Arc<Task>\<close> is its number); so are worker threads.  An
  operation takes the worker whose thread runs it (\<open>me\<close>, \<open>None\<close> on a plain thread, as
  \<^verbatim>\<open>this_worker()\<close> says) and the state, and returns the new state.  A function that suspends the
  task in the middle is two definitions, the part up to the suspension and the part after it.
  The 64-bit counters for wait, task and waiter ids are natural numbers: reaching \<open>2 ^ 64\<close> waits
  takes centuries at a billion a second.
\<close>

section \<open>Data\<close>

datatype woke = WReady | WTimedOut | WCancelled

fun woke_u8 :: "woke \<Rightarrow> u8" where
  "woke_u8 WReady = 0"
| "woke_u8 WTimedOut = 1"
| "woke_u8 WCancelled = 2"

definition from_u8 :: "u8 \<Rightarrow> woke" where
  "from_u8 v = (if v = 1 then WTimedOut else if v = 2 then WCancelled else WReady)"

lemma from_u8_woke_u8 [simp]: "from_u8 (woke_u8 k) = k"
  by (cases k) (auto simp: from_u8_def)

abbreviation RUNNING :: u8 where "RUNNING \<equiv> 1"
abbreviation NOTIFIED :: u8 where "NOTIFIED \<equiv> 2"
abbreviation DONE :: u8 where "DONE \<equiv> 4"

text \<open>\<^verbatim>\<open>TaskWaker\<close>: wakes one wait of a task, or a plain thread.\<close>

datatype task_waker = TaskWaker nat nat | ThreadWaker nat

text \<open>\<^verbatim>\<open>Waiters\<close>: the ids and wakers, first added first, and the last id given out.\<close>

record waiters =
  wl_list :: "(nat \<times> task_waker) list"
  wl_next :: nat

definition waiters_new :: waiters where
  "waiters_new = \<lparr>wl_list = [], wl_next = 0\<rparr>"

type_synonym timer_key = "instant \<times> nat"

record task =
  t_id :: nat
  t_co :: bool
  t_state :: u8
  t_wait :: nat
  t_woke :: u8
  t_timer :: "(nat \<times> timer_key) option"
  t_main :: bool
  t_cancelled :: bool
  t_cancellable :: bool
  t_finished :: bool
  t_finish_waiters :: waiters
  t_result :: "nat option"
  t_handles :: u64

text \<open>
  \<^verbatim>\<open>Shared\<close> and the thread-local part of a worker: its queue with the queue's length, its timers
  (a \<^verbatim>\<open>BTreeMap\<close>, so an association list in key order), whether it was woken to look for work,
  when it last woke from sleeping, whether its \<^verbatim>\<open>mio::Waker\<close> was called, the running task and
  the operations it has left before it must yield.
\<close>

record shared =
  sh_index :: nat
  sh_queue :: "nat list"
  sh_queue_len :: nat
  sh_timers :: "(timer_key \<times> (nat \<times> nat)) list"
  sh_notified :: bool
  sh_busy_since :: instant
  sh_poll_woken :: bool
  sh_current :: "nat option"
  sh_ops_left :: nat

text \<open>What the operating system does when a worker is started: no event queue, no thread, or it runs.\<close>

datatype start_outcome = NoEventQueue | NoThread | Started

record sched =
  tasks :: "nat \<Rightarrow> task"
  next_wait :: nat
  next_task :: nat
  workers :: "shared option list"
  inject :: "nat list"
  inject_len :: nat
  sleeping :: u64
  searching :: nat
  main_done :: bool
  stacks :: nat
  unparked :: "nat list"
  clock :: instant
  share_limit :: nat
  os_start :: "nat \<Rightarrow> start_outcome"
  start_warned :: bool

abbreviation BUDGET :: nat where "BUDGET \<equiv> 128"
abbreviation EVENT_INTERVAL :: nat where "EVENT_INTERVAL \<equiv> 61"
abbreviation MAX_POOLED_STACKS :: nat where "MAX_POOLED_STACKS \<equiv> 256"

definition upd_task :: "nat \<Rightarrow> (task \<Rightarrow> task) \<Rightarrow> sched \<Rightarrow> sched" where
  "upd_task t f s = s\<lparr>tasks := (tasks s)(t := f (tasks s t))\<rparr>"

text \<open>\<^verbatim>\<open>workers().get(index).and_then(OnceLock::get)\<close>.\<close>

definition worker :: "nat \<Rightarrow> sched \<Rightarrow> shared option" where
  "worker i s = (if i < length (workers s) then workers s ! i else None)"

definition upd_worker :: "nat \<Rightarrow> (shared \<Rightarrow> shared) \<Rightarrow> sched \<Rightarrow> sched" where
  "upd_worker i f s =
     (case worker i s of
        None \<Rightarrow> s
      | Some sh \<Rightarrow> s\<lparr>workers := (workers s)[i := Some (f sh)]\<rparr>)"

section \<open>Run queues\<close>

text \<open>\<^verbatim>\<open>Shared::push\<close>: the new length comes back too.\<close>

definition shared_push :: "nat \<Rightarrow> nat \<Rightarrow> sched \<Rightarrow> nat \<times> sched" where
  "shared_push i t s =
     (case worker i s of
        None \<Rightarrow> (0, s)
      | Some sh \<Rightarrow>
          let q = sh_queue sh @ [t]
          in (length q, upd_worker i (\<lambda>sh. sh\<lparr>sh_queue := q, sh_queue_len := length q\<rparr>) s))"

text \<open>\<^verbatim>\<open>Shared::pop\<close>: an empty queue is seen from its length, without taking the lock.\<close>

definition shared_pop :: "nat \<Rightarrow> sched \<Rightarrow> nat option \<times> sched" where
  "shared_pop i s =
     (case worker i s of
        None \<Rightarrow> (None, s)
      | Some sh \<Rightarrow>
          if sh_queue_len sh = 0 then (None, s)
          else case pop_front (sh_queue sh) of
                 None \<Rightarrow> (None, upd_worker i (\<lambda>sh. sh\<lparr>sh_queue_len := length (sh_queue sh)\<rparr>) s)
               | Some (t, q) \<Rightarrow>
                   (Some t, upd_worker i (\<lambda>sh. sh\<lparr>sh_queue := q, sh_queue_len := length q\<rparr>) s))"

definition saturated :: "nat \<Rightarrow> sched \<Rightarrow> bool" where
  "saturated i s =
     (case worker i s of
        None \<Rightarrow> False
      | Some sh \<Rightarrow> share_limit s \<le> clock s - sh_busy_since sh)"

text \<open>\<^verbatim>\<open>u64::trailing_zeros\<close>.\<close>

definition trailing_zeros :: "u64 \<Rightarrow> nat" where
  "trailing_zeros w = length (takeWhile (\<lambda>i. \<not> bit w i) [0..<64])"

definition new_shared :: "nat \<Rightarrow> instant \<Rightarrow> shared" where
  "new_shared i now =
     \<lparr>sh_index = i, sh_queue = [], sh_queue_len = 0, sh_timers = [], sh_notified = False,
      sh_busy_since = now, sh_poll_woken = False, sh_current = None, sh_ops_left = 0\<rparr>"

text \<open>
  \<^verbatim>\<open>start_worker\<close>.  A slot that is out of range or taken is left alone; an event queue or thread
  that cannot be had is reported once, and the worker does not count as searching.
\<close>

definition start_worker :: "nat \<Rightarrow> sched \<Rightarrow> sched" where
  "start_worker i s =
     (if length (workers s) \<le> i then s
      else if workers s ! i \<noteq> None then s
      else case os_start s i of
             NoEventQueue \<Rightarrow> s\<lparr>start_warned := True\<rparr>
           | NoThread \<Rightarrow> s\<lparr>searching := searching s + 1 - 1, start_warned := True\<rparr>
           | Started \<Rightarrow>
               s\<lparr>searching := searching s + 1,
                 workers := (workers s)[i := Some ((new_shared i (clock s))\<lparr>sh_notified := True\<rparr>)]\<rparr>)"

text \<open>
  \<^verbatim>\<open>notify_idle\<close>: unless a woken worker is still looking for work, wake the sleeping worker with
  the lowest index, or if none is asleep start the first worker not started.
\<close>

definition notify_idle :: "sched \<Rightarrow> sched" where
  "notify_idle s =
     (if 0 < searching s then s
      else if sleeping s \<noteq> 0 then
        (let i = trailing_zeros (sleeping s);
             b = push_bit i 1;
             s1 = s\<lparr>sleeping := sleeping s AND NOT b\<rparr>
         in if sleeping s AND b \<noteq> 0 then
              (case worker i s1 of
                 None \<Rightarrow> s1
               | Some sh \<Rightarrow>
                   upd_worker i (\<lambda>sh. sh\<lparr>sh_notified := True, sh_poll_woken := True\<rparr>)
                     (s1\<lparr>searching := searching s1 + 1\<rparr>))
            else s1)
      else case position (\<lambda>w. w = None) (workers s) of
             None \<Rightarrow> s
           | Some i \<Rightarrow> start_worker i s)"

text \<open>\<^verbatim>\<open>push\<close>: on this worker's queue, or from a plain thread on the shared one.\<close>

definition push :: "nat option \<Rightarrow> nat \<Rightarrow> sched \<Rightarrow> sched" where
  "push me t s =
     (case me of
        Some i \<Rightarrow>
          (let (backlog, s1) = shared_push i t s
           in if 1 < backlog \<and> saturated i s1 then notify_idle s1 else s1)
      | None \<Rightarrow>
          (let q = inject s @ [t]
           in notify_idle (s\<lparr>inject := q, inject_len := length q\<rparr>)))"

section \<open>Waking\<close>

text \<open>
  \<^verbatim>\<open>schedule\<close>: a task that is queued already or done is left alone; one still running is only
  marked, for its worker to queue it once it has suspended; any other goes on a queue.
\<close>

definition schedule :: "nat option \<Rightarrow> nat \<Rightarrow> sched \<Rightarrow> sched" where
  "schedule me t s =
     (let st = t_state (tasks s t)
      in if st AND (NOTIFIED OR DONE) \<noteq> 0 then s
         else let s1 = upd_task t (\<lambda>tk. tk\<lparr>t_state := st OR NOTIFIED\<rparr>) s
              in if st AND RUNNING \<noteq> 0 then s1 else push me t s1)"

text \<open>\<^verbatim>\<open>wake\<close>: end the wait \<open>w\<close> of task \<open>t\<close>, if that is still the wait it is in.\<close>

definition wake :: "nat option \<Rightarrow> nat \<Rightarrow> nat \<Rightarrow> woke \<Rightarrow> sched \<Rightarrow> bool \<times> sched" where
  "wake me t w k s =
     (if t_wait (tasks s t) = w
      then (True, schedule me t (upd_task t (\<lambda>tk. tk\<lparr>t_wait := 0, t_woke := woke_u8 k\<rparr>) s))
      else (False, s))"

fun wake_waker :: "nat option \<Rightarrow> task_waker \<Rightarrow> sched \<Rightarrow> bool \<times> sched" where
  "wake_waker me (TaskWaker t w) s = wake me t w WReady s"
| "wake_waker me (ThreadWaker th) s = (True, s\<lparr>unparked := unparked s @ [th]\<rparr>)"

text \<open>
  \<^verbatim>\<open>begin_wait\<close>: a new wait id.  A cancellable wait of a task that is already cancelled ends at
  once.
\<close>

definition begin_wait :: "nat option \<Rightarrow> nat \<Rightarrow> bool \<Rightarrow> sched \<Rightarrow> nat \<times> sched" where
  "begin_wait me t cable s =
     (let w = next_wait s;
          s1 = upd_task t (\<lambda>tk. tk\<lparr>t_woke := woke_u8 WReady, t_cancellable := cable, t_wait := w\<rparr>)
                 (s\<lparr>next_wait := w + 1\<rparr>)
      in (w, if cable \<and> t_cancelled (tasks s1 t) then snd (wake me t w WCancelled s1) else s1))"

text \<open>\<^verbatim>\<open>TaskRef::cancel\<close>.\<close>

definition cancel :: "nat option \<Rightarrow> nat \<Rightarrow> sched \<Rightarrow> sched" where
  "cancel me t s =
     (let s1 = upd_task t (\<lambda>tk. tk\<lparr>t_cancelled := True\<rparr>) s;
          w = t_wait (tasks s1 t)
      in if w \<noteq> 0 \<and> t_cancellable (tasks s1 t) then snd (wake me t w WCancelled s1) else s1)"

text \<open>
  \<^verbatim>\<open>new_waker\<close>: a waker for the next wait of the running task, which it starts, or for this
  thread when no task runs on it.
\<close>

datatype runner = InTask nat | OnThread nat

fun new_waker :: "nat option \<Rightarrow> runner \<Rightarrow> bool \<Rightarrow> sched \<Rightarrow> task_waker \<times> sched" where
  "new_waker me (InTask t) cable s = (let (w, s1) = begin_wait me t cable s in (TaskWaker t w, s1))"
| "new_waker me (OnThread th) cable s = (ThreadWaker th, s)"

section \<open>Wait lists\<close>

definition add_waker :: "task_waker \<Rightarrow> waiters \<Rightarrow> nat \<times> waiters" where
  "add_waker wk ws =
     (let i = wl_next ws + 1 in (i, \<lparr>wl_list = wl_list ws @ [(i, wk)], wl_next = i\<rparr>))"

text \<open>\<^verbatim>\<open>Waiters::add\<close> (\<open>cable\<close> true) and \<^verbatim>\<open>Waiters::add_uncancellable\<close>.\<close>

definition add_waiter ::
  "nat option \<Rightarrow> runner \<Rightarrow> bool \<Rightarrow> waiters \<Rightarrow> sched \<Rightarrow> nat \<times> waiters \<times> sched" where
  "add_waiter me r cable ws s =
     (let (wk, s1) = new_waker me r cable s; (i, ws1) = add_waker wk ws in (i, ws1, s1))"

definition remove_waiter :: "nat \<Rightarrow> waiters \<Rightarrow> waiters" where
  "remove_waiter i ws = ws\<lparr>wl_list := filter (\<lambda>(j, _). j \<noteq> i) (wl_list ws)\<rparr>"

text \<open>\<^verbatim>\<open>Waiters::wake_one\<close>: entries whose wait has ended are dropped on the way.\<close>

fun wake_first ::
  "nat option \<Rightarrow> (nat \<times> task_waker) list \<Rightarrow> sched \<Rightarrow> (nat \<times> task_waker) list \<times> sched" where
  "wake_first me [] s = ([], s)"
| "wake_first me ((i, wk) # l) s =
     (case wake_waker me wk s of (woken, s1) \<Rightarrow> if woken then (l, s1) else wake_first me l s1)"

definition wake_one :: "nat option \<Rightarrow> waiters \<Rightarrow> sched \<Rightarrow> waiters \<times> sched" where
  "wake_one me ws s = (let (l, s1) = wake_first me (wl_list ws) s in (ws\<lparr>wl_list := l\<rparr>, s1))"

fun wake_each :: "nat option \<Rightarrow> (nat \<times> task_waker) list \<Rightarrow> sched \<Rightarrow> sched" where
  "wake_each me [] s = s"
| "wake_each me ((i, wk) # l) s = wake_each me l (snd (wake_waker me wk s))"

definition wake_all :: "nat option \<Rightarrow> waiters \<Rightarrow> sched \<Rightarrow> waiters \<times> sched" where
  "wake_all me ws s = (ws\<lparr>wl_list := []\<rparr>, wake_each me (wl_list ws) s)"

definition next_id :: "waiters \<Rightarrow> nat" where
  "next_id ws = wl_next ws + 1"

definition wake_from :: "nat option \<Rightarrow> nat \<Rightarrow> waiters \<Rightarrow> sched \<Rightarrow> waiters \<times> sched" where
  "wake_from me first ws s =
     (let keep = length (takeWhile (\<lambda>(i, _). i < first) (wl_list ws))
      in (ws\<lparr>wl_list := take keep (wl_list ws)\<rparr>, wake_each me (drop keep (wl_list ws)) s))"

section \<open>Running a task\<close>

text \<open>\<^verbatim>\<open>run_task\<close> up to resuming the coroutine.\<close>

definition run_begin :: "nat \<Rightarrow> nat \<Rightarrow> sched \<Rightarrow> sched" where
  "run_begin i t s =
     upd_worker i (\<lambda>sh. sh\<lparr>sh_current := Some t, sh_ops_left := BUDGET\<rparr>)
       (upd_task t (\<lambda>tk. tk\<lparr>t_state := RUNNING\<rparr>) s)"

text \<open>\<^verbatim>\<open>run_task\<close> after the coroutine handed control back: it yielded, it waits, or it returned.\<close>

datatype suspend = Yielded | Waiting | Returned

definition requeue :: "nat \<Rightarrow> nat \<Rightarrow> sched \<Rightarrow> sched" where
  "requeue i t s = snd (shared_push i t (upd_task t (\<lambda>tk. tk\<lparr>t_state := NOTIFIED\<rparr>) s))"

definition recycle_stack :: "sched \<Rightarrow> sched" where
  "recycle_stack s = (if stacks s < MAX_POOLED_STACKS then s\<lparr>stacks := stacks s + 1\<rparr> else s)"

definition finish_task :: "nat \<Rightarrow> nat \<Rightarrow> sched \<Rightarrow> sched" where
  "finish_task i t s =
     (let s1 = recycle_stack (upd_task t (\<lambda>tk. tk\<lparr>t_state := DONE, t_co := False\<rparr>) s);
          s2 = upd_task t (\<lambda>tk. tk\<lparr>t_finished := True\<rparr>) s1;
          (ws, s3) = wake_all (Some i) (t_finish_waiters (tasks s2 t)) s2;
          s4 = upd_task t (\<lambda>tk. tk\<lparr>t_finish_waiters := ws\<rparr>) s3
      in if t_main (tasks s t)
         then upd_worker 0 (\<lambda>sh. sh\<lparr>sh_poll_woken := True\<rparr>) (s4\<lparr>main_done := True\<rparr>)
         else s4)"

definition run_end :: "nat \<Rightarrow> nat \<Rightarrow> suspend \<Rightarrow> sched \<Rightarrow> sched" where
  "run_end i t why s0 =
     (let s = upd_worker i (\<lambda>sh. sh\<lparr>sh_current := None\<rparr>) s0
      in case why of
           Yielded \<Rightarrow> requeue i t s
         | Waiting \<Rightarrow>
             if t_state (tasks s t) = RUNNING
             then upd_task t (\<lambda>tk. tk\<lparr>t_state := 0\<rparr>) s
             else requeue i t s
         | Returned \<Rightarrow> finish_task i t s)"

section \<open>Stealing and the shared queue\<close>

definition take_injected :: "nat \<Rightarrow> sched \<Rightarrow> bool \<times> sched" where
  "take_injected i s =
     (if inject_len s = 0 then (False, s)
      else case pop_front (inject s) of
             None \<Rightarrow> (False, s\<lparr>inject_len := length (inject s)\<rparr>)
           | Some (t, q) \<Rightarrow>
               (True, snd (shared_push i t (s\<lparr>inject := q, inject_len := length q\<rparr>))))"

text \<open>The half of a queue that a thief takes: \<^verbatim>\<open>queue.len().div_ceil(2)\<close>.\<close>

definition steal_count :: "nat \<Rightarrow> nat" where
  "steal_count n = (n + 1) div 2"

definition steal_from :: "nat \<Rightarrow> nat \<Rightarrow> sched \<Rightarrow> (bool \<times> sched)" where
  "steal_from i v s =
     (case worker v s of
        None \<Rightarrow> (False, s)
      | Some victim \<Rightarrow>
          if sh_index victim = i \<or> sh_queue_len victim = 0 then (False, s)
          else
            (let k = steal_count (length (sh_queue victim));
                 stolen = take k (sh_queue victim);
                 rest = drop k (sh_queue victim);
                 s1 = upd_worker v (\<lambda>sh. sh\<lparr>sh_queue := rest, sh_queue_len := length rest\<rparr>) s
             in if stolen = [] then (False, s1)
                else (True, upd_worker i (\<lambda>sh. sh\<lparr>sh_queue := sh_queue sh @ stolen,
                                                    sh_queue_len := length (sh_queue sh @ stolen)\<rparr>) s1)))"

fun steal_loop :: "nat \<Rightarrow> nat list \<Rightarrow> sched \<Rightarrow> bool \<times> sched" where
  "steal_loop i [] s = (False, s)"
| "steal_loop i (v # vs) s =
     (case steal_from i v s of (found, s1) \<Rightarrow> if found then (True, s1) else steal_loop i vs s1)"

text \<open>\<^verbatim>\<open>steal\<close>: the other workers in order, starting after this one and wrapping round.\<close>

definition steal_order :: "nat \<Rightarrow> nat \<Rightarrow> nat list" where
  "steal_order i n = map (\<lambda>k. (i + 1 + k) mod n) [0..<n]"

definition steal :: "nat \<Rightarrow> sched \<Rightarrow> bool \<times> sched" where
  "steal i s = steal_loop i (steal_order i (length (workers s))) s"

definition answer_notification :: "nat \<Rightarrow> sched \<Rightarrow> bool \<times> sched" where
  "answer_notification i s =
     (case worker i s of
        None \<Rightarrow> (False, s)
      | Some sh \<Rightarrow>
          if \<not> sh_notified sh then (False, s)
          else (let (found, s1) = steal i (upd_worker i (\<lambda>sh. sh\<lparr>sh_notified := False\<rparr>) s)
                in (found, s1\<lparr>searching := searching s1 - 1\<rparr>)))"

section \<open>Timers\<close>

text \<open>\<^verbatim>\<open>BTreeMap::insert\<close> and \<^verbatim>\<open>remove\<close> on the association list in key order.\<close>

fun btree_insert :: "'k::linorder \<Rightarrow> 'v \<Rightarrow> ('k \<times> 'v) list \<Rightarrow> ('k \<times> 'v) list" where
  "btree_insert k v [] = [(k, v)]"
| "btree_insert k v ((k', v') # l) =
     (if k < k' then (k, v) # (k', v') # l
      else if k = k' then (k, v) # l
      else (k', v') # btree_insert k v l)"

definition btree_remove :: "'k \<Rightarrow> ('k \<times> 'v) list \<Rightarrow> ('k \<times> 'v) list" where
  "btree_remove k l = filter (\<lambda>(k', _). k' \<noteq> k) l"

text \<open>\<^verbatim>\<open>wait_suspended\<close> up to the suspension: the timer for the deadline, if there is one.\<close>

definition register_timer :: "nat \<Rightarrow> nat \<Rightarrow> nat \<Rightarrow> deadline \<Rightarrow> sched \<Rightarrow> sched" where
  "register_timer i t w d s =
     (case d of
        Never \<Rightarrow> s
      | At at \<Rightarrow>
          upd_task t (\<lambda>tk. tk\<lparr>t_timer := Some (i, (at, w))\<rparr>)
            (upd_worker i (\<lambda>sh. sh\<lparr>sh_timers := btree_insert (at, w) (t, w) (sh_timers sh)\<rparr>) s))"

text \<open>\<^verbatim>\<open>wait_suspended\<close> after it: the timer removed from whichever worker holds it.\<close>

definition wait_resumed :: "nat \<Rightarrow> sched \<Rightarrow> woke \<times> sched" where
  "wait_resumed t s =
     (let s1 = (case t_timer (tasks s t) of
                  None \<Rightarrow> s
                | Some (i, key) \<Rightarrow>
                    upd_worker i (\<lambda>sh. sh\<lparr>sh_timers := btree_remove key (sh_timers sh)\<rparr>)
                      (upd_task t (\<lambda>tk. tk\<lparr>t_timer := None\<rparr>) s))
      in (from_u8 (t_woke (tasks s1 t)), s1))"

text \<open>
  \<^verbatim>\<open>park\<close> of a task, up to the suspension: \<open>Inl\<close> is how the wait already ended, \<open>Inr\<close> the state
  the task suspends in.
\<close>

definition park_begin :: "nat \<Rightarrow> nat \<Rightarrow> deadline \<Rightarrow> sched \<Rightarrow> woke + sched" where
  "park_begin i t d s =
     (let w = t_wait (tasks s t)
      in if w = 0 then Inl (from_u8 (t_woke (tasks s t))) else Inr (register_timer i t w d s))"

text \<open>
  The \<^verbatim>\<open>compare_exchange\<close> with which a task ends its own wait without suspending (\<^verbatim>\<open>wait_io\<close> on a
  closed socket, \<^verbatim>\<open>MultiWait::abandon\<close>).
\<close>

definition give_up_wait :: "nat \<Rightarrow> nat \<Rightarrow> sched \<Rightarrow> sched" where
  "give_up_wait t w s =
     (if t_wait (tasks s t) = w then upd_task t (\<lambda>tk. tk\<lparr>t_wait := 0\<rparr>) s else s)"

text \<open>\<^verbatim>\<open>fire_timers\<close>: the entries due now leave the map in order, then their tasks are woken.\<close>

definition due_timers :: "instant \<Rightarrow> (timer_key \<times> (nat \<times> nat)) list \<Rightarrow> (nat \<times> nat) list" where
  "due_timers now l = map snd (takeWhile (\<lambda>((at, _), _). at \<le> now) l)"

fun wake_timed_out :: "nat option \<Rightarrow> (nat \<times> nat) list \<Rightarrow> sched \<Rightarrow> sched" where
  "wake_timed_out me [] s = s"
| "wake_timed_out me ((t, w) # l) s = wake_timed_out me l (snd (wake me t w WTimedOut s))"

definition fire_timers :: "nat \<Rightarrow> sched \<Rightarrow> sched" where
  "fire_timers i s =
     (case worker i s of
        None \<Rightarrow> s
      | Some sh \<Rightarrow>
          wake_timed_out (Some i) (due_timers (clock s) (sh_timers sh))
            (upd_worker i (\<lambda>sh. sh\<lparr>sh_timers :=
               dropWhile (\<lambda>((at, _), _). at \<le> clock s) (sh_timers sh)\<rparr>) s))"

text \<open>\<^verbatim>\<open>take_op\<close> and \<^verbatim>\<open>consume_budget\<close>: true when the task must yield.\<close>

definition take_op :: "nat \<Rightarrow> sched \<Rightarrow> bool \<times> sched" where
  "take_op i s =
     (case worker i s of
        None \<Rightarrow> (False, s)
      | Some sh \<Rightarrow>
          if sh_ops_left sh \<le> 1 then (False, s)
          else (True, upd_worker i (\<lambda>sh. sh\<lparr>sh_ops_left := sh_ops_left sh - 1\<rparr>) s))"

definition consume_budget :: "nat option \<Rightarrow> sched \<Rightarrow> bool \<times> sched" where
  "consume_budget me s =
     (case me of
        None \<Rightarrow> (False, s)
      | Some i \<Rightarrow> let (ok, s1) = take_op i s in (\<not> ok, s1))"

section \<open>Starting tasks\<close>

definition new_task :: "nat \<Rightarrow> bool \<Rightarrow> u64 \<Rightarrow> task" where
  "new_task n is_main hs =
     \<lparr>t_id = n, t_co = True, t_state = NOTIFIED, t_wait = 0, t_woke = woke_u8 WReady,
      t_timer = None, t_main = is_main, t_cancelled = False, t_cancellable = False,
      t_finished = False, t_finish_waiters = waiters_new, t_result = None, t_handles = hs\<rparr>"

text \<open>
  \<^verbatim>\<open>take_stack\<close>: a pooled stack, else a new one if the system can map it (\<open>can_map\<close>).
\<close>

definition take_stack :: "bool \<Rightarrow> sched \<Rightarrow> bool \<times> sched" where
  "take_stack can_map s =
     (if 0 < stacks s then (True, s\<lparr>stacks := stacks s - 1\<rparr>) else (can_map, s))"

text \<open>\<^verbatim>\<open>spawn\<close>: \<open>None\<close> when the scheduler is not running or no stack can be had.\<close>

definition spawn :: "bool \<Rightarrow> nat option \<Rightarrow> sched \<Rightarrow> nat option \<times> sched" where
  "spawn can_map me s =
     (if workers s = [] then (None, s)
      else let (ok, s1) = take_stack can_map s
           in if \<not> ok then (None, s1)
              else let t = next_task s1;
                       s2 = s1\<lparr>next_task := t + 1, tasks := (tasks s1)(t := new_task t False 1)\<rparr>
                   in (Some t, push me t s2))"

text \<open>
  \<^verbatim>\<open>run_main\<close> up to \<^verbatim>\<open>worker.run()\<close>: \<open>n\<close> worker slots with worker 0 in the first, and the main
  task, number 1, on its queue.  A number that no task has yet is given a task that is done.
\<close>

definition no_task :: task where
  "no_task = (new_task 0 False 0)\<lparr>t_state := DONE, t_co := False, t_finished := True\<rparr>"

definition run_main_start :: "nat \<Rightarrow> nat \<Rightarrow> (nat \<Rightarrow> start_outcome) \<Rightarrow> instant \<Rightarrow> sched" where
  "run_main_start n share os now =
     snd (shared_push 0 1
       \<lparr>tasks = (\<lambda>_. no_task)(1 := new_task 1 True 0), next_wait = 1, next_task = 2,
        workers = (replicate n None)[0 := Some (new_shared 0 now)],
        inject = [], inject_len = 0, sleeping = 0, searching = 0, main_done = False, stacks = 0,
        unparked = [], clock = now, share_limit = share, os_start = os, start_warned = False\<rparr>)"

end
