(* ===== verification/Sched_Inv.thy ===== *)
theory Sched_Inv
  imports Sched
begin

text \<open>
  What holds of the scheduler in every reachable state: each task that is due to run is on exactly
  one run queue once, no other task is on any, a task runs on at most one worker, and a task that
  has suspended can still be woken.  The steps are the actions of workers, tasks and other
  threads, in any interleaving; each is one operation of the scheduler theory.
\<close>

section \<open>Views of the state\<close>

definition st :: "sched \<Rightarrow> nat \<Rightarrow> u8" where
  "st s t = t_state (tasks s t)"

definition wt :: "sched \<Rightarrow> nat \<Rightarrow> nat" where
  "wt s t = t_wait (tasks s t)"

definition cur :: "nat \<Rightarrow> sched \<Rightarrow> nat option" where
  "cur i s = (case worker i s of None \<Rightarrow> None | Some sh \<Rightarrow> sh_current sh)"

definition queue_of :: "shared option \<Rightarrow> nat multiset" where
  "queue_of w = (case w of None \<Rightarrow> {#} | Some sh \<Rightarrow> mset (sh_queue sh))"

text \<open>Every run queue together, the shared one included.\<close>

definition all_queued :: "sched \<Rightarrow> nat multiset" where
  "all_queued s = mset (inject s) + sum_list (map queue_of (workers s))"

definition lens_ok :: "sched \<Rightarrow> bool" where
  "lens_ok s = (inject_len s = length (inject s) \<and>
     (\<forall>i sh. worker i s = Some sh \<longrightarrow> sh_queue_len sh = length (sh_queue sh) \<and> sh_index sh = i))"

section \<open>Effects of the updates\<close>

lemma tasks_upd_task [simp]: "tasks (upd_task t f s) = (tasks s)(t := f (tasks s t))"
  by (simp add: upd_task_def)

lemma upd_task_frame [simp]:
  "workers (upd_task t f s) = workers s" "worker i (upd_task t f s) = worker i s"
  "inject (upd_task t f s) = inject s" "inject_len (upd_task t f s) = inject_len s"
  "next_wait (upd_task t f s) = next_wait s" "next_task (upd_task t f s) = next_task s"
  "sleeping (upd_task t f s) = sleeping s" "searching (upd_task t f s) = searching s"
  "clock (upd_task t f s) = clock s" "cur i (upd_task t f s) = cur i s"
  "all_queued (upd_task t f s) = all_queued s" "lens_ok (upd_task t f s) = lens_ok s"
  by (simp_all add: upd_task_def worker_def cur_def all_queued_def lens_ok_def)

lemma worker_frame [simp]:
  "worker i (s\<lparr>inject := q\<rparr>) = worker i s" "worker i (s\<lparr>inject_len := n\<rparr>) = worker i s"
  "worker i (s\<lparr>tasks := tk\<rparr>) = worker i s" "worker i (s\<lparr>next_wait := n\<rparr>) = worker i s"
  "worker i (s\<lparr>next_task := n\<rparr>) = worker i s" "worker i (s\<lparr>sleeping := w\<rparr>) = worker i s"
  "worker i (s\<lparr>searching := n\<rparr>) = worker i s" "worker i (s\<lparr>main_done := b\<rparr>) = worker i s"
  "worker i (s\<lparr>stacks := n\<rparr>) = worker i s" "worker i (s\<lparr>unparked := u\<rparr>) = worker i s"
  "worker i (s\<lparr>clock := n\<rparr>) = worker i s" "worker i (s\<lparr>start_warned := b\<rparr>) = worker i s"
  by (simp_all add: worker_def)

lemma cur_frame [simp]:
  "cur i (s\<lparr>inject := q\<rparr>) = cur i s" "cur i (s\<lparr>inject_len := n\<rparr>) = cur i s"
  "cur i (s\<lparr>tasks := tk\<rparr>) = cur i s" "cur i (s\<lparr>next_wait := n\<rparr>) = cur i s"
  "cur i (s\<lparr>next_task := n\<rparr>) = cur i s" "cur i (s\<lparr>sleeping := w\<rparr>) = cur i s"
  "cur i (s\<lparr>searching := n\<rparr>) = cur i s" "cur i (s\<lparr>main_done := b\<rparr>) = cur i s"
  "cur i (s\<lparr>stacks := n\<rparr>) = cur i s" "cur i (s\<lparr>unparked := u\<rparr>) = cur i s"
  "cur i (s\<lparr>clock := n\<rparr>) = cur i s"
  by (simp_all add: cur_def)

lemma all_queued_frame [simp]:
  "all_queued (s\<lparr>tasks := tk\<rparr>) = all_queued s" "all_queued (s\<lparr>next_wait := n\<rparr>) = all_queued s"
  "all_queued (s\<lparr>next_task := n\<rparr>) = all_queued s" "all_queued (s\<lparr>sleeping := w\<rparr>) = all_queued s"
  "all_queued (s\<lparr>searching := n\<rparr>) = all_queued s" "all_queued (s\<lparr>main_done := b\<rparr>) = all_queued s"
  "all_queued (s\<lparr>stacks := n\<rparr>) = all_queued s" "all_queued (s\<lparr>unparked := u\<rparr>) = all_queued s"
  "all_queued (s\<lparr>clock := n\<rparr>) = all_queued s" "all_queued (s\<lparr>inject_len := n\<rparr>) = all_queued s"
  by (simp_all add: all_queued_def)

lemma lens_ok_frame [simp]:
  "lens_ok (s\<lparr>tasks := tk\<rparr>) = lens_ok s" "lens_ok (s\<lparr>next_wait := n\<rparr>) = lens_ok s"
  "lens_ok (s\<lparr>next_task := n\<rparr>) = lens_ok s" "lens_ok (s\<lparr>sleeping := w\<rparr>) = lens_ok s"
  "lens_ok (s\<lparr>searching := n\<rparr>) = lens_ok s" "lens_ok (s\<lparr>main_done := b\<rparr>) = lens_ok s"
  "lens_ok (s\<lparr>stacks := n\<rparr>) = lens_ok s" "lens_ok (s\<lparr>unparked := u\<rparr>) = lens_ok s"
  "lens_ok (s\<lparr>clock := n\<rparr>) = lens_ok s"
  by (simp_all add: lens_ok_def)

lemma lens_ok_inject:
  "lens_ok s \<Longrightarrow> n = length q \<Longrightarrow> lens_ok (s\<lparr>inject := q, inject_len := n\<rparr>)"
  by (simp add: lens_ok_def)

lemma all_queued_inject: "all_queued (s\<lparr>inject := inject s @ [t]\<rparr>) = add_mset t (all_queued s)"
  by (simp add: all_queued_def)

lemma upd_worker_frame [simp]:
  "tasks (upd_worker i f s) = tasks s" "inject (upd_worker i f s) = inject s"
  "inject_len (upd_worker i f s) = inject_len s" "next_wait (upd_worker i f s) = next_wait s"
  "next_task (upd_worker i f s) = next_task s" "sleeping (upd_worker i f s) = sleeping s"
  "searching (upd_worker i f s) = searching s" "clock (upd_worker i f s) = clock s"
  "length (workers (upd_worker i f s)) = length (workers s)"
  by (simp_all add: upd_worker_def split: option.splits)

lemma worker_upd_worker:
  "worker j (upd_worker i f s) = (if j = i then map_option f (worker i s) else worker j s)"
  by (auto simp: upd_worker_def worker_def split: option.splits if_splits)

lemma worker_Some_less: "worker i s = Some sh \<Longrightarrow> i < length (workers s) \<and> workers s ! i = Some sh"
  by (auto simp: worker_def split: if_splits)

lemma sum_list_map_update:
  fixes f :: "'a \<Rightarrow> 'b multiset"
  shows "i < length xs \<Longrightarrow> sum_list (map f (xs[i := v])) + f (xs ! i) = sum_list (map f xs) + f v"
  by (induction xs arbitrary: i) (auto simp: nth_Cons' less_Suc_eq_0_disj split: nat.splits)

lemma all_queued_upd_worker:
  assumes "worker i s = Some sh"
  shows "all_queued (upd_worker i f s) + mset (sh_queue sh) = all_queued s + mset (sh_queue (f sh))"
  using worker_Some_less [OF assms] assms
    sum_list_map_update [of i "workers s" queue_of "Some (f sh)"]
  by (simp add: all_queued_def upd_worker_def queue_of_def ac_simps)

lemma all_queued_upd_worker_same [simp]:
  assumes "\<And>sh. sh_queue (f sh) = sh_queue sh"
  shows "all_queued (upd_worker i f s) = all_queued s"
proof (cases "worker i s")
  case None
  then show ?thesis by (simp add: upd_worker_def)
next
  case (Some sh)
  then show ?thesis using all_queued_upd_worker [OF Some, of f] assms by simp
qed

lemma cur_upd_worker_same:
  assumes "\<And>sh. sh_current (f sh) = sh_current sh"
  shows "cur j (upd_worker i f s) = cur j s"
  using assms by (auto simp: cur_def worker_upd_worker split: option.splits)

lemma lens_ok_upd_worker:
  assumes "lens_ok s"
    and "\<And>sh. worker i s = Some sh \<Longrightarrow> sh_queue_len sh = length (sh_queue sh) \<Longrightarrow>
           sh_queue_len (f sh) = length (sh_queue (f sh)) \<and> sh_index (f sh) = sh_index sh"
  shows "lens_ok (upd_worker i f s)"
  using assms unfolding lens_ok_def by (auto simp: worker_upd_worker split: if_splits)

lemma st_wt_upd_worker [simp]: "st (upd_worker i f s) = st s" "wt (upd_worker i f s) = wt s"
  by (simp_all add: st_def wt_def fun_eq_iff)

lemma st_wt_frame [simp]:
  "st (s\<lparr>inject := x_inject\<rparr>) = st s"
  "st (s\<lparr>inject_len := x_inject_len\<rparr>) = st s"
  "st (s\<lparr>next_wait := x_next_wait\<rparr>) = st s"
  "st (s\<lparr>next_task := x_next_task\<rparr>) = st s"
  "st (s\<lparr>sleeping := x_sleeping\<rparr>) = st s"
  "st (s\<lparr>searching := x_searching\<rparr>) = st s"
  "st (s\<lparr>main_done := x_main_done\<rparr>) = st s"
  "st (s\<lparr>stacks := x_stacks\<rparr>) = st s"
  "st (s\<lparr>unparked := x_unparked\<rparr>) = st s"
  "st (s\<lparr>clock := x_clock\<rparr>) = st s"
  "st (s\<lparr>start_warned := x_start_warned\<rparr>) = st s"
  "st (s\<lparr>workers := x_workers\<rparr>) = st s"
  "wt (s\<lparr>inject := x_inject\<rparr>) = wt s"
  "wt (s\<lparr>inject_len := x_inject_len\<rparr>) = wt s"
  "wt (s\<lparr>next_wait := x_next_wait\<rparr>) = wt s"
  "wt (s\<lparr>next_task := x_next_task\<rparr>) = wt s"
  "wt (s\<lparr>sleeping := x_sleeping\<rparr>) = wt s"
  "wt (s\<lparr>searching := x_searching\<rparr>) = wt s"
  "wt (s\<lparr>main_done := x_main_done\<rparr>) = wt s"
  "wt (s\<lparr>stacks := x_stacks\<rparr>) = wt s"
  "wt (s\<lparr>unparked := x_unparked\<rparr>) = wt s"
  "wt (s\<lparr>clock := x_clock\<rparr>) = wt s"
  "wt (s\<lparr>start_warned := x_start_warned\<rparr>) = wt s"
  "wt (s\<lparr>workers := x_workers\<rparr>) = wt s"
  by (simp_all add: st_def wt_def fun_eq_iff)

lemma st_upd_task: "st (upd_task t f s) = (st s)(t := t_state (f (tasks s t)))"
  by (simp add: st_def fun_eq_iff)

lemma wt_upd_task: "wt (upd_task t f s) = (wt s)(t := t_wait (f (tasks s t)))"
  by (simp add: wt_def fun_eq_iff)

lemma st_wt_cong: "tasks s' = tasks s \<Longrightarrow> st s' = st s \<and> wt s' = wt s"
  by (simp add: st_def wt_def fun_eq_iff)

lemma st_upd_same [simp]: "t_state (f (tasks s t)) = t_state (tasks s t) \<Longrightarrow> st (upd_task t f s) = st s"
  by (simp add: st_def fun_eq_iff)

lemma wt_upd_same [simp]: "t_wait (f (tasks s t)) = t_wait (tasks s t) \<Longrightarrow> wt (upd_task t f s) = wt s"
  by (simp add: wt_def fun_eq_iff)

section \<open>Effects of the queue operations\<close>

lemma shared_push_effect:
  assumes "worker i s = Some sh"
  shows "tasks (snd (shared_push i t s)) = tasks s"
    "all_queued (snd (shared_push i t s)) = add_mset t (all_queued s)"
    "cur j (snd (shared_push i t s)) = cur j s"
    "next_wait (snd (shared_push i t s)) = next_wait s"
    "next_task (snd (shared_push i t s)) = next_task s"
    "lens_ok s \<Longrightarrow> lens_ok (snd (shared_push i t s))"
    "worker j s = None \<Longrightarrow> worker j (snd (shared_push i t s)) = None"
  using assms all_queued_upd_worker [OF assms, of
      "\<lambda>x. x\<lparr>sh_queue := sh_queue sh @ [t], sh_queue_len := length (sh_queue sh @ [t])\<rparr>"]
  by (auto simp: shared_push_def Let_def cur_upd_worker_same worker_upd_worker
      intro!: lens_ok_upd_worker)

lemma start_worker_effect:
  "tasks (start_worker i s) = tasks s" "all_queued (start_worker i s) = all_queued s"
  "cur j (start_worker i s) = cur j s" "next_wait (start_worker i s) = next_wait s"
  "next_task (start_worker i s) = next_task s" "lens_ok s \<Longrightarrow> lens_ok (start_worker i s)"
proof -
  have "all_queued s = all_queued (s\<lparr>searching := a,
      workers := (workers s)[i := Some ((new_shared i c)\<lparr>sh_notified := True\<rparr>)]\<rparr>)"
    if "i < length (workers s)" "workers s ! i = None" for a c
    using that sum_list_map_update [of i "workers s" queue_of
        "Some ((new_shared i c)\<lparr>sh_notified := True\<rparr>)"]
    by (simp add: all_queued_def queue_of_def new_shared_def)
  then show "all_queued (start_worker i s) = all_queued s"
    by (auto simp: start_worker_def all_queued_def split: start_outcome.splits)
qed (auto simp: start_worker_def cur_def worker_def lens_ok_def new_shared_def nth_list_update
    split: start_outcome.splits option.splits if_splits)

lemma notify_idle_effect:
  "tasks (notify_idle s) = tasks s" "all_queued (notify_idle s) = all_queued s"
  "cur j (notify_idle s) = cur j s" "next_wait (notify_idle s) = next_wait s"
  "next_task (notify_idle s) = next_task s" "lens_ok s \<Longrightarrow> lens_ok (notify_idle s)"
  by (auto simp: notify_idle_def Let_def start_worker_effect cur_upd_worker_same
        intro!: lens_ok_upd_worker split: option.splits)

text \<open>The thread that acts is a plain thread or one of the workers.\<close>

definition valid_me :: "nat option \<Rightarrow> sched \<Rightarrow> bool" where
  "valid_me me s = (\<forall>i. me = Some i \<longrightarrow> worker i s \<noteq> None)"

lemma push_effect:
  assumes "valid_me me s"
  shows "tasks (push me t s) = tasks s"
    "all_queued (push me t s) = add_mset t (all_queued s)"
    "cur j (push me t s) = cur j s" "next_wait (push me t s) = next_wait s"
    "next_task (push me t s) = next_task s" "lens_ok s \<Longrightarrow> lens_ok (push me t s)"
proof -
  consider "me = None" | i sh where "me = Some i" "worker i s = Some sh"
    using assms by (cases me) (auto simp: valid_me_def)
  then have "tasks (push me t s) = tasks s \<and> all_queued (push me t s) = add_mset t (all_queued s) \<and>
    cur j (push me t s) = cur j s \<and> next_wait (push me t s) = next_wait s \<and>
    next_task (push me t s) = next_task s \<and> (lens_ok s \<longrightarrow> lens_ok (push me t s))"
  proof cases
    case 1
    then show ?thesis by (simp add: push_def Let_def notify_idle_effect all_queued_inject lens_ok_inject)
  next
    case (2 i sh)
    then show ?thesis
      by (simp add: push_def Let_def notify_idle_effect shared_push_effect case_prod_beta)
  qed
  then show "tasks (push me t s) = tasks s"
    "all_queued (push me t s) = add_mset t (all_queued s)"
    "cur j (push me t s) = cur j s" "next_wait (push me t s) = next_wait s"
    "next_task (push me t s) = next_task s" "lens_ok s \<Longrightarrow> lens_ok (push me t s)"
    by blast+
qed

text \<open>A task is due: it is on a queue, or must go back on one.\<close>

definition due :: "u8 \<Rightarrow> bool" where
  "due b = (b AND NOTIFIED \<noteq> 0 \<and> b AND RUNNING = 0)"

abbreviation state_bits :: "u8 set" where
  "state_bits \<equiv> {0, RUNNING, NOTIFIED, RUNNING OR NOTIFIED, DONE}"

lemma due_simps [simp]:
  "\<not> due 0" "\<not> due RUNNING" "due NOTIFIED" "\<not> due (RUNNING OR NOTIFIED)" "\<not> due DONE" "\<not> due 3"
  by (simp_all add: due_def)

lemma schedule_cases:
  assumes "st s t \<in> state_bits"
  obtains "st s t \<in> {NOTIFIED, RUNNING OR NOTIFIED, DONE}" "schedule me t s = s"
  | "st s t = RUNNING"
    "schedule me t s = upd_task t (\<lambda>tk. tk\<lparr>t_state := RUNNING OR NOTIFIED\<rparr>) s"
  | "st s t = 0" "schedule me t s = push me t (upd_task t (\<lambda>tk. tk\<lparr>t_state := NOTIFIED\<rparr>) s)"
  using assms by (auto simp: schedule_def st_def Let_def)

lemma valid_me_upd_task [simp]: "valid_me me (upd_task t f s) = valid_me me s"
  by (simp add: valid_me_def)

lemma schedule_effect:
  assumes "st s t \<in> state_bits" "valid_me me s"
  shows "wt (schedule me t s) = wt s" "cur j (schedule me t s) = cur j s"
    "next_wait (schedule me t s) = next_wait s" "next_task (schedule me t s) = next_task s"
    "lens_ok s \<Longrightarrow> lens_ok (schedule me t s)"
    "st (schedule me t s) = (st s)(t := if st s t = DONE then DONE else st s t OR NOTIFIED)"
    "all_queued (schedule me t s) =
       (if st s t = 0 then add_mset t (all_queued s) else all_queued s)"
  using schedule_cases [OF assms(1), of me]
  by (cases; use assms(2) in \<open>auto simp: push_effect st_def wt_def fun_eq_iff\<close>)+

section \<open>The invariant\<close>

text \<open>
  Where a running task is: working, or committed to suspending for the wait it started last.
  Between starting a wait and suspending, a task neither yields nor returns; the scheduler's
  callers all have that shape.
\<close>

datatype phase = Working | Committed nat

type_synonym config = "sched \<times> (nat \<Rightarrow> phase)"

definition running :: "u8 \<Rightarrow> bool" where
  "running b = (b AND RUNNING \<noteq> 0)"

definition notified :: "u8 \<Rightarrow> bool" where
  "notified b = (b AND NOTIFIED \<noteq> 0)"

lemma flag_simps [simp]:
  "\<not> running 0" "running RUNNING" "\<not> running NOTIFIED" "running (RUNNING OR NOTIFIED)" "\<not> running DONE"
  "\<not> notified 0" "\<not> notified RUNNING" "notified NOTIFIED" "notified (RUNNING OR NOTIFIED)"
  "\<not> notified DONE" "running 3" "notified 3"
  by (simp_all add: running_def notified_def)

text \<open>
  The invariant.  The tasks in \<open>X\<close> are in the middle of being woken: their wait has been claimed
  and they are about to be scheduled.
\<close>

definition queues_ok :: "sched \<Rightarrow> bool" where
  "queues_ok s = (lens_ok s \<and> (\<forall>t. st s t \<in> state_bits) \<and>
     (\<forall>t. count (all_queued s) t = of_bool (due (st s t))))"

definition current_ok :: "sched \<Rightarrow> bool" where
  "current_ok s = ((\<forall>t. running (st s t) \<longleftrightarrow> (\<exists>i. cur i s = Some t)) \<and>
     (\<forall>i j t. cur i s = Some t \<longrightarrow> cur j s = Some t \<longrightarrow> i = j))"

definition wait_ok :: "bool \<Rightarrow> nat \<Rightarrow> u8 \<Rightarrow> nat \<Rightarrow> phase \<Rightarrow> bool" where
  "wait_ok claimed nw b w ph =
     (w < nw \<and> (b = 0 \<longrightarrow> claimed \<or> w \<noteq> 0) \<and>
      (case ph of
         Working \<Rightarrow> True
       | Committed v \<Rightarrow> running b \<and> 0 < v \<and> (claimed \<or> w = v \<or> notified b)))"

text \<open>A number not given to a task yet counts as a task that is done: it cannot be scheduled.\<close>

definition waits_ok :: "nat set \<Rightarrow> config \<Rightarrow> bool" where
  "waits_ok X c = (case c of (s, p) \<Rightarrow>
     (\<forall>t. wait_ok (t \<in> X) (next_wait s) (st s t) (wt s t) (p t)) \<and>
     (\<forall>t. next_task s \<le> t \<longrightarrow> st s t = DONE))"

definition sched_inv :: "nat set \<Rightarrow> config \<Rightarrow> bool" where
  "sched_inv X c = (queues_ok (fst c) \<and> current_ok (fst c) \<and> waits_ok X c)"

lemmas inv_defs = sched_inv_def queues_ok_def current_ok_def waits_ok_def

text \<open>The invariant depends only on the views.\<close>

lemma sched_inv_cong:
  assumes "sched_inv X (s, p)" "lens_ok s'" "st s' = st s" "wt s' = wt s"
    "all_queued s' = all_queued s" "\<And>i. cur i s' = cur i s"
    "next_wait s' = next_wait s" "next_task s' = next_task s"
  shows "sched_inv X (s', p)"
  using assms(1,2) unfolding inv_defs fst_conv prod.case assms(3-) by blast

lemma sched_invD:
  assumes "sched_inv X (s, p)"
  shows "lens_ok s" "st s t \<in> state_bits" "count (all_queued s) t = of_bool (due (st s t))"
    "running (st s t) \<longleftrightarrow> (\<exists>i. cur i s = Some t)"
    "cur i s = Some t \<Longrightarrow> cur j s = Some t \<Longrightarrow> i = j"
    "next_task s \<le> t \<Longrightarrow> st s t = DONE"
    "wait_ok (t \<in> X) (next_wait s) (st s t) (wt s t) (p t)"
  using assms by (auto simp: inv_defs)

lemma inv_schedule:
  assumes inv: "sched_inv {t} (s, p)" and "valid_me me s"
  shows "sched_inv {} (schedule me t s, p)"
proof -
  note eff = schedule_effect [OF sched_invD(2) [OF inv] assms(2)]
  have sb: "st s t \<in> state_bits" by (rule sched_invD(2) [OF inv])
  have q: "queues_ok (schedule me t s)"
    using inv sb by (auto simp: inv_defs eff)
  have r: "running (st (schedule me t s) u) = running (st s u)" for u
    using sb by (auto simp: eff)
  have c: "current_ok (schedule me t s)"
    using inv by (simp add: sched_inv_def current_ok_def eff(2) r)
  have "wait_ok False (next_wait s) (st (schedule me t s) t) (wt s t) (p t)"
    using sched_invD(7) [OF inv, of t] sb by (auto simp: wait_ok_def eff split: phase.splits)
  moreover have "wait_ok False (next_wait s) (st s u) (wt s u) (p u)" if "u \<noteq> t" for u
    using sched_invD(7) [OF inv, of u] that by simp
  ultimately have "waits_ok {} (schedule me t s, p)"
    using sched_invD(6) [OF inv] by (auto simp: waits_ok_def eff)
  with q c show ?thesis by (simp add: sched_inv_def)
qed

lemma inv_wake:
  assumes inv: "sched_inv {} (s, p)" and "valid_me me s"
  shows "sched_inv {} (snd (wake me t w k s), p)"
proof (cases "wt s t = w")
  case True
  let ?s = "upd_task t (\<lambda>tk. tk\<lparr>t_wait := 0, t_woke := woke_u8 k\<rparr>) s"
  have stu: "st ?s = st s" by (simp add: st_def fun_eq_iff)
  have "wait_ok (u = t) (next_wait s) (st s u) (((wt s)(t := 0)) u) (p u)" for u
    using sched_invD(7) [OF inv, of u] by (auto simp: wait_ok_def split: phase.splits)
  then have "waits_ok {t} (?s, p)"
    using sched_invD(6) [OF inv] by (simp add: waits_ok_def wt_upd_task stu)
  then have "sched_inv {t} (?s, p)"
    using inv by (simp add: sched_inv_def queues_ok_def current_ok_def stu)
  then show ?thesis
    using inv_schedule [of t ?s p me] assms(2) True by (simp add: wake_def wt_def)
qed (use inv in \<open>simp add: wake_def wt_def\<close>)

section \<open>Operations keep the invariant\<close>

lemma alive_upd_worker [simp]: "worker j (upd_worker i f s) = None \<longleftrightarrow> worker j s = None"
  by (simp add: worker_upd_worker)

lemma alive_start_worker: "worker j (start_worker i s) = None \<Longrightarrow> worker j s = None"
  by (auto simp: start_worker_def worker_def nth_list_update split: start_outcome.splits if_splits)

lemma alive_notify_idle: "worker j (notify_idle s) = None \<Longrightarrow> worker j s = None"
  by (auto simp: notify_idle_def Let_def dest: alive_start_worker split: option.splits if_splits)

lemma alive_shared_push [simp]: "worker j (snd (shared_push i t s)) = None \<longleftrightarrow> worker j s = None"
  by (simp add: shared_push_def Let_def split: option.splits)

lemma alive_push: "worker j (push me t s) = None \<Longrightarrow> worker j s = None"
  by (auto simp: push_def Let_def case_prod_beta dest: alive_notify_idle split: option.splits if_splits)

lemma alive_wake: "worker j (snd (wake me t w k s)) = None \<Longrightarrow> worker j s = None"
  by (auto simp: wake_def schedule_def Let_def dest: alive_push split: if_splits)

lemma valid_me_wake: "valid_me me s \<Longrightarrow> valid_me me (snd (wake me' t w k s))"
  using alive_wake unfolding valid_me_def by blast

lemma inv_wake_timed_out:
  "sched_inv {} (s, p) \<Longrightarrow> valid_me me s \<Longrightarrow> sched_inv {} (wake_timed_out me l s, p)"
  by (induction me l s rule: wake_timed_out.induct) (simp_all add: inv_wake valid_me_wake)

lemma inv_frame:
  assumes "sched_inv X (s, p)"
  shows "sched_inv X (s\<lparr>unparked := u\<rparr>, p)" "sched_inv X (s\<lparr>clock := n\<rparr>, p)"
    "sched_inv X (s\<lparr>stacks := n\<rparr>, p)" "sched_inv X (s\<lparr>main_done := b\<rparr>, p)"
    "sched_inv X (s\<lparr>searching := n\<rparr>, p)" "sched_inv X (s\<lparr>sleeping := m\<rparr>, p)"
  by (rule sched_inv_cong [OF assms], simp_all add: sched_invD(1) [OF assms] st_def wt_def fun_eq_iff)+

lemma inv_upd_worker:
  assumes "sched_inv X (s, p)" "\<And>sh. sh_queue (f sh) = sh_queue sh"
    "\<And>sh. sh_queue_len (f sh) = sh_queue_len sh" "\<And>sh. sh_index (f sh) = sh_index sh"
    "\<And>sh. sh_current (f sh) = sh_current sh"
  shows "sched_inv X (upd_worker i f s, p)"
  by (rule sched_inv_cong [OF assms(1)])
    (use assms(2-) in \<open>auto simp: cur_upd_worker_same
       intro!: lens_ok_upd_worker sched_invD(1) [OF assms(1)]\<close>)

lemma inv_upd_task:
  assumes "sched_inv X (s, p)" "t_state (f (tasks s t)) = st s t" "t_wait (f (tasks s t)) = wt s t"
  shows "sched_inv X (upd_task t f s, p)"
  by (rule sched_inv_cong [OF assms(1)])
    (use assms(2-) in \<open>auto simp: st_upd_task wt_upd_task sched_invD(1) [OF assms(1)]\<close>)

lemma inv_wake_each:
  "sched_inv {} (s, p) \<Longrightarrow> valid_me me s \<Longrightarrow> sched_inv {} (wake_each me l s, p)"
proof (induction me l s rule: wake_each.induct)
  case (2 me i wk l s)
  have "valid_me me (snd (wake_waker me wk s))"
    using 2(3) by (cases wk) (simp_all add: valid_me_wake, simp add: valid_me_def)
  moreover have "sched_inv {} (snd (wake_waker me wk s), p)"
    using 2(2,3) by (cases wk) (simp_all add: inv_wake inv_frame)
  ultimately show ?case using 2(1) by simp
qed simp


lemma begin_wait_inv:
  assumes inv: "sched_inv {} (s, p)" and run: "running (st s t)" and "valid_me me s"
  shows "sched_inv {} (snd (begin_wait me t c s), p(t := Committed (fst (begin_wait me t c s))))"
proof -
  let ?w = "next_wait s" and ?p = "p(t := Committed (next_wait s))"
  let ?s = "upd_task t (\<lambda>tk. tk\<lparr>t_woke := woke_u8 WReady, t_cancellable := c, t_wait := ?w\<rparr>)
                 (s\<lparr>next_wait := ?w + 1\<rparr>)"
  have "wait_ok False (?w + 1) (st s u) (((wt s)(t := ?w)) u) (?p u)" for u
    using sched_invD(7) [OF inv, of u] run by (auto simp: wait_ok_def split: phase.splits)
  then have "waits_ok {} (?s, ?p)"
    using sched_invD(6) [OF inv] by (simp add: waits_ok_def wt_upd_task del: fun_upd_apply)
  then have "sched_inv {} (?s, ?p)"
    using inv by (simp add: sched_inv_def queues_ok_def current_ok_def)
  moreover have "valid_me me ?s" using assms(3) by (simp add: valid_me_def)
  ultimately show ?thesis
    using inv_wake by (cases c) (simp_all add: begin_wait_def Let_def)
qed

lemma cancel_inv:
  assumes "sched_inv {} (s, p)" "valid_me me s"
  shows "sched_inv {} (cancel me t s, p)"
proof -
  have "sched_inv {} (upd_task t (\<lambda>tk. tk\<lparr>t_cancelled := True\<rparr>) s, p)"
    by (rule inv_upd_task [OF assms(1)]) (simp_all add: st_def wt_def)
  then show ?thesis using assms(2) by (simp add: cancel_def Let_def inv_wake)
qed

lemma cur_Some_worker: "cur i s = Some t \<Longrightarrow> \<exists>sh. worker i s = Some sh \<and> sh_current sh = Some t"
  by (auto simp: cur_def split: option.splits)

lemma shared_pop_SomeD:
  assumes "shared_pop i s = (Some t, s')"
  obtains sh q where "worker i s = Some sh" "sh_queue sh = t # q"
    "s' = upd_worker i (\<lambda>sh. sh\<lparr>sh_queue := q, sh_queue_len := length q\<rparr>) s"
  using assms by (auto simp: shared_pop_def pop_front_Some split: option.splits if_splits)

lemma run_begin_inv:
  assumes inv: "sched_inv {} (s, p)" and pop: "shared_pop i s = (Some t, s')" and idle: "cur i s = None"
  shows "sched_inv {} (run_begin i t s', p(t := Working))"
proof -
  from pop obtain sh q where w: "worker i s = Some sh" "sh_queue sh = t # q"
    and s': "s' = upd_worker i (\<lambda>sh. sh\<lparr>sh_queue := q, sh_queue_len := length q\<rparr>) s"
    by (rule shared_pop_SomeD)
  let ?s = "run_begin i t s'"
  have q: "all_queued s = add_mset t (all_queued s')"
    using all_queued_upd_worker [OF w(1), of "\<lambda>sh. sh\<lparr>sh_queue := q, sh_queue_len := length q\<rparr>"] w(2)
    by (simp add: s')
  then have "count (all_queued s) t > 0" by simp
  then have n: "st s t = NOTIFIED" using sched_invD(2,3) [OF inv, of t] by auto
  have sts: "st ?s = (st s)(t := RUNNING)" "wt ?s = wt s"
    by (simp_all add: run_begin_def st_upd_task s')
  have cs: "cur j ?s = (if j = i then Some t else cur j s)" for j
    using w(1) by (simp add: run_begin_def cur_def worker_upd_worker s')
  have aq: "all_queued ?s = all_queued s'" by (simp add: run_begin_def)
  have "lens_ok ?s" unfolding run_begin_def s'
    by (intro lens_ok_upd_worker) (auto intro!: lens_ok_upd_worker simp: sched_invD(1) [OF inv])
  moreover have "count (all_queued s') u = of_bool (due (((st s)(t := RUNNING)) u))" for u
    using sched_invD(3) [OF inv, of u] q n by (auto split: if_splits)
  ultimately have "queues_ok ?s"
    using sched_invD(2) [OF inv] by (simp add: queues_ok_def sts aq)
  moreover have "running (((st s)(t := RUNNING)) u) \<longleftrightarrow> (\<exists>j. (if j = i then Some t else cur j s) = Some u)"
    for u using sched_invD(4) [OF inv, of u] n idle by (cases "u = t") (auto, metis option.distinct(1))
  moreover have "cur j s \<noteq> Some t" for j
    using sched_invD(4) [OF inv, of t] n by auto
  ultimately have "queues_ok ?s" "current_ok ?s"
    using sched_invD(5) [OF inv] by (auto simp: current_ok_def sts cs simp del: fun_upd_apply)
  moreover have "wait_ok False (next_wait s) (((st s)(t := RUNNING)) u) (wt s u) ((p(t := Working)) u)" for u
    using sched_invD(7) [OF inv, of u] by (auto simp: wait_ok_def)
  moreover have "((st s)(t := RUNNING)) u = DONE" if "next_task s \<le> u" for u
    using sched_invD(6) [OF inv that] n by auto
  moreover have "next_wait ?s = next_wait s" "next_task ?s = next_task s"
    by (simp_all add: run_begin_def s')
  ultimately show ?thesis by (simp add: sched_inv_def waits_ok_def sts del: fun_upd_apply)
qed

text \<open>A task leaves its worker, with the state \<open>b\<close>.\<close>

lemma leave_views:
  assumes inv: "sched_inv {} (s, p)" and cur: "cur i s = Some t"
    and f: "\<And>x. t_state (f x) = b" "\<And>x. t_wait (f x) = t_wait x" and b: "\<not> running b"
  defines "s' \<equiv> upd_task t f (upd_worker i (\<lambda>sh. sh\<lparr>sh_current := None\<rparr>) s)"
  shows "st s' = (st s)(t := b)" "wt s' = wt s" "all_queued s' = all_queued s" "lens_ok s'"
    "current_ok s'" "next_wait s' = next_wait s" "next_task s' = next_task s" "worker i s' \<noteq> None"
proof -
  obtain sh where w: "worker i s = Some sh" using cur_Some_worker [OF cur] by auto
  show v: "st s' = (st s)(t := b)" "wt s' = wt s" "all_queued s' = all_queued s"
    "next_wait s' = next_wait s" "next_task s' = next_task s" "worker i s' \<noteq> None"
    using f w by (simp_all add: s'_def st_upd_task wt_def fun_eq_iff worker_upd_worker)
  show "lens_ok s'" by (simp add: s'_def) (auto intro!: lens_ok_upd_worker simp: sched_invD(1) [OF inv])
  have cs: "cur j s' = (if j = i then None else cur j s)" for j
    by (auto simp: s'_def cur_def worker_upd_worker split: option.splits)
  have "running (((st s)(t := b)) u) \<longleftrightarrow> (\<exists>j. (if j = i then None else cur j s) = Some u)" for u
  proof (cases "u = t")
    case True
    have "j = i" if "cur j s = Some t" for j using sched_invD(5) [OF inv that cur] .
    then show ?thesis using b True by auto
  next
    case False
    then have "cur i s \<noteq> Some u" using cur by simp
    then have "(\<exists>j. (if j = i then None else cur j s) = Some u) \<longleftrightarrow> (\<exists>j. cur j s = Some u)"
      by (metis option.distinct(1))
    then show ?thesis using sched_invD(4) [OF inv, of u] False by simp
  qed
  then show "current_ok s'"
    using sched_invD(5) [OF inv] by (auto simp: current_ok_def v(1) cs simp del: fun_upd_apply)
qed

lemma leave_inv:
  assumes inv: "sched_inv {} (s, p)" and cur: "cur i s = Some t"
    and f: "\<And>x. t_state (f x) = b" "\<And>x. t_wait (f x) = t_wait x"
    and b: "b = DONE \<or> b = 0 \<and> wt s t \<noteq> 0"
  shows "sched_inv {} (upd_task t f (upd_worker i (\<lambda>sh. sh\<lparr>sh_current := None\<rparr>) s), p(t := Working))"
    (is "sched_inv {} (?s, _)")
proof -
  have "\<not> running b" "\<not> due b" "b \<in> state_bits" using b by auto
  note v = leave_views [OF inv cur f this(1)]
  have r: "running (st s t)" using sched_invD(4) [OF inv, of t] cur by auto
  then have nd: "\<not> due (st s t)" by (simp add: running_def due_def)
  have "of_bool (due (((st s)(t := b)) u)) = count (all_queued s) u" for u
    using sched_invD(3) [OF inv, of u] \<open>\<not> due b\<close> nd by auto
  then have "queues_ok ?s"
    using sched_invD(2) [OF inv] \<open>b \<in> state_bits\<close> v(4) unfolding queues_ok_def v(1,3) by simp
  moreover have "wait_ok False (next_wait s) (((st s)(t := b)) u) (wt s u) ((p(t := Working)) u)" for u
    using sched_invD(7) [OF inv, of u] b by (auto simp: wait_ok_def)
  moreover have "((st s)(t := b)) u = DONE" if "next_task s \<le> u" for u
    using sched_invD(6) [OF inv that] r by (cases "u = t") auto
  ultimately show ?thesis
    by (simp add: sched_inv_def waits_ok_def v del: fun_upd_apply)
qed

lemma requeue_inv:
  assumes inv: "sched_inv {} (s, p)" and cur: "cur i s = Some t"
  shows "sched_inv {} (requeue i t (upd_worker i (\<lambda>sh. sh\<lparr>sh_current := None\<rparr>) s), p(t := Working))"
proof -
  have f: "t_state (x\<lparr>t_state := NOTIFIED\<rparr>) = NOTIFIED" "t_wait (x\<lparr>t_state := NOTIFIED\<rparr>) = t_wait x"
    for x :: task by simp_all
  note v = leave_views [OF inv cur f flag_simps(3)]
  let ?s = "upd_task t (\<lambda>x. x\<lparr>t_state := NOTIFIED\<rparr>) (upd_worker i (\<lambda>sh. sh\<lparr>sh_current := None\<rparr>) s)"
  let ?r = "requeue i t (upd_worker i (\<lambda>sh. sh\<lparr>sh_current := None\<rparr>) s)"
  obtain sh where w: "worker i ?s = Some sh"
    using cur_Some_worker [OF cur] by (auto simp: worker_upd_worker)
  note e = shared_push_effect [OF w, where t = t]
  have r: "running (st s t)" using sched_invD(4) [OF inv, of t] cur by auto
  then have nd: "\<not> due (st s t)" by (simp add: running_def due_def)
  have re: "?r = snd (shared_push i t ?s)" by (simp add: requeue_def)
  have vs: "st ?r = st ?s" "wt ?r = wt ?s" using st_wt_cong [OF e(1)] by (simp_all only: re)
  have stw: "st ?r = (st s)(t := NOTIFIED)" "wt ?r = wt s" by (simp_all only: vs v(1,2))
  have aq: "all_queued ?r = add_mset t (all_queued s)" by (simp only: re e(2) v(3))
  have "of_bool (due (((st s)(t := NOTIFIED)) u)) = count (add_mset t (all_queued s)) u" for u
    using sched_invD(3) [OF inv, of u] nd by auto
  moreover have "lens_ok ?r" using e(6) v(4) by (simp add: re)
  ultimately have "queues_ok ?r"
    using sched_invD(2) [OF inv] by (simp add: queues_ok_def stw aq)
  moreover have "current_ok ?r"
    using v(5) unfolding current_ok_def vs(1) unfolding re e(3) .
  moreover have "wait_ok False (next_wait s) (((st s)(t := NOTIFIED)) u) (wt s u) ((p(t := Working)) u)" for u
    using sched_invD(7) [OF inv, of u] by (auto simp: wait_ok_def)
  moreover have "((st s)(t := NOTIFIED)) u = DONE" if "next_task s \<le> u" for u
    using sched_invD(6) [OF inv that] r by (cases "u = t") auto
  moreover have "next_wait ?r = next_wait s" "next_task ?r = next_task s"
    using e(4,5) v(6,7) by (simp_all add: re)
  ultimately show ?thesis unfolding sched_inv_def waits_ok_def fst_conv prod.case stw by simp
qed

lemma finish_task_inv:
  assumes inv: "sched_inv {} (s, p)" and cur: "cur i s = Some t"
  shows "sched_inv {} (finish_task i t (upd_worker i (\<lambda>sh. sh\<lparr>sh_current := None\<rparr>) s), p(t := Working))"
proof -
  let ?s1 = "upd_task t (\<lambda>tk. tk\<lparr>t_state := DONE, t_co := False\<rparr>)
    (upd_worker i (\<lambda>sh. sh\<lparr>sh_current := None\<rparr>) s)"
  let ?s2 = "upd_task t (\<lambda>tk. tk\<lparr>t_finished := True\<rparr>) (recycle_stack ?s1)"
  have "sched_inv {} (?s1, p(t := Working))" by (rule leave_inv [OF inv cur, where b = DONE]) simp_all
  then have "sched_inv {} (recycle_stack ?s1, p(t := Working))"
    by (simp add: recycle_stack_def inv_frame)
  then have 2: "sched_inv {} (?s2, p(t := Working))"
    by (rule inv_upd_task) (simp_all add: st_def wt_def)
  have "worker i ?s2 \<noteq> None"
    using cur_Some_worker [OF cur] by (auto simp: recycle_stack_def worker_upd_worker)
  then have "valid_me (Some i) ?s2" by (simp add: valid_me_def)
  then have 3: "sched_inv {} (wake_each (Some i) l ?s2, p(t := Working))" for l
    by (rule inv_wake_each [OF 2])
  have 4: "sched_inv {} (upd_task t (\<lambda>tk. tk\<lparr>t_finish_waiters := ws\<rparr>) (wake_each (Some i) l ?s2), p(t := Working))"
    for ws l by (rule inv_upd_task [OF 3]) (simp_all add: st_def wt_def)
  show ?thesis
    using 4 inv_frame(4) [OF 4] unfolding finish_task_def Let_def wake_all_def
    by (auto intro!: inv_upd_worker)
qed

lemma run_end_inv:
  assumes inv: "sched_inv {} (s, p)" and cur: "cur i s = Some t"
    and wait: "why = Waiting \<longrightarrow> (\<exists>w. p t = Committed w)"
  shows "sched_inv {} (run_end i t why s, p(t := Working))"
proof (cases why)
  case Yielded
  then show ?thesis using requeue_inv [OF inv cur] by (simp add: run_end_def Let_def)
next
  case Returned
  then show ?thesis using finish_task_inv [OF inv cur] by (simp add: run_end_def Let_def)
next
  case Waiting
  with wait obtain w where w: "p t = Committed w" by auto
  have "wt s t \<noteq> 0" if "t_state (tasks s t) = RUNNING"
    using sched_invD(7) [OF inv, of t] w that by (auto simp: wait_ok_def st_def)
  then show ?thesis
    using Waiting requeue_inv [OF inv cur] leave_inv [OF inv cur, of "\<lambda>tk. tk\<lparr>t_state := 0\<rparr>" 0]
    by (simp add: run_end_def Let_def)
qed

lemma take_injected_inv:
  assumes inv: "sched_inv X (s, p)" and w: "worker i s = Some sh"
  shows "sched_inv X (snd (take_injected i s), p)"
proof (cases "inject s")
  case Nil
  then have "inject_len s = 0" using sched_invD(1) [OF inv] by (simp add: lens_ok_def)
  then show ?thesis using inv by (simp add: take_injected_def)
next
  case (Cons t q)
  then have ne: "inject_len s \<noteq> 0" using sched_invD(1) [OF inv] by (simp add: lens_ok_def)
  let ?s = "s\<lparr>inject := q, inject_len := length q\<rparr>"
  have w': "worker i ?s = Some sh" using w by simp
  have eq: "snd (take_injected i s) = snd (shared_push i t ?s)"
    using Cons ne by (simp add: take_injected_def)
  note e = shared_push_effect [OF w', where t = t]
  have aq: "add_mset t (all_queued ?s) = all_queued s" using Cons by (simp add: all_queued_def)
  show ?thesis unfolding eq
  proof (rule sched_inv_cong [OF inv])
    show "lens_ok (snd (shared_push i t ?s))"
      by (rule e(6)) (rule lens_ok_inject [OF sched_invD(1) [OF inv] refl])
  qed (use e aq st_wt_cong [OF e(1)] in simp_all)
qed

lemma steal_from_views:
  assumes "lens_ok s" "worker i s = Some me"
  shows "tasks (snd (steal_from i v s)) = tasks s"
    "all_queued (snd (steal_from i v s)) = all_queued s"
    "cur j (snd (steal_from i v s)) = cur j s" "next_wait (snd (steal_from i v s)) = next_wait s"
    "next_task (snd (steal_from i v s)) = next_task s" "lens_ok (snd (steal_from i v s))"
    "worker i (snd (steal_from i v s)) \<noteq> None" "length (workers (snd (steal_from i v s))) = length (workers s)"
proof -
  let ?r = "snd (steal_from i v s)"
  show "tasks ?r = tasks s" "next_wait ?r = next_wait s" "next_task ?r = next_task s"
    "worker i ?r \<noteq> None" "length (workers ?r) = length (workers s)"
    using assms(2) by (auto simp: steal_from_def Let_def worker_upd_worker split: option.splits)
  show "cur j ?r = cur j s"
    by (auto simp: steal_from_def Let_def cur_upd_worker_same split: option.splits)
  show "lens_ok ?r"
    using assms(1) by (auto simp: steal_from_def Let_def split: option.splits intro!: lens_ok_upd_worker)
  show "all_queued ?r = all_queued s"
  proof (cases "worker v s")
    case (Some victim)
    then have ix: "sh_index victim = v" using assms(1) by (simp add: lens_ok_def)
    let ?k = "steal_count (length (sh_queue victim))"
    let ?f = "\<lambda>sh. sh\<lparr>sh_queue := drop ?k (sh_queue victim), sh_queue_len := length (drop ?k (sh_queue victim))\<rparr>"
    let ?s1 = "upd_worker v ?f s"
    let ?g = "\<lambda>sh. sh\<lparr>sh_queue := sh_queue sh @ take ?k (sh_queue victim),
                       sh_queue_len := length (sh_queue sh @ take ?k (sh_queue victim))\<rparr>"
    have 1: "all_queued ?s1 + mset (sh_queue victim) = all_queued s + mset (drop ?k (sh_queue victim))"
      using all_queued_upd_worker [OF Some, of ?f] by simp
    have split: "mset (sh_queue victim) = mset (take ?k (sh_queue victim)) + mset (drop ?k (sh_queue victim))"
      by (metis append_take_drop_id mset_append)
    then have 2: "all_queued ?s1 + mset (take ?k (sh_queue victim)) = all_queued s"
      using 1 by (simp flip: add.assoc)
    have 3: "all_queued (upd_worker i ?g ?s1) = all_queued s" if "v \<noteq> i"
    proof -
      have "worker i ?s1 = Some me" using assms(2) that by (simp add: worker_upd_worker)
      from all_queued_upd_worker [OF this, of ?g]
      have "all_queued (upd_worker i ?g ?s1) + mset (sh_queue me) =
        (all_queued ?s1 + mset (take ?k (sh_queue victim))) + mset (sh_queue me)"
        by (simp add: ac_simps)
      then show ?thesis using 2 by simp
    qed
    show ?thesis
    proof (cases "sh_index victim = i \<or> sh_queue_len victim = 0")
      case False
      then show ?thesis using Some ix 2 3 by (auto simp: steal_from_def Let_def)
    qed (simp add: steal_from_def Some)
  qed (simp add: steal_from_def)
qed

lemma steal_loop_views:
  assumes "lens_ok s" "worker i s \<noteq> None"
  shows "tasks (snd (steal_loop i vs s)) = tasks s \<and>
    all_queued (snd (steal_loop i vs s)) = all_queued s \<and>
    (\<forall>j. cur j (snd (steal_loop i vs s)) = cur j s) \<and>
    next_wait (snd (steal_loop i vs s)) = next_wait s \<and>
    next_task (snd (steal_loop i vs s)) = next_task s \<and> lens_ok (snd (steal_loop i vs s))"
  using assms
proof (induction i vs s rule: steal_loop.induct)
  case (2 i v vs s)
  then obtain me where me: "worker i s = Some me" by auto
  obtain b s1 where eq: "steal_from i v s = (b, s1)" by (cases "steal_from i v s")
  note v = steal_from_views [OF 2(2) me, of v, unfolded eq snd_conv]
  show ?case
  proof (cases b)
    case True
    then show ?thesis using v steal_from_views(3) [OF 2(2) me, of _ v] by (simp add: eq)
  next
    case False
    then have "steal_loop i (v # vs) s = steal_loop i vs s1" by (simp add: eq)
    then show ?thesis
      using 2(1) [OF eq [symmetric] _ v(6,7)] False v steal_from_views(3) [OF 2(2) me, of _ v]
      by (simp add: eq)
  qed
qed simp

lemma answer_notification_inv:
  assumes inv: "sched_inv X (s, p)"
  shows "sched_inv X (snd (answer_notification i s), p)"
proof (cases "worker i s")
  case (Some sh)
  let ?s = "upd_worker i (\<lambda>sh. sh\<lparr>sh_notified := False\<rparr>) s"
  have inv': "sched_inv X (?s, p)" by (rule inv_upd_worker [OF inv]) simp_all
  have "worker i ?s \<noteq> None" using Some by simp
  from steal_loop_views [OF sched_invD(1) [OF inv'] this]
  have "sched_inv X (snd (steal i ?s), p)"
    unfolding steal_def by (intro sched_inv_cong [OF inv']) (auto dest: st_wt_cong)
  then show ?thesis
    using Some inv by (simp add: answer_notification_def case_prod_beta Let_def inv_frame)
qed (use inv in \<open>simp add: answer_notification_def\<close>)

lemma fire_timers_inv:
  assumes "sched_inv {} (s, p)"
  shows "sched_inv {} (fire_timers i s, p)"
proof (cases "worker i s")
  case (Some sh)
  have "sched_inv {} (upd_worker i f s, p)" if "f = (\<lambda>sh. sh\<lparr>sh_timers := g sh\<rparr>)" for f g
    unfolding that by (rule inv_upd_worker [OF assms]) simp_all
  with Some show ?thesis
    by (auto simp: fire_timers_def valid_me_def intro!: inv_wake_timed_out)
qed (use assms in \<open>simp add: fire_timers_def\<close>)

lemma register_timer_inv:
  assumes "sched_inv X (s, p)"
  shows "sched_inv X (register_timer i t w d s, p)"
proof (cases d)
  case (At at)
  have "sched_inv X (upd_worker i (\<lambda>sh. sh\<lparr>sh_timers := btree_insert (at, w) (t, w) (sh_timers sh)\<rparr>) s, p)"
    by (rule inv_upd_worker [OF assms]) simp_all
  then show ?thesis unfolding register_timer_def At deadline.case
    by (rule inv_upd_task) (simp_all add: st_def wt_def)
qed (use assms in \<open>simp add: register_timer_def\<close>)

lemma wait_resumed_inv:
  assumes "sched_inv X (s, p)"
  shows "sched_inv X (snd (wait_resumed t s), p)"
proof -
  have "sched_inv X (upd_task t (\<lambda>tk. tk\<lparr>t_timer := None\<rparr>) s, p)"
    by (rule inv_upd_task [OF assms]) (simp_all add: st_def wt_def)
  then show ?thesis
    using assms by (auto simp: wait_resumed_def Let_def intro!: inv_upd_worker split: option.splits)
qed

lemma spawn_inv:
  assumes inv: "sched_inv {} (s, p)" and me: "valid_me me s"
  shows "sched_inv {} (snd (spawn can_map me s), p)"
proof -
  obtain ok s1 where ts: "take_stack can_map s = (ok, s1)" by (cases "take_stack can_map s")
  have inv1: "sched_inv {} (s1, p)" and me1: "valid_me me s1"
    using ts inv me by (auto simp: take_stack_def inv_frame valid_me_def split: if_splits)
  let ?t = "next_task s1"
  let ?s = "s1\<lparr>next_task := ?t + 1, tasks := (tasks s1)(?t := new_task ?t False 1)\<rparr>"
  have me2: "valid_me me ?s" using me1 by (simp add: valid_me_def)
  note e = push_effect [OF me2, where t = ?t]
  have stw: "st ?s = (st s1)(?t := NOTIFIED)" "wt ?s = (wt s1)(?t := 0)"
    by (simp_all add: st_def wt_def new_task_def fun_eq_iff)
  have d: "st s1 ?t = DONE" by (rule sched_invD(6) [OF inv1]) simp
  have nr: "cur j s1 \<noteq> Some ?t" for j using sched_invD(4) [OF inv1, of ?t] d by auto
  have vs: "st (push me ?t ?s) = st ?s" "wt (push me ?t ?s) = wt ?s" using st_wt_cong [OF e(1)] by auto
  have "count (add_mset ?t (all_queued s1)) u = of_bool (due (((st s1)(?t := NOTIFIED)) u))" for u
    using sched_invD(3) [OF inv1, of u] d by auto
  moreover have "lens_ok (push me ?t ?s)" using e(6) sched_invD(1) [OF inv1] by simp
  ultimately have "queues_ok (push me ?t ?s)"
    using sched_invD(2) [OF inv1] unfolding queues_ok_def vs stw e(2) all_queued_frame by simp
  moreover have "running (((st s1)(?t := NOTIFIED)) u) \<longleftrightarrow> (\<exists>j. cur j s1 = Some u)" for u
    using sched_invD(4) [OF inv1, of u] nr by auto
  then have "current_ok (push me ?t ?s)"
    using sched_invD(5) [OF inv1] unfolding current_ok_def vs stw e(3) cur_frame by blast
  moreover have "wait_ok False (next_wait s1) (((st s1)(?t := NOTIFIED)) u) (((wt s1)(?t := 0)) u) (p u)" for u
    using sched_invD(7) [OF inv1, of u] d by (auto simp: wait_ok_def split: phase.splits)
  moreover have "((st s1)(?t := NOTIFIED)) u = DONE" if "?t + 1 \<le> u" for u
    using sched_invD(6) [OF inv1, of u] that by simp
  ultimately have "sched_inv {} (push me ?t ?s, p)"
    unfolding sched_inv_def waits_ok_def fst_conv prod.case vs stw e(4,5) by simp
  then show ?thesis using inv inv1 by (simp add: spawn_def ts Let_def)
qed

section \<open>Steps\<close>

text \<open>
  What can happen next: a worker with no task takes one from its queue; the running task starts a
  wait, finds it over before suspending, suspends, gives it up, fails to register and carries on with
  the wait still begun (the error of \<^verbatim>\<open>watch_io\<close>), clears its timer on resuming, yields or returns; any thread wakes, cancels or spawns; a worker takes from the shared queue,
  answers a notification, fires timers, announces sleep or waking; time passes.
\<close>

inductive sched_step :: "config \<Rightarrow> config \<Rightarrow> bool" where
  run: "cur i s = None \<Longrightarrow> shared_pop i s = (Some t, s') \<Longrightarrow>
    sched_step (s, p) (run_begin i t s', p(t := Working))"
| start_wait: "cur i s = Some t \<Longrightarrow> begin_wait (Some i) t c s = (w, s') \<Longrightarrow>
    sched_step (s, p) (s', p(t := Committed w))"
| park_early: "cur i s = Some t \<Longrightarrow> p t = Committed w \<Longrightarrow> park_begin i t d s = Inl k \<Longrightarrow>
    sched_step (s, p) (s, p(t := Working))"
| suspend: "cur i s = Some t \<Longrightarrow> p t = Committed w \<Longrightarrow>
    sched_step (s, p) (run_end i t Waiting (register_timer i t w d s), p(t := Working))"
| abandon: "cur i s = Some t \<Longrightarrow> p t = Committed w \<Longrightarrow>
    sched_step (s, p) (give_up_wait t w s, p(t := Working))"
| wait_fails: "cur i s = Some t \<Longrightarrow> p t = Committed w \<Longrightarrow> sched_step (s, p) (s, p(t := Working))"
| resumed: "cur i s = Some t \<Longrightarrow> sched_step (s, p) (snd (wait_resumed t s), p)"
| yields: "cur i s = Some t \<Longrightarrow> p t = Working \<Longrightarrow> sched_step (s, p) (run_end i t Yielded s, p)"
| returns: "cur i s = Some t \<Longrightarrow> p t = Working \<Longrightarrow> sched_step (s, p) (run_end i t Returned s, p)"
| waken: "valid_me me s \<Longrightarrow> sched_step (s, p) (snd (wake me t w k s), p)"
| cancels: "valid_me me s \<Longrightarrow> sched_step (s, p) (cancel me t s, p)"
| spawns: "valid_me me s \<Longrightarrow> sched_step (s, p) (snd (spawn can_map me s), p)"
| injected: "worker i s = Some sh \<Longrightarrow> sched_step (s, p) (snd (take_injected i s), p)"
| answers: "sched_step (s, p) (snd (answer_notification i s), p)"
| timers: "sched_step (s, p) (fire_timers i s, p)"
| sleeps: "sched_step (s, p) (s\<lparr>sleeping := sleeping s OR push_bit i 1\<rparr>, p)"
| awakes: "sched_step (s, p) (s\<lparr>sleeping := sleeping s AND NOT (push_bit i 1)\<rparr>, p)"
| tick: "clock s \<le> n \<Longrightarrow> sched_step (s, p) (s\<lparr>clock := n\<rparr>, p)"

lemma inv_set_working:
  assumes "sched_inv {} (s, p)"
  shows "sched_inv {} (s, p(t := Working))"
  using assms by (auto simp: sched_inv_def waits_ok_def wait_ok_def)

lemma give_up_inv:
  assumes inv: "sched_inv {} (s, p)" and "running (st s t)"
  shows "sched_inv {} (give_up_wait t w s, p(t := Working))"
proof (cases "wt s t = w")
  case True
  have "wait_ok False (next_wait s) (st s u) (((wt s)(t := 0)) u) ((p(t := Working)) u)" for u
    using sched_invD(7) [OF inv, of u] assms(2) by (auto simp: wait_ok_def)
  with True show ?thesis
    using inv by (simp add: give_up_wait_def sched_inv_def queues_ok_def current_ok_def waits_ok_def
        wt_upd_task wt_def [of s t] del: fun_upd_apply)
next
  case False
  then show ?thesis using inv_set_working [OF inv] by (simp add: give_up_wait_def wt_def)
qed

lemma sched_step_inv:
  assumes "sched_step c c'" "sched_inv {} c"
  shows "sched_inv {} c'"
  using assms
proof (induction rule: sched_step.induct)
  case (start_wait i s t c w s' p)
  then have "running (st s t)" using sched_invD(4) by blast
  moreover have "valid_me (Some i) s" using cur_Some_worker [OF start_wait(1)] by (auto simp: valid_me_def)
  ultimately show ?case using begin_wait_inv [OF start_wait(3)] start_wait(2) by (metis fst_conv snd_conv)
next
  case (suspend i s t p w d)
  have "cur i (register_timer i t w d s) = Some t"
    using suspend(1) by (auto simp: register_timer_def cur_upd_worker_same split: deadline.splits)
  then show ?case using run_end_inv [OF register_timer_inv [OF suspend(3)]] suspend(2) by blast
next
  case (abandon i s t p w)
  have "running (st s t)" using sched_invD(4) [OF abandon(3)] abandon(1) by blast
  then show ?case using give_up_inv [OF abandon(3)] by blast
next
  case (yields i s t p)
  then show ?case using run_end_inv [OF yields(3,1), of Yielded] by (simp add: fun_upd_idem)
next
  case (returns i s t p)
  then show ?case using run_end_inv [OF returns(3,1), of Returned] by (simp add: fun_upd_idem)
qed (auto simp: run_begin_inv wait_resumed_inv inv_wake cancel_inv spawn_inv take_injected_inv
    answer_notification_inv fire_timers_inv inv_frame intro: inv_set_working)

lemma init_views:
  assumes "0 < n"
  shows "st (run_main_start n share os now) = (\<lambda>_. DONE)(1 := NOTIFIED)"
    "wt (run_main_start n share os now) = (\<lambda>_. 0)"
    "all_queued (run_main_start n share os now) = {#1#}"
    "cur i (run_main_start n share os now) = None" "lens_ok (run_main_start n share os now)"
    "next_wait (run_main_start n share os now) = 1" "next_task (run_main_start n share os now) = 2"
proof -
  obtain m where n: "n = Suc m" using assms by (cases n) auto
  have m0: "sum_list (replicate k {#}) = ({#} :: nat multiset)" for k
    by (induction k) simp_all
  show "st (run_main_start n share os now) = (\<lambda>_. DONE)(1 := NOTIFIED)"
    "wt (run_main_start n share os now) = (\<lambda>_. 0)"
    "all_queued (run_main_start n share os now) = {#1#}"
    "cur i (run_main_start n share os now) = None" "lens_ok (run_main_start n share os now)"
    "next_wait (run_main_start n share os now) = 1" "next_task (run_main_start n share os now) = 2"
    unfolding n run_main_start_def
    by (auto simp: shared_push_def worker_def Let_def upd_worker_def new_shared_def st_def wt_def
        new_task_def no_task_def fun_eq_iff all_queued_def queue_of_def cur_def lens_ok_def m0
        nth_Cons split: nat.splits if_splits)
qed

lemma init_inv:
  assumes "0 < n"
  shows "sched_inv {} (run_main_start n share os now, \<lambda>_. Working)"
  by (auto simp: inv_defs init_views [OF assms] wait_ok_def)

lemma sched_reachable_inv:
  assumes "0 < n" "sched_step\<^sup>*\<^sup>* (run_main_start n share os now, \<lambda>_. Working) c"
  shows "sched_inv {} c"
  using assms(2) by induction (auto intro: init_inv [OF assms(1)] sched_step_inv)

end
