(* ===== verification/Sched_Safety.thy ===== *)
theory Sched_Safety
  imports Sched_Inv
begin

text \<open>
  The scheduler's properties: those of every reachable state, and the behaviour of waking, wait
  lists, stealing and timers.
\<close>

section \<open>Properties\<close>

abbreviation started :: "nat \<Rightarrow> nat \<Rightarrow> (nat \<Rightarrow> start_outcome) \<Rightarrow> instant \<Rightarrow> config" where
  "started n share os now \<equiv> (run_main_start n share os now, \<lambda>_. Working)"

text \<open>
  C1. Run-queue integrity.  Whatever workers, tasks and other threads have done since the program
  started, a task is on the run queues exactly once if it is marked for running and not running
  now, and on none of them otherwise: no wake-up, steal, yield or spawn ever loses a ready task or
  queues one twice.  The lock-free queue lengths agree with the queues.
\<close>

theorem run_queues_exact:
  assumes "0 < n" "sched_step\<^sup>*\<^sup>* (started n share os now) (s, p)"
  shows "count (all_queued s) t =
      (if t_state (tasks s t) AND NOTIFIED \<noteq> 0 \<and> t_state (tasks s t) AND RUNNING = 0 then 1 else 0) \<and>
    inject_len s = length (inject s) \<and>
    (\<forall>i sh. worker i s = Some sh \<longrightarrow> sh_queue_len sh = length (sh_queue sh))"
  using sched_invD(1,3) [OF sched_reachable_inv [OF assms]] by (auto simp: due_def st_def lens_ok_def)

text \<open>
  C2. A task runs on at most one worker at a time, and while it runs it is on no run queue, so no
  other worker can start it.
\<close>

theorem runs_on_one_worker:
  assumes "0 < n" "sched_step\<^sup>*\<^sup>* (started n share os now) (s, p)"
    and "worker i s = Some a" "sh_current a = Some t"
  shows "(worker j s = Some b \<longrightarrow> sh_current b = Some t \<longrightarrow> i = j) \<and> t \<notin># all_queued s"
proof -
  note inv = sched_reachable_inv [OF assms(1,2)]
  have cur: "cur i s = Some t" using assms(3,4) by (simp add: cur_def)
  then have "running (st s t)" using sched_invD(4) [OF inv] by blast
  then have "count (all_queued s) t = 0" using sched_invD(3) [OF inv, of t] by (simp add: running_def due_def)
  moreover have "i = j" if "worker j s = Some b" "sh_current b = Some t"
    using sched_invD(5) [OF inv cur] that by (simp add: cur_def)
  ultimately show ?thesis by (auto simp: not_in_iff)
qed

text \<open>
  C3. No lost wake-up.  A task that has suspended (no state flag is set) has a wait that nobody has
  claimed yet, so the next wake-up that names it succeeds and puts the task on a run queue; a
  wake-up that names any other wait changes nothing.
\<close>

theorem suspended_can_be_woken:
  assumes "0 < n" "sched_step\<^sup>*\<^sup>* (started n share os now) (s, p)"
    and "t_state (tasks s t) = 0" "valid_me me s"
  defines "w \<equiv> t_wait (tasks s t)"
  shows "w \<noteq> 0 \<and> fst (wake me t w k s) \<and> count (all_queued (snd (wake me t w k s))) t = 1 \<and>
    (\<forall>w'. w' \<noteq> w \<longrightarrow> wake me t w' k s = (False, s))"
proof -
  note inv = sched_reachable_inv [OF assms(1,2)]
  have "w \<noteq> 0" using sched_invD(7) [OF inv, of t] assms(3) by (simp add: wait_ok_def st_def wt_def w_def)
  moreover have "count (all_queued (snd (wake me t w k s))) t = of_bool (due (st (snd (wake me t w k s)) t))"
    by (rule sched_invD(3) [OF inv_wake [OF inv assms(4)]])
  moreover have "st (snd (wake me t w k s)) t = NOTIFIED"
  proof -
    let ?s = "upd_task t (\<lambda>tk. tk\<lparr>t_wait := 0, t_woke := woke_u8 k\<rparr>) s"
    have "st ?s t = 0" using assms(3) by (simp add: st_def)
    then show ?thesis using schedule_effect(6) [of ?s t me] assms(4) by (simp add: wake_def w_def)
  qed
  ultimately show ?thesis by (simp add: wake_def w_def)
qed

text \<open>A run of three steps: the main task starts, begins a wait, and suspends with a timer.\<close>

definition demo_run :: sched where
  "demo_run = run_begin 0 1 (snd (shared_pop 0 (run_main_start 1 0 (\<lambda>_. Started) 0)))"

definition demo_suspended :: sched where
  "demo_suspended = run_end 0 1 Waiting (register_timer 0 1 1 (At 5) (snd (begin_wait (Some 0) 1 True demo_run)))"

lemmas demo_defs = run_main_start_def shared_push_def shared_pop_def worker_def upd_worker_def
  upd_task_def run_begin_def begin_wait_def run_end_def register_timer_def new_shared_def new_task_def
  no_task_def Let_def demo_run_def demo_suspended_def

lemma demo_run_reachable: "sched_step\<^sup>*\<^sup>* (started 1 0 (\<lambda>_. Started) 0) (demo_run, \<lambda>_. Working)"
proof -
  let ?s = "run_main_start 1 0 (\<lambda>_. Started) 0"
  have "shared_pop 0 ?s = (Some 1, snd (shared_pop 0 ?s))" "cur 0 ?s = None"
    by (simp_all add: demo_defs cur_def)
  from sched_step.run [OF this(2,1), of "\<lambda>_. Working"]
  show ?thesis by (simp add: demo_run_def fun_upd_idem)
qed

lemma demo_suspended_reachable:
  "sched_step\<^sup>*\<^sup>* (started 1 0 (\<lambda>_. Started) 0) (demo_suspended, (\<lambda>_. Working))"
proof -
  let ?p = "(\<lambda>_. Working)(1 := Committed 1)"
  have c: "cur 0 demo_run = Some 1" by (simp add: demo_defs cur_def)
  have b: "begin_wait (Some 0) 1 True demo_run = (1, snd (begin_wait (Some 0) 1 True demo_run))"
    by (simp add: demo_defs)
  have c': "cur 0 (snd (begin_wait (Some 0) 1 True demo_run)) = Some 1" by (simp add: demo_defs cur_def)
  have 1: "sched_step (demo_run, \<lambda>_. Working) (snd (begin_wait (Some 0) 1 True demo_run), ?p)"
    by (rule sched_step.start_wait [OF c b])
  have "?p 1 = Committed 1" by simp
  from sched_step.suspend [where p = ?p, OF c' this, of "At 5"]
  have 2: "sched_step (snd (begin_wait (Some 0) 1 True demo_run), ?p) (demo_suspended, ?p(1 := Working))"
    unfolding demo_suspended_def .
  have e: "?p(1 := Working) = (\<lambda>_. Working)" by auto
  from rtranclp.rtrancl_into_rtrancl [OF rtranclp.rtrancl_into_rtrancl [OF demo_run_reachable 1] 2]
  show ?thesis unfolding e .
qed

theorem run_queues_exact_witness:
  "count (all_queued (run_main_start 1 0 (\<lambda>_. Started) 0)) 1 = 1 \<and>
   inject_len (run_main_start 1 0 (\<lambda>_. Started) 0) = 0"
  using run_queues_exact [OF _ rtranclp.rtrancl_refl, of 1 0 "\<lambda>_. Started" 0 1]
  by (simp add: demo_defs)

theorem runs_on_one_worker_witness: "1 \<notin># all_queued demo_run"
proof -
  obtain a where "worker 0 demo_run = Some a" "sh_current a = Some 1" by (simp add: demo_defs)
  from runs_on_one_worker [OF _ demo_run_reachable this] show ?thesis by simp
qed

theorem suspended_can_be_woken_witness:
  "fst (wake None 1 1 WReady demo_suspended) \<and>
   count (all_queued (snd (wake None 1 1 WReady demo_suspended))) 1 = 1"
proof -
  have "t_state (tasks demo_suspended 1) = 0" "t_wait (tasks demo_suspended 1) = 1"
    by (simp_all add: demo_defs)
  with suspended_can_be_woken [OF _ demo_suspended_reachable this(1), of None WReady] show ?thesis
    by (simp add: valid_me_def)
qed

section \<open>Waking\<close>

lemma tasks_start_worker [simp]: "tasks (start_worker i s) = tasks s"
  by (rule start_worker_effect)

lemma tasks_notify_idle [simp]: "tasks (notify_idle s) = tasks s"
  by (rule notify_idle_effect)

lemma tasks_shared_push [simp]: "tasks (snd (shared_push i t s)) = tasks s"
  by (simp add: shared_push_def Let_def split: option.splits)

lemma tasks_push [simp]: "tasks (push me t s) = tasks s"
  by (simp add: push_def Let_def case_prod_beta split: option.splits)

text \<open>Everything of a task but its state flags survives scheduling.\<close>

lemma schedule_task_frame [simp]:
  "t_wait (tasks (schedule me t s) u) = t_wait (tasks s u)"
  "t_woke (tasks (schedule me t s) u) = t_woke (tasks s u)"
  "t_cancelled (tasks (schedule me t s) u) = t_cancelled (tasks s u)"
  "t_cancellable (tasks (schedule me t s) u) = t_cancellable (tasks s u)"
  "t_finished (tasks (schedule me t s) u) = t_finished (tasks s u)"
  "t_finish_waiters (tasks (schedule me t s) u) = t_finish_waiters (tasks s u)"
  "t_timer (tasks (schedule me t s) u) = t_timer (tasks s u)"
  by (simp_all add: schedule_def Let_def)

lemma wake_wait:
  "t_wait (tasks (snd (wake me t w k s)) u) =
     (if u = t \<and> t_wait (tasks s t) = w then 0 else t_wait (tasks s u))"
  by (simp add: wake_def)

lemma wake_woke:
  "t_woke (tasks (snd (wake me t w k s)) u) =
     (if u = t \<and> t_wait (tasks s t) = w then woke_u8 k else t_woke (tasks s u))"
  by (simp add: wake_def)

text \<open>
  A wait is ended at most once.  Whoever claims it first (a waker, its timer, a cancellation)
  decides how it ended; every later wake-up that names the same wait fails and changes nothing,
  from whatever thread and however it would have ended it.
\<close>

lemma wait_ends_once:
  assumes "fst (wake me t w k s)" "w \<noteq> 0"
  defines "s' \<equiv> snd (wake me t w k s)"
  shows "from_u8 (t_woke (tasks s' t)) = k \<and> wake me' t w k' s' = (False, s')"
  using assms(1,2) wake_wait [of me t w k s t] wake_woke [of me t w k s t]
  by (auto simp: s'_def wake_def [of me'] split: if_splits) (simp add: wake_def split: if_splits)

lemma wait_ends_once_example:
  "wake None 1 1 WTimedOut (snd (wake None 1 1 WCancelled demo_suspended)) =
     (False, snd (wake None 1 1 WCancelled demo_suspended))"
  using wait_ends_once [of None 1 1 WCancelled demo_suspended None WTimedOut]
  by (simp add: wake_def demo_defs)

section \<open>Wait lists\<close>

definition live :: "sched \<Rightarrow> task_waker \<Rightarrow> bool" where
  "live s wk = (case wk of TaskWaker t w \<Rightarrow> t_wait (tasks s t) = w | ThreadWaker _ \<Rightarrow> True)"

lemma wake_waker_live: "fst (wake_waker me wk s) = live s wk"
  by (cases wk) (simp_all add: live_def wake_def)

lemma wake_waker_dead: "\<not> live s wk \<Longrightarrow> wake_waker me wk s = (False, s)"
  by (cases wk) (simp_all add: live_def wake_def)

lemma wake_first_eq:
  "wake_first me l s =
     (case dropWhile (\<lambda>(_, wk). \<not> live s wk) l of
        [] \<Rightarrow> ([], s)
      | (_, wk) # rest \<Rightarrow> (rest, snd (wake_waker me wk s)))"
proof (induction l)
  case (Cons e l)
  obtain i wk where e: "e = (i, wk)" by (cases e)
  show ?case
  proof (cases "live s wk")
    case True
    then obtain s1 where "wake_waker me wk s = (True, s1)"
      using wake_waker_live [of me wk s] by (cases "wake_waker me wk s") simp
    then show ?thesis using e True by simp
  qed (use Cons e wake_waker_dead in simp)
qed simp

lemma wake_one_eq:
  "wake_one me ws s =
     (case dropWhile (\<lambda>(_, wk). \<not> live s wk) (wl_list ws) of
        [] \<Rightarrow> (ws\<lparr>wl_list := []\<rparr>, s)
      | (_, wk) # rest \<Rightarrow> (ws\<lparr>wl_list := rest\<rparr>, snd (wake_waker me wk s)))"
  by (cases "dropWhile (\<lambda>(_, wk). \<not> live s wk) (wl_list ws)")
    (simp_all add: wake_one_def wake_first_eq Let_def case_prod_beta del: dropWhile_eq_Nil_conv)

text \<open>
  Waking one waiter of a list wakes the first entry whose wait is still the one its task is
  in: the entries before it, whose waits have ended, are dropped without spending the
  notification, the entries after it stay, and with no live entry nothing but the list changes.
\<close>

lemma wake_one_first_live:
  "wake_one me ws s =
     (case dropWhile (\<lambda>(_, wk). \<not> live s wk) (wl_list ws) of
        [] \<Rightarrow> (ws\<lparr>wl_list := []\<rparr>, s)
      | (_, wk) # rest \<Rightarrow> (ws\<lparr>wl_list := rest\<rparr>, snd (wake_waker me wk s)))"
  by (rule wake_one_eq)

definition waiters_ok :: "waiters \<Rightarrow> bool" where
  "waiters_ok ws = (sorted_wrt (<) (map fst (wl_list ws)) \<and> (\<forall>i \<in> fst ` set (wl_list ws). i \<le> wl_next ws))"

lemma waiters_ok_new [simp]: "waiters_ok waiters_new"
  by (simp add: waiters_ok_def waiters_new_def)

lemma waiters_ok_add_waker: "waiters_ok ws \<Longrightarrow> waiters_ok (snd (add_waker wk ws))"
  by (auto simp: waiters_ok_def add_waker_def Let_def sorted_wrt_append less_Suc_eq_le
      intro: le_SucI)

lemma waiters_ok_remove: "waiters_ok ws \<Longrightarrow> waiters_ok (remove_waiter i ws)"
  by (auto simp: waiters_ok_def remove_waiter_def sorted_wrt_map sorted_wrt_filter)

lemma waiters_ok_wake_one:
  assumes "waiters_ok ws"
  shows "waiters_ok (fst (wake_one me ws s))"
proof -
  have "\<exists>xs. wl_list ws = xs @ wl_list (fst (wake_one me ws s))"
  proof (cases "dropWhile (\<lambda>(_, wk). \<not> live s wk) (wl_list ws)")
    case Nil
    then show ?thesis by (simp add: wake_one_eq del: dropWhile_eq_Nil_conv)
  next
    case (Cons e rest)
    then have "wl_list ws = (takeWhile (\<lambda>(_, wk). \<not> live s wk) (wl_list ws) @ [e]) @ rest"
      by (metis append.assoc append_Cons append_Nil takeWhile_dropWhile_id)
    then have "\<exists>xs. wl_list ws = xs @ rest" by blast
    then show ?thesis by (simp add: wake_one_eq Cons case_prod_beta)
  qed
  moreover have "wl_next (fst (wake_one me ws s)) = wl_next ws"
    by (simp add: wake_one_def case_prod_beta Let_def)
  ultimately show ?thesis
    using assms by (auto simp: waiters_ok_def sorted_wrt_append)
qed

lemma takeWhile_sorted_filter:
  "sorted_wrt (<) (map fst l) \<Longrightarrow>
     takeWhile (\<lambda>(i, _). i < (n::nat)) l = filter (\<lambda>(i, _). i < n) l \<and>
     dropWhile (\<lambda>(i, _). i < n) l = filter (\<lambda>(i, _). n \<le> i) l"
proof (induction l)
  case (Cons e l)
  then have *: "\<And>x. x \<in> set l \<Longrightarrow> fst e < fst x" by auto
  show ?case
  proof (cases "fst e < n")
    case False
    then have "filter (\<lambda>a. fst a < n) l = []" "filter (\<lambda>a. n \<le> fst a) l = l"
      using * by (force simp: filter_empty_conv, force simp: filter_id_conv)
    then show ?thesis using False by (simp add: case_prod_beta)
  qed (use Cons in \<open>simp add: case_prod_beta\<close>)
qed simp

text \<open>
  The ids of a wait list only go up, so waking from an id splits the list exactly: the waiters
  that were there before the id was read keep waiting, in order, and every later one is woken.
\<close>

lemma wake_from_splits:
  assumes "waiters_ok ws"
  shows "wake_from me first ws s =
    (ws\<lparr>wl_list := filter (\<lambda>(i, _). i < first) (wl_list ws)\<rparr>,
     wake_each me (filter (\<lambda>(i, _). first \<le> i) (wl_list ws)) s)"
  using takeWhile_sorted_filter [of "wl_list ws" first] assms
  unfolding wake_from_def waiters_ok_def Let_def takeWhile_eq_take [symmetric] dropWhile_eq_drop [symmetric]
  by simp

lemma wake_from_splits_example:
  "wake_from None 2 \<lparr>wl_list = [(1, ThreadWaker 7), (2, ThreadWaker 8)], wl_next = 2\<rparr> demo_suspended =
     (\<lparr>wl_list = [(1, ThreadWaker 7)], wl_next = 2\<rparr>,
      demo_suspended\<lparr>unparked := unparked demo_suspended @ [8]\<rparr>)"
  using wake_from_splits [of "\<lparr>wl_list = [(1, ThreadWaker 7), (2, ThreadWaker 8)], wl_next = 2\<rparr>"
      None 2 demo_suspended]
  by (simp add: waiters_ok_def)

section \<open>Stealing\<close>

definition backlog :: "nat \<Rightarrow> sched \<Rightarrow> nat list" where
  "backlog v s = (case worker v s of None \<Rightarrow> [] | Some sh \<Rightarrow> sh_queue sh)"

lemma backlog_upd_worker:
  "backlog v (upd_worker i f s) =
     (if v = i then (case worker i s of None \<Rightarrow> [] | Some sh \<Rightarrow> sh_queue (f sh)) else backlog v s)"
  by (auto simp: backlog_def worker_upd_worker split: option.splits)

lemma steal_from_eq:
  assumes "lens_ok s" "worker i s = Some me"
  shows "v = i \<or> backlog v s = [] \<Longrightarrow> steal_from i v s = (False, s)"
    and "v \<noteq> i \<Longrightarrow> backlog v s \<noteq> [] \<Longrightarrow>
      fst (steal_from i v s) \<and>
      backlog v (snd (steal_from i v s)) = drop ((length (backlog v s) + 1) div 2) (backlog v s) \<and>
      backlog i (snd (steal_from i v s)) = backlog i s @ take ((length (backlog v s) + 1) div 2) (backlog v s) \<and>
      (\<forall>u. u \<noteq> i \<longrightarrow> u \<noteq> v \<longrightarrow> backlog u (snd (steal_from i v s)) = backlog u s)"
proof -
  have len: "sh_queue_len sh = length (sh_queue sh) \<and> sh_index sh = u" if "worker u s = Some sh" for u sh
    using assms(1) that by (simp add: lens_ok_def)
  show "v = i \<or> backlog v s = [] \<Longrightarrow> steal_from i v s = (False, s)"
    using len by (auto simp: steal_from_def backlog_def split: option.splits)
  assume v: "v \<noteq> i" and ne: "backlog v s \<noteq> []"
  then obtain sh where sh: "worker v s = Some sh" "sh_queue sh \<noteq> []"
    by (auto simp: backlog_def split: option.splits)
  then have k: "take (steal_count (length (sh_queue sh))) (sh_queue sh) \<noteq> []"
    by (cases "sh_queue sh") (auto simp: steal_count_def)
  show "fst (steal_from i v s) \<and>
      backlog v (snd (steal_from i v s)) = drop ((length (backlog v s) + 1) div 2) (backlog v s) \<and>
      backlog i (snd (steal_from i v s)) = backlog i s @ take ((length (backlog v s) + 1) div 2) (backlog v s) \<and>
      (\<forall>u. u \<noteq> i \<longrightarrow> u \<noteq> v \<longrightarrow> backlog u (snd (steal_from i v s)) = backlog u s)"
    using v sh k len [OF sh(1)] assms(2)
    by (simp add: steal_from_def Let_def backlog_upd_worker worker_upd_worker)
      (simp add: backlog_def steal_count_def)
qed

lemma steal_loop_eq:
  assumes "lens_ok s" "worker i s = Some me"
  shows "steal_loop i vs s =
    (case filter (\<lambda>v. v \<noteq> i \<and> backlog v s \<noteq> []) vs of [] \<Rightarrow> (False, s) | v # _ \<Rightarrow> steal_from i v s)"
proof (induction vs)
  case (Cons v vs)
  show ?case
  proof (cases "v \<noteq> i \<and> backlog v s \<noteq> []")
    case True
    then show ?thesis using steal_from_eq(2) [OF assms, of v] by (simp add: case_prod_beta prod_eq_iff)
  next
    case False
    then have "steal_from i v s = (False, s)" using steal_from_eq(1) [OF assms, of v] by blast
    then show ?thesis using False Cons by auto
  qed
qed simp

text \<open>
  What a thief takes.  Of the other workers, in index order from the thief's own and wrapping
  round, the first with anything queued loses the older half of its queue (rounded up) to the back
  of the thief's queue, in order; every other queue is left alone, and with nothing queued
  elsewhere nothing changes.
\<close>

lemma steal_takes_half:
  assumes "lens_ok s" "worker i s = Some me"
  defines "busy \<equiv> filter (\<lambda>v. v \<noteq> i \<and> backlog v s \<noteq> []) (steal_order i (length (workers s)))"
  shows "(busy = [] \<longrightarrow> steal i s = (False, s)) \<and>
    (\<forall>v vs. busy = v # vs \<longrightarrow>
       fst (steal i s) \<and>
       backlog v (snd (steal i s)) = drop ((length (backlog v s) + 1) div 2) (backlog v s) \<and>
       backlog i (snd (steal i s)) = backlog i s @ take ((length (backlog v s) + 1) div 2) (backlog v s) \<and>
       (\<forall>u. u \<noteq> i \<longrightarrow> u \<noteq> v \<longrightarrow> backlog u (snd (steal i s)) = backlog u s))"
proof -
  have eq: "steal i s = (case busy of [] \<Rightarrow> (False, s) | v # _ \<Rightarrow> steal_from i v s)"
    unfolding steal_def busy_def by (rule steal_loop_eq [OF assms(1,2)])
  have "v \<noteq> i \<and> backlog v s \<noteq> []" if "busy = v # vs" for v vs
  proof -
    have "v \<in> set busy" using that by simp
    then show ?thesis by (simp add: busy_def)
  qed
  then show ?thesis using steal_from_eq(2) [OF assms(1,2)] by (auto simp: eq)
qed

text \<open>Three workers: the first idle, the second with one task queued, the third with four.\<close>

definition demo_backlog :: sched where
  "demo_backlog = (run_main_start 3 0 (\<lambda>_. Started) 0)\<lparr>workers :=
     [Some (new_shared 0 0),
      Some ((new_shared 1 0)\<lparr>sh_queue := [5], sh_queue_len := 1\<rparr>),
      Some ((new_shared 2 0)\<lparr>sh_queue := [6, 7, 8, 9], sh_queue_len := 4\<rparr>)]\<rparr>"

lemma demo_backlog_worker:
  "worker 0 demo_backlog = Some (new_shared 0 0)"
  "worker (Suc 0) demo_backlog = Some ((new_shared 1 0)\<lparr>sh_queue := [5], sh_queue_len := 1\<rparr>)"
  "worker 2 demo_backlog = Some ((new_shared 2 0)\<lparr>sh_queue := [6, 7, 8, 9], sh_queue_len := 4\<rparr>)"
  "worker i demo_backlog = Some sh \<Longrightarrow> i = 0 \<or> i = 1 \<or> i = 2" "length (workers demo_backlog) = 3"
  by (auto simp: demo_backlog_def worker_def split: if_splits)

lemma demo_backlog_lens: "lens_ok demo_backlog"
  unfolding lens_ok_def
proof (intro conjI allI impI)
  fix i sh
  assume w: "worker i demo_backlog = Some sh"
  from demo_backlog_worker(4) [OF w] show "sh_queue_len sh = length (sh_queue sh)" "sh_index sh = i"
    using w by (auto simp: demo_backlog_worker new_shared_def)
qed (simp add: demo_backlog_def run_main_start_def shared_push_def upd_worker_def split: option.splits)

lemma steal_takes_half_example:
  "backlog 0 (snd (steal 2 demo_backlog)) = [] \<and> backlog 1 (snd (steal 2 demo_backlog)) = [] \<and>
   backlog 2 (snd (steal 2 demo_backlog)) = [6, 7, 8, 9, 5]"
  using steal_takes_half [OF demo_backlog_lens demo_backlog_worker(3)]
  by (simp add: demo_backlog_worker steal_order_def backlog_def upt_rec new_shared_def)

text \<open>
  The thief does not look for the longest queue: with one task queued on the next worker and
  four on the one after, it takes the single task.
\<close>

lemma steal_ignores_length:
  "length (backlog 1 demo_backlog) < length (backlog 2 demo_backlog) \<and>
   backlog 0 (snd (steal 0 demo_backlog)) = [5] \<and> backlog 2 (snd (steal 0 demo_backlog)) = [6, 7, 8, 9]"
proof -
  have o: "steal_order 0 3 = [1, 2, 0]" by (simp add: steal_order_def upt_rec)
  have b: "backlog 1 demo_backlog = [5]" "backlog 2 demo_backlog = [6, 7, 8, 9]" "backlog 0 demo_backlog = []"
    by (simp_all add: backlog_def demo_backlog_worker new_shared_def)
  have "steal 0 demo_backlog = steal_from 0 1 demo_backlog"
    using steal_loop_eq [OF demo_backlog_lens demo_backlog_worker(1), of "[1, 2, 0]"] b o
    by (simp add: steal_def demo_backlog_worker)
  then show ?thesis
    using steal_from_eq(2) [OF demo_backlog_lens demo_backlog_worker(1), of 1] b by simp
qed

section \<open>Timers\<close>

abbreviation keys :: "('k \<times> 'v) list \<Rightarrow> 'k list" where
  "keys \<equiv> map fst"

lemma btree_insert_set: "set (keys (btree_insert k v l)) = insert k (set (keys l))"
  by (induction k v l rule: btree_insert.induct) auto

lemma btree_insert_sorted:
  "sorted_wrt (<) (keys l) \<Longrightarrow> sorted_wrt (<) (keys (btree_insert k v l))"
proof (induction k v l rule: btree_insert.induct)
  case (2 k v k' v' l)
  then show ?case using btree_insert_set [of k v l] by (fastforce intro: less_trans)
qed simp

lemma btree_insert_map_of:
  "sorted_wrt (<) (keys l) \<Longrightarrow> map_of (btree_insert k v l) = (map_of l)(k \<mapsto> v)"
proof (induction k v l rule: btree_insert.induct)
  case (2 k v k' v' l)
  then show ?case by (auto simp: fun_eq_iff)
qed auto

lemma btree_remove_sorted: "sorted_wrt (<) (keys l) \<Longrightarrow> sorted_wrt (<) (keys (btree_remove k l))"
  by (induction l) (auto simp: btree_remove_def)

lemma btree_remove_map_of: "map_of (btree_remove k l) = (map_of l)(k := None)"
  by (induction l) (auto simp: btree_remove_def fun_eq_iff)

lemma sorted_due_split:
  fixes l :: "(timer_key \<times> 'v) list"
  assumes "sorted_wrt (<) (keys l)"
  shows "takeWhile (\<lambda>((at, _), _). at \<le> now) l = filter (\<lambda>((at, _), _). at \<le> now) l \<and>
    dropWhile (\<lambda>((at, _), _). at \<le> now) l = filter (\<lambda>((at, _), _). now < at) l"
  using assms
proof (induction l)
  case (Cons e l)
  obtain at w v where e: "e = ((at, w), v)" by (metis surj_pair)
  show ?case
  proof (cases "at \<le> now")
    case False
    have "at \<le> fst (fst x)" if "x \<in> set l" for x
      using Cons(2) that by (auto simp: e less_prod_def)
    with False have "\<And>x. x \<in> set l \<Longrightarrow> \<not> fst (fst x) \<le> now" by force
    then have "filter (\<lambda>((at, _), _). at \<le> now) l = []" "filter (\<lambda>((at, _), _). now < at) l = l"
      by (fastforce simp: filter_empty_conv, fastforce simp: filter_id_conv)
    then show ?thesis using False e by simp
  qed (use Cons e in simp)
qed simp

lemma wake_timed_out_wait:
  "t_wait (tasks (wake_timed_out me l s) u) =
     (if (u, t_wait (tasks s u)) \<in> set l then 0 else t_wait (tasks s u))"
  by (induction me l s rule: wake_timed_out.induct) (auto simp: wake_wait)

lemma wake_timed_out_woke:
  "t_woke (tasks (wake_timed_out me l s) u) =
     (if (u, t_wait (tasks s u)) \<in> set l then woke_u8 WTimedOut else t_woke (tasks s u))"
  by (induction me l s rule: wake_timed_out.induct) (auto simp: wake_wait wake_woke)

text \<open>The timers of a worker; waking does not touch them.\<close>

definition timers_of :: "nat \<Rightarrow> sched \<Rightarrow> (timer_key \<times> (nat \<times> nat)) list" where
  "timers_of i s = (case worker i s of None \<Rightarrow> [] | Some sh \<Rightarrow> sh_timers sh)"

lemma timers_of_frame [simp]:
  "timers_of i (upd_task t f s) = timers_of i s" "timers_of i (s\<lparr>sleeping := x\<rparr>) = timers_of i s"
  "timers_of i (s\<lparr>searching := n\<rparr>) = timers_of i s" "timers_of i (s\<lparr>inject := q\<rparr>) = timers_of i s"
  "timers_of i (s\<lparr>inject_len := n\<rparr>) = timers_of i s"
  by (simp_all add: timers_of_def)

lemma timers_of_upd_worker:
  "(\<And>sh. sh_timers (f sh) = sh_timers sh) \<Longrightarrow> timers_of j (upd_worker i f s) = timers_of j s"
  by (auto simp: timers_of_def worker_upd_worker split: option.splits)

lemma timers_of_push: "timers_of j (push me t s) = timers_of j s"
proof -
  have st: "timers_of j (start_worker i s) = timers_of j s" for i s
    by (auto simp: start_worker_def timers_of_def worker_def nth_list_update new_shared_def
        split: start_outcome.splits option.splits)
  have n: "timers_of j (notify_idle s) = timers_of j s" for s
    by (simp add: notify_idle_def Let_def st timers_of_upd_worker split: option.splits)
  have "timers_of j (snd (shared_push i t s)) = timers_of j s" for i
    by (simp add: shared_push_def Let_def timers_of_upd_worker split: option.splits)
  then show ?thesis by (simp add: push_def Let_def case_prod_beta n split: option.splits)
qed

lemma timers_of_wake: "timers_of j (snd (wake me t w k s)) = timers_of j s"
  by (simp add: wake_def schedule_def Let_def timers_of_push)

lemma timers_of_wake_timed_out: "timers_of j (wake_timed_out me l s) = timers_of j s"
  by (induction me l s rule: wake_timed_out.induct) (simp_all add: timers_of_wake)

text \<open>
  C20. Timers fire exactly when due.  Firing a worker's timers removes the entries whose time has
  come and no others; each task still in a wait that one of them was for has that wait ended as
  timed out, and every other task keeps its wait and how its last one ended.
\<close>

theorem fire_timers_exact:
  assumes "worker i s = Some sh" "sorted_wrt (<) (map fst (sh_timers sh))"
  defines "expired \<equiv> {(t, w). \<exists>at v. ((at, v), (t, w)) \<in> set (sh_timers sh) \<and> at \<le> clock s}"
  shows "timers_of i (fire_timers i s) = filter (\<lambda>((at, _), _). clock s < at) (sh_timers sh) \<and>
    (\<forall>t. let old = tasks s t; new = tasks (fire_timers i s) t
         in if (t, t_wait old) \<in> expired
            then t_wait new = 0 \<and> from_u8 (t_woke new) = WTimedOut
            else t_wait new = t_wait old \<and> t_woke new = t_woke old)"
proof -
  note sp = sorted_due_split [OF assms(2), of "clock s"]
  have "set (due_timers (clock s) (sh_timers sh)) = expired"
    unfolding due_timers_def conjunct1 [OF sp] by (force simp: expired_def)
  moreover have "from_u8 1 = WTimedOut" by (simp add: from_u8_def)
  ultimately show ?thesis
    using assms(1) sp
    by (simp add: fire_timers_def timers_of_wake_timed_out wake_timed_out_wait wake_timed_out_woke Let_def)
      (simp add: timers_of_def worker_upd_worker)
qed

theorem fire_timers_exact_witness:
  "timers_of 0 (fire_timers 0 (demo_suspended\<lparr>clock := 5\<rparr>)) = [] \<and>
   t_wait (tasks (fire_timers 0 (demo_suspended\<lparr>clock := 5\<rparr>)) 1) = 0 \<and>
   from_u8 (t_woke (tasks (fire_timers 0 (demo_suspended\<lparr>clock := 5\<rparr>)) 1)) = WTimedOut"
proof -
  let ?s = "demo_suspended\<lparr>clock := 5\<rparr>"
  obtain sh where "worker 0 ?s = Some sh" "sh_timers sh = [((5, 1), (1, 1))]"
    and "t_wait (tasks ?s 1) = 1" by (simp add: demo_defs)
  with fire_timers_exact [OF this(1)] show ?thesis by (auto simp: Let_def split: if_splits)
qed

end
