(* ===== verification/Guard.thy ===== *)
theory Guard
  imports Sched_Safety
begin

text \<open>
  The condition-variable pattern of \<^verbatim>\<open>src/sched.rs\<close> (the comment on \<^verbatim>\<open>Waiters\<close>), which locks, helper
  threads, resource slots and both directions of a channel follow: a task that finds no unit of
  something free adds itself to a wait list and parks; back from parking it removes itself and
  looks again in the same critical section; whoever frees a unit wakes one waiter.

  A configuration is the number of free units, the wait list, the scheduler and the tasks between
  adding themselves and looking again, each with its list id and wait id.  The theory shows once
  that no notification is lost; each user of the pattern is an interpretation of the locale at
  the end.
\<close>

type_synonym parked = "(nat \<times> nat \<times> nat) list"
type_synonym guard = "nat \<times> waiters \<times> sched \<times> parked"

definition woken_as :: "sched \<Rightarrow> nat \<Rightarrow> woke" where
  "woken_as s t = from_u8 (t_woke (tasks s t))"

definition unpark :: "nat \<Rightarrow> parked \<Rightarrow> parked" where
  "unpark t P = filter (\<lambda>(u, _). u \<noteq> t) P"

text \<open>
  What the rest of the program may do to a parked task: nothing, or end its wait (a timeout or a
  cancellation).
\<close>

definition undisturbed :: "parked \<Rightarrow> sched \<Rightarrow> sched \<Rightarrow> bool" where
  "undisturbed P s s' = (next_wait s \<le> next_wait s' \<and>
     (\<forall>(t, i, w) \<in> set P.
        t_wait (tasks s' t) = t_wait (tasks s t) \<and> t_woke (tasks s' t) = t_woke (tasks s t) \<or>
        t_wait (tasks s t) = w \<and> t_wait (tasks s' t) = 0))"

inductive guard_step :: "guard \<Rightarrow> guard \<Rightarrow> bool" where
  take: "guard_step (Suc n, ws, s, P) (n, ws, s, P)"
| enqueue: "t \<notin> fst ` set P \<Longrightarrow> add_waiter me (InTask t) c ws s = (i, ws', s') \<Longrightarrow>
    guard_step (0, ws, s, P) (0, ws', s', P @ [(t, i, next_wait s)])"
| back_take: "(t, i, w) \<in> set P \<Longrightarrow>
    guard_step (Suc n, ws, s, P) (n, remove_waiter i ws, s, unpark t P)"
| back_wait: "(t, i, w) \<in> set P \<Longrightarrow>
    add_waiter me (InTask t) c (remove_waiter i ws) s = (j, ws', s') \<Longrightarrow>
    guard_step (0, ws, s, P) (0, ws', s', unpark t P @ [(t, j, next_wait s)])"
| back_leave: "(t, i, w) \<in> set P \<Longrightarrow>
    woken_as s t = WCancelled \<or> n = 0 \<or> wl_list ws = [] \<Longrightarrow>
    guard_step (n, ws, s, P) (n, remove_waiter i ws, s, unpark t P)"
| release: "wake_one me ws s = (ws', s') \<Longrightarrow> guard_step (n, ws, s, P) (Suc n, ws', s', P)"
| flush: "wake_all me ws s = (ws', s') \<Longrightarrow> guard_step (n, ws, s, P) (m, ws', s', P)"
| elsewhere: "undisturbed P s s' \<Longrightarrow> guard_step (n, ws, s, P) (n, ws, s', P)"

lemma guard_take: "0 < n \<Longrightarrow> m = n - 1 \<Longrightarrow> guard_step (n, ws, s, P) (m, ws, s, P)"
  using guard_step.take [of m ws s P] by simp

lemma guard_back_take:
  "(t, i, w) \<in> set P \<Longrightarrow> 0 < n \<Longrightarrow> m = n - 1 \<Longrightarrow>
     guard_step (n, ws, s, P) (m, remove_waiter i ws, s, unpark t P)"
  using guard_step.back_take [of t i w P m ws s] by simp

section \<open>The invariant\<close>

text \<open>A parked task that will look again: its wait has ended, other than by cancellation.\<close>

definition returning :: "sched \<Rightarrow> nat \<times> nat \<times> nat \<Rightarrow> bool" where
  "returning s e = (case e of (t, i, w) \<Rightarrow> t_wait (tasks s t) \<noteq> w \<and> woken_as s t \<noteq> WCancelled)"

definition asleep :: "sched \<Rightarrow> nat \<times> nat \<times> nat \<Rightarrow> bool" where
  "asleep s e = (case e of (t, i, w) \<Rightarrow> t_wait (tasks s t) = w)"

definition no_lost :: "guard \<Rightarrow> bool" where
  "no_lost g = (case g of (n, ws, s, P) \<Rightarrow>
     (\<exists>(i, wk) \<in> set (wl_list ws). live s wk) \<longrightarrow> n \<le> length (filter (returning s) P))"

text \<open>A parked task is still in its wait, or the wait has been claimed.\<close>

definition parked_ok :: "nat \<Rightarrow> sched \<Rightarrow> nat \<Rightarrow> nat \<Rightarrow> nat \<Rightarrow> bool" where
  "parked_ok n s t i w = (0 < w \<and> i \<le> n \<and>
     (t_wait (tasks s t) = w \<and> woken_as s t = WReady \<or> t_wait (tasks s t) = 0))"

definition guard_inv :: "guard \<Rightarrow> bool" where
  "guard_inv g = (case g of (n, ws, s, P) \<Rightarrow>
     no_lost g \<and> waiters_ok ws \<and> 0 < next_wait s \<and> distinct (map fst P) \<and>
     (\<forall>(i, wk) \<in> set (wl_list ws). \<exists>t w. wk = TaskWaker t w \<and> (t, i, w) \<in> set P) \<and>
     (\<forall>(t, i, w) \<in> set P. parked_ok (wl_next ws) s t i w))"

lemma guard_invI:
  assumes "no_lost (n, ws, s, P)" "waiters_ok ws" "0 < next_wait s" "distinct (map fst P)"
    "\<And>i wk. (i, wk) \<in> set (wl_list ws) \<Longrightarrow> \<exists>t w. wk = TaskWaker t w \<and> (t, i, w) \<in> set P"
    "\<And>t i w. (t, i, w) \<in> set P \<Longrightarrow>
       parked_ok (wl_next ws) s t i w"
  shows "guard_inv (n, ws, s, P)"
  unfolding guard_inv_def prod.case using assms by fast

lemma guard_invD:
  assumes "guard_inv (n, ws, s, P)"
  shows "no_lost (n, ws, s, P)" "waiters_ok ws" "0 < next_wait s" "distinct (map fst P)"
    "(i, wk) \<in> set (wl_list ws) \<Longrightarrow> \<exists>t w. wk = TaskWaker t w \<and> (t, i, w) \<in> set P"
    "(t, i, w) \<in> set P \<Longrightarrow>
       parked_ok (wl_next ws) s t i w"
  using assms unfolding guard_inv_def prod.case by fast+

lemma set_unpark: "(u, e) \<in> set (unpark t P) \<longleftrightarrow> (u, e) \<in> set P \<and> u \<noteq> t"
  by (auto simp: unpark_def)

lemma distinct_unpark: "distinct (map fst P) \<Longrightarrow> distinct (map fst (unpark t P))"
  unfolding unpark_def by (induction P) auto

text \<open>Taking one task out of the parked ones loses at most that one from those returning.\<close>

lemma returning_unpark:
  assumes "distinct (map fst P)" "(t, i, w) \<in> set P"
  shows "length (filter (returning s) P) =
    length (filter (returning s) (unpark t P)) + of_bool (returning s (t, i, w))"
  using assms
proof (induction P)
  case (Cons e P)
  show ?case
  proof (cases "e = (t, i, w)")
    case True
    then have "unpark t P = P" using Cons(2) by (force simp: unpark_def filter_id_conv)
    then show ?thesis using True by (simp add: unpark_def)
  next
    case False
    then have "(t, i, w) \<in> set P" "fst e \<noteq> t" using Cons(2,3) by (auto simp: rev_image_eqI)
    then show ?thesis using Cons(1,2) by (cases e) (simp add: unpark_def)
  qed
qed simp

lemma remove_waiter_set: "(j, wk) \<in> set (wl_list (remove_waiter i ws)) \<longleftrightarrow> (j, wk) \<in> set (wl_list ws) \<and> j \<noteq> i"
  by (auto simp: remove_waiter_def)

lemma wl_next_remove [simp]: "wl_next (remove_waiter i ws) = wl_next ws"
  by (simp add: remove_waiter_def)

text \<open>Two parked tasks have different list ids while both are on the list.\<close>

lemma guard_inv_entry_id:
  assumes "guard_inv (n, ws, s, P)" "(i, TaskWaker t w) \<in> set (wl_list ws)" "(t, j, v) \<in> set P"
  shows "j = i \<and> v = w"
proof -
  have "(t, i, w) \<in> set P" using guard_invD(5) [OF assms(1,2)] by auto
  with assms(3) guard_invD(4) [OF assms(1)] show ?thesis by (metis eq_key_imp_eq_value prod.inject)
qed

section \<open>Effects on waits\<close>

lemma next_wait_push [simp]: "next_wait (push me t s) = next_wait s"
proof -
  have "next_wait (snd (shared_push i t s)) = next_wait s" for i
    by (simp add: shared_push_def Let_def split: option.splits)
  then show ?thesis by (simp add: push_def Let_def case_prod_beta notify_idle_effect split: option.splits)
qed

lemma next_wait_wake [simp]: "next_wait (snd (wake me t w k s)) = next_wait s"
  by (simp add: wake_def schedule_def Let_def)

lemma wake_waker_next_wait [simp]: "next_wait (snd (wake_waker me wk s)) = next_wait s"
  by (cases wk) simp_all

lemma wake_waker_wait:
  "t_wait (tasks (snd (wake_waker me wk s)) u) =
     (if wk = TaskWaker u (t_wait (tasks s u)) then 0 else t_wait (tasks s u))"
  "t_woke (tasks (snd (wake_waker me wk s)) u) =
     (if wk = TaskWaker u (t_wait (tasks s u)) then woke_u8 WReady else t_woke (tasks s u))"
  by (cases wk; auto simp: wake_wait wake_woke)+

lemma wake_each_wait:
  "t_wait (tasks (wake_each me l s) u) =
     (if TaskWaker u (t_wait (tasks s u)) \<in> snd ` set l then 0 else t_wait (tasks s u))"
  by (induction me l s rule: wake_each.induct) (auto simp: wake_waker_wait image_iff)

lemma wake_each_woke:
  "t_woke (tasks (wake_each me l s) u) =
     (if TaskWaker u (t_wait (tasks s u)) \<in> snd ` set l then woke_u8 WReady else t_woke (tasks s u))"
  by (induction me l s rule: wake_each.induct) (auto simp: wake_waker_wait image_iff)

lemma next_wait_wake_each [simp]: "next_wait (wake_each me l s) = next_wait s"
  by (induction me l s rule: wake_each.induct) simp_all

lemma begin_wait_wait:
  "t_wait (tasks (snd (begin_wait me t c s)) u) =
     (if u = t then if c \<and> t_cancelled (tasks s t) then 0 else next_wait s else t_wait (tasks s u))"
  "t_woke (tasks (snd (begin_wait me t c s)) u) =
     (if u = t then if c \<and> t_cancelled (tasks s t) then woke_u8 WCancelled else woke_u8 WReady
      else t_woke (tasks s u))"
  "fst (begin_wait me t c s) = next_wait s" "next_wait (snd (begin_wait me t c s)) = next_wait s + 1"
  by (auto simp: begin_wait_def Let_def wake_wait wake_woke)

lemma add_waiter_task:
  "add_waiter me (InTask t) c ws s =
     (wl_next ws + 1,
      \<lparr>wl_list = wl_list ws @ [(wl_next ws + 1, TaskWaker t (next_wait s))], wl_next = wl_next ws + 1\<rparr>,
      snd (begin_wait me t c s))"
  using begin_wait_wait(3) [of me t c s] by (simp add: add_waiter_def add_waker_def Let_def case_prod_beta)

section \<open>Steps keep the invariant\<close>

lemma guard_inv_back:
  assumes inv: "guard_inv (n, ws, s, P)" and e: "(t, i, w) \<in> set P"
    and m: "n = Suc m \<or> m = n \<and> (woken_as s t = WCancelled \<or> n = 0 \<or> wl_list ws = [])"
  shows "guard_inv (m, remove_waiter i ws, s, unpark t P)"
proof (rule guard_invI)
  show "no_lost (m, remove_waiter i ws, s, unpark t P)"
    unfolding no_lost_def prod.case
  proof
    assume "\<exists>(j, wk) \<in> set (wl_list (remove_waiter i ws)). live s wk"
    then have "\<exists>(j, wk) \<in> set (wl_list ws). live s wk" by (auto simp: remove_waiter_def)
    then have "n \<le> length (filter (returning s) P)" "wl_list ws \<noteq> []"
      using guard_invD(1) [OF inv] by (auto simp: no_lost_def)
    then show "m \<le> length (filter (returning s) (unpark t P))"
      using returning_unpark [OF guard_invD(4) [OF inv] e, of s] m
      by (auto simp: returning_def of_bool_def split: if_splits)
  qed
next
  fix j wk
  assume "(j, wk) \<in> set (wl_list (remove_waiter i ws))"
  then have j: "(j, wk) \<in> set (wl_list ws)" "j \<noteq> i" by (simp_all add: remove_waiter_set)
  obtain u v where u: "wk = TaskWaker u v" "(u, j, v) \<in> set P" using guard_invD(5) [OF inv j(1)] by auto
  with guard_inv_entry_id [OF inv, of j u v i w] j e have "u \<noteq> t" by blast
  then show "\<exists>t' w. wk = TaskWaker t' w \<and> (t', j, w) \<in> set (unpark t P)"
    using u by (auto simp: set_unpark)
qed (use guard_invD [OF inv] in \<open>auto simp: waiters_ok_remove distinct_unpark set_unpark\<close>)

lemma guard_inv_add:
  assumes inv: "guard_inv (n, ws, s, P)" and t: "t \<notin> fst ` set P"
    and add: "add_waiter me (InTask t) c ws s = (i, ws', s')"
  shows "guard_inv (0, ws', s', P @ [(t, i, next_wait s)])"
proof -
  have i: "i = wl_next ws + 1" and s': "s' = snd (begin_wait me t c s)"
    and ws': "wl_list ws' = wl_list ws @ [(i, TaskWaker t (next_wait s))]" "wl_next ws' = i"
    and ok: "ws' = snd (add_waker (TaskWaker t (next_wait s)) ws)"
    using add by (auto simp: add_waiter_task add_waker_def Let_def)
  show ?thesis
  proof (rule guard_invI)
    show "waiters_ok ws'" unfolding ok by (rule waiters_ok_add_waker [OF guard_invD(2) [OF inv]])
    show "distinct (map fst (P @ [(t, i, next_wait s)]))" using guard_invD(4) [OF inv] t by auto
    show "0 < next_wait s'" by (simp add: s' begin_wait_wait)
    fix u j v
    assume "(u, j, v) \<in> set (P @ [(t, i, next_wait s)])"
    moreover have "u \<noteq> t" if "(u, j, v) \<in> set P" using t that by force
    ultimately show "parked_ok (wl_next ws') s' u j v"
      using guard_invD(3) [OF inv] guard_invD(6) [OF inv, of u j v]
      by (auto simp: s' begin_wait_wait ws' i woken_as_def from_u8_def parked_ok_def)
  next
    fix j wk
    assume "(j, wk) \<in> set (wl_list ws')"
    then show "\<exists>u v. wk = TaskWaker u v \<and> (u, j, v) \<in> set (P @ [(t, i, next_wait s)])"
      using guard_invD(5) [OF inv, of j wk] by (auto simp: ws')
  qed (simp add: no_lost_def)
qed

text \<open>Ending waits elsewhere can only let more tasks return.\<close>

lemma returning_mono:
  assumes un: "undisturbed P s s'"
  shows "length (filter (returning s) P) \<le> length (filter (returning s') P)"
proof -
  have "returning s' e" if "e \<in> set P" "returning s e" for e
  proof -
    obtain t i w where e: "e = (t, i, w)" by (cases e)
    then have "t_wait (tasks s t) \<noteq> w" using that(2) by (simp add: returning_def)
    with un that(1) e have "t_wait (tasks s' t) = t_wait (tasks s t)" "t_woke (tasks s' t) = t_woke (tasks s t)"
      by (auto simp: undisturbed_def)
    with that(2) e show ?thesis by (simp add: returning_def woken_as_def)
  qed
  then have "filter (returning s) P = filter (returning s) (filter (returning s') P)"
    by (simp add: filter_filter) (metis (mono_tags, lifting) filter_cong)
  then show ?thesis by (metis length_filter_le)
qed

lemma live_mono:
  assumes inv: "guard_inv (n, ws, s, P)" and un: "undisturbed P s s'"
    and "(i, wk) \<in> set (wl_list ws)" "live s' wk"
  shows "live s wk"
proof -
  obtain t w where t: "wk = TaskWaker t w" "(t, i, w) \<in> set P" using guard_invD(5) [OF inv assms(3)] by auto
  then have "0 < w" using guard_invD(6) [OF inv] by (auto simp: parked_ok_def)
  with assms(4) t un show ?thesis by (auto simp: live_def undisturbed_def)
qed

lemma guard_inv_elsewhere:
  assumes inv: "guard_inv (n, ws, s, P)" and un: "undisturbed P s s'"
  shows "guard_inv (n, ws, s', P)"
proof (rule guard_invI)
  show "no_lost (n, ws, s', P)"
    using guard_invD(1) [OF inv] live_mono [OF inv un] returning_mono [OF un]
    unfolding no_lost_def prod.case by (fastforce intro: order_trans)
  show "0 < next_wait s'" using un guard_invD(3) [OF inv] by (simp add: undisturbed_def)
  fix t i w
  assume e: "(t, i, w) \<in> set P"
  then have "t_wait (tasks s' t) = t_wait (tasks s t) \<and> t_woke (tasks s' t) = t_woke (tasks s t) \<or>
      t_wait (tasks s t) = w \<and> t_wait (tasks s' t) = 0"
    using un by (auto simp: undisturbed_def)
  then show "parked_ok (wl_next ws) s' t i w"
    using guard_invD(6) [OF inv e] by (auto simp: woken_as_def parked_ok_def)
qed (use guard_invD [OF inv] in auto)

text \<open>A shorter list keeps the invariant, if the number of units is accounted for.\<close>

lemma guard_inv_shorter:
  assumes inv: "guard_inv (n, ws, s, P)" and "no_lost (m, ws', s, P)" "waiters_ok ws'"
    "set (wl_list ws') \<subseteq> set (wl_list ws)" "wl_next ws' = wl_next ws"
  shows "guard_inv (m, ws', s, P)"
  by (rule guard_invI) (use assms(2-) guard_invD [OF inv] in \<open>auto dest: subsetD\<close>)

lemma undisturbed_wake_each:
  assumes inv: "guard_inv (n, ws, s, P)" and sub: "set l \<subseteq> set (wl_list ws)"
  shows "undisturbed P s (wake_each me l s)"
proof -
  have "t_wait (tasks s t) = w" if "(t, i, w) \<in> set P" "TaskWaker t (t_wait (tasks s t)) \<in> snd ` set l" for t i w
  proof -
    from that(2) sub obtain j where "(j, TaskWaker t (t_wait (tasks s t))) \<in> set (wl_list ws)" by auto
    from guard_inv_entry_id [OF inv this that(1)] show ?thesis by simp
  qed
  then have "t_wait (tasks (wake_each me l s) t) = t_wait (tasks s t) \<and>
      t_woke (tasks (wake_each me l s) t) = t_woke (tasks s t) \<or>
      t_wait (tasks s t) = w \<and> t_wait (tasks (wake_each me l s) t) = 0" if "(t, i, w) \<in> set P" for t i w
    using that unfolding wake_each_wait wake_each_woke by (metis (full_types))
  then show ?thesis unfolding undisturbed_def by (simp, blast)
qed

lemma guard_inv_release:
  assumes inv: "guard_inv (n, ws, s, P)" and w1: "wake_one me ws s = (ws', s')"
  shows "guard_inv (Suc n, ws', s', P)"
proof (cases "dropWhile (\<lambda>(_, wk). \<not> live s wk) (wl_list ws)")
  case Nil
  then have r: "ws' = ws\<lparr>wl_list := []\<rparr>" "s' = s" using w1 by (simp_all add: wake_one_eq del: dropWhile_eq_Nil_conv)
  then show ?thesis
    using guard_inv_shorter [OF inv, of "Suc n" ws'] by (simp add: no_lost_def waiters_ok_def)
next
  case (Cons e rest)
  obtain i wk where e: "e = (i, wk)" by (cases e)
  have r: "ws' = ws\<lparr>wl_list := rest\<rparr>" "s' = wake_each me [e] s"
    using w1 by (simp_all add: wake_one_eq Cons e)
  have in_ws: "e \<in> set (wl_list ws)" "set rest \<subseteq> set (wl_list ws)"
    using set_dropWhileD [of _ _ "wl_list ws"] Cons by (metis list.set_intros(1), metis list.set_intros(2) subsetI)
  have lv: "live s wk" using Cons e by (metis (mono_tags, lifting) case_prod_conv hd_dropWhile list.distinct(1) list.sel(1))
  obtain t w where t: "wk = TaskWaker t w" "(t, i, w) \<in> set P" using guard_invD(5) [OF inv] in_ws(1) e by blast
  have un: "undisturbed P s s'" unfolding r by (rule undisturbed_wake_each [OF inv]) (use in_ws in simp)
  have le: "n \<le> length (filter (returning s) P)"
    using guard_invD(1) [OF inv] in_ws(1) lv e by (auto simp: no_lost_def)
  have "returning s' (t, i, w)" "\<not> returning s (t, i, w)"
    using lv t(1) guard_invD(6) [OF inv t(2)]
    by (auto simp: r e returning_def live_def woken_as_def wake_wait wake_woke from_u8_def parked_ok_def)
  moreover have "undisturbed (unpark t P) s s'" using un by (auto simp: undisturbed_def unpark_def)
  ultimately have more: "Suc (length (filter (returning s) P)) \<le> length (filter (returning s') P)"
    using returning_unpark [OF guard_invD(4) [OF inv] t(2)] returning_mono by simp
  have wl: "waiters_ok ws'" using waiters_ok_wake_one [OF guard_invD(2) [OF inv], of me s] w1 by simp
  show ?thesis
    by (rule guard_inv_shorter [OF guard_inv_elsewhere [OF inv un]])
      (use le more wl in_ws r in \<open>auto simp: no_lost_def\<close>)
qed

lemma guard_step_inv:
  assumes "guard_step g g'" "guard_inv g"
  shows "guard_inv g'"
  using assms
proof (induction rule: guard_step.induct)
  case (take n ws s P)
  then show ?case
    by (intro guard_inv_shorter [OF take]) (auto simp: no_lost_def guard_inv_def)
next
  case (back_wait t i w P me c ws s j ws' s')
  have "guard_inv (0, remove_waiter i ws, s, unpark t P)"
    using guard_inv_back [OF back_wait(3,1), of 0] by simp
  moreover have "t \<notin> fst ` set (unpark t P)" by (auto simp: unpark_def)
  ultimately show ?case by (rule guard_inv_add [OF _ _ back_wait(2)])
next
  case (flush me ws s ws' s' n P m)
  have e: "ws' = ws\<lparr>wl_list := []\<rparr>" "s' = wake_each me (wl_list ws) s" using flush(1) by (simp_all add: wake_all_def)
  have "guard_inv (n, ws, s', P)"
    unfolding e by (rule guard_inv_elsewhere [OF flush(2) undisturbed_wake_each [OF flush(2)]]) simp
  then show ?case by (rule guard_inv_shorter) (auto simp: e no_lost_def waiters_ok_def)
qed (auto intro: guard_inv_add guard_inv_back guard_inv_release guard_inv_elsewhere)

lemma guard_steps_inv: "guard_step\<^sup>*\<^sup>* g g' \<Longrightarrow> guard_inv g \<Longrightarrow> guard_inv g'"
  by (induction rule: rtranclp_induct) (auto intro: guard_step_inv)

lemma guard_inv_new: "0 < next_wait s \<Longrightarrow> guard_inv (n, waiters_new, s, [])"
  by (simp add: guard_inv_def no_lost_def) (simp add: waiters_new_def)

section \<open>The interface\<close>

text \<open>
  A user of the pattern: its free units and wait list, and its own steps, each of which is a
  number of steps of the pattern.  Whatever it does, while a task is asleep on the list no more
  units are free than tasks are on their way back to take one.
\<close>

locale guarded =
  fixes room :: "'c \<Rightarrow> nat" and wlist :: "'c \<Rightarrow> waiters"
    and step :: "'c \<times> sched \<times> parked \<Rightarrow> 'c \<times> sched \<times> parked \<Rightarrow> bool"
    and inv :: "'c \<Rightarrow> sched \<Rightarrow> parked \<Rightarrow> bool" and init :: "'c \<Rightarrow> sched \<Rightarrow> bool"
  assumes step_guard: "inv c s P \<Longrightarrow> guard_inv (room c, wlist c, s, P) \<Longrightarrow> step (c, s, P) (c', s', P') \<Longrightarrow>
      guard_step\<^sup>*\<^sup>* (room c, wlist c, s, P) (room c', wlist c', s', P') \<and> inv c' s' P'"
    and init_inv: "init c s \<Longrightarrow> inv c s [] \<and> wlist c = waiters_new"
begin

lemma steps_inv:
  assumes "step\<^sup>*\<^sup>* (c, s, P) x" "inv c s P" "guard_inv (room c, wlist c, s, P)"
  shows "case x of (c', s', P') \<Rightarrow> inv c' s' P' \<and> guard_inv (room c', wlist c', s', P')"
  using assms(1)
proof (induction rule: rtranclp_induct)
  case (step y z)
  obtain c1 s1 P1 where y: "y = (c1, s1, P1)" by (cases y)
  obtain c2 s2 P2 where z: "z = (c2, s2, P2)" by (cases z)
  from step(3) have i: "inv c1 s1 P1" and g: "guard_inv (room c1, wlist c1, s1, P1)" by (simp_all add: y)
  from step_guard [OF i g step(2) [unfolded y z]] guard_steps_inv [OF _ g] show ?case by (simp add: z)
qed (use assms in simp)

lemma reachable_inv:
  assumes "init c s" "0 < next_wait s" "step\<^sup>*\<^sup>* (c, s, []) (c', s', P')"
  shows "inv c' s' P'" "guard_inv (room c', wlist c', s', P')"
  using steps_inv [OF assms(3)] init_inv [OF assms(1)] guard_inv_new [OF assms(2), of "room c"] by auto

lemma no_lost_notification:
  assumes "init c s" "0 < next_wait s" "step\<^sup>*\<^sup>* (c, s, []) (c', s', P')"
    and "(i, TaskWaker t w) \<in> set (wl_list (wlist c'))" "t_wait (tasks s' t) = w"
  shows "room c' \<le> length (filter (returning s') P')"
  using guard_invD(1) [OF reachable_inv(2) [OF assms(1-3)]] assms(4,5)
  by (force simp: no_lost_def live_def)

end

section \<open>Waking other lists\<close>

text \<open>
  Waking a waiter of another list cannot disturb the tasks parked here: it leaves them alone or,
  for a waker of the same wait, ends the wait.
\<close>

definition wakers_ok :: "waiters \<Rightarrow> bool" where
  "wakers_ok ws = (\<forall>i t w. (i, TaskWaker t w) \<in> set (wl_list ws) \<longrightarrow> 0 < w)"

lemma wakers_ok_simps [simp]:
  "wakers_ok waiters_new" "wakers_ok ws \<Longrightarrow> wakers_ok (remove_waiter i ws)"
  "wakers_ok (ws\<lparr>wl_list := []\<rparr>)"
  by (auto simp: wakers_ok_def waiters_new_def remove_waiter_def)

lemma wakers_ok_add:
  "wakers_ok ws \<Longrightarrow> 0 < next_wait s \<Longrightarrow> add_waiter me (InTask t) c ws s = (i, ws', s') \<Longrightarrow> wakers_ok ws'"
  by (auto simp: add_waiter_task wakers_ok_def)

lemma wake_one_sub:
  "wake_one me ws s = (ws', s') \<Longrightarrow>
     set (wl_list ws') \<subseteq> set (wl_list ws) \<and> (\<exists>l. set l \<subseteq> set (wl_list ws) \<and> s' = wake_each me l s)"
proof (cases "dropWhile (\<lambda>(_, wk). \<not> live s wk) (wl_list ws)")
  case Nil
  moreover assume "wake_one me ws s = (ws', s')"
  ultimately have "wl_list ws' = []" "s' = wake_each me [] s" by (simp_all add: wake_one_eq del: dropWhile_eq_Nil_conv) auto
  then show ?thesis by (metis empty_set empty_subsetI)
next
  case (Cons e rest)
  moreover assume "wake_one me ws s = (ws', s')"
  ultimately have "ws' = ws\<lparr>wl_list := rest\<rparr>" "s' = wake_each me [e] s" by (cases e; simp add: wake_one_eq)+
  moreover have "set (e # rest) \<subseteq> set (wl_list ws)" unfolding Cons [symmetric] by (auto dest: set_dropWhileD)
  ultimately show ?thesis by (intro conjI exI [of _ "[e]"]) auto
qed

lemma undisturbed_other:
  assumes inv: "guard_inv (n, ws, s, P)" and nz: "\<And>i t w. (i, TaskWaker t w) \<in> set l \<Longrightarrow> 0 < w"
  shows "undisturbed P s (wake_each me l s)"
proof -
  have "t_wait (tasks s t) = w" if "(t, i, w) \<in> set P" "TaskWaker t (t_wait (tasks s t)) \<in> snd ` set l" for t i w
    using guard_invD(6) [OF inv that(1)] that(2) nz by (fastforce simp: parked_ok_def)
  then have "t_wait (tasks (wake_each me l s) t) = t_wait (tasks s t) \<and>
      t_woke (tasks (wake_each me l s) t) = t_woke (tasks s t) \<or>
      t_wait (tasks s t) = w \<and> t_wait (tasks (wake_each me l s) t) = 0" if "(t, i, w) \<in> set P" for t i w
    using that unfolding wake_each_wait wake_each_woke by (metis (full_types))
  then show ?thesis unfolding undisturbed_def by (simp, blast)
qed

lemma undisturbed_wake_one:
  assumes "guard_inv (n, ws, s, P)" "wakers_ok vs" "wake_one me vs s = (vs', s')"
  shows "undisturbed P s s' \<and> wakers_ok vs'"
proof -
  obtain l where l: "set (wl_list vs') \<subseteq> set (wl_list vs)" "set l \<subseteq> set (wl_list vs)" "s' = wake_each me l s"
    using wake_one_sub [OF assms(3)] by blast
  then have "undisturbed P s s'"
    using undisturbed_other [OF assms(1), of l me] assms(2) unfolding wakers_ok_def by blast
  then show ?thesis using l(1) assms(2) unfolding wakers_ok_def by blast
qed

lemma undisturbed_wake_all:
  assumes "guard_inv (n, ws, s, P)" "wakers_ok vs" "wake_all me vs s = (vs', s')"
  shows "undisturbed P s s' \<and> wakers_ok vs'"
  using assms(2,3) undisturbed_other [OF assms(1)] by (auto simp: wake_all_def wakers_ok_def)

lemma undisturbed_begin_wait:
  "t \<notin> fst ` set P \<Longrightarrow> undisturbed P s (snd (begin_wait me t c s))"
  by (force simp: undisturbed_def begin_wait_wait)

text \<open>The same as steps of the pattern.\<close>

lemma calm_wake_one:
  assumes "guard_inv (n, ws, s, P)" "wakers_ok vs" "wake_one me vs s = (vs', s')"
  shows "guard_step (n, ws, s, P) (n, ws, s', P)" "guard_inv (n, ws, s', P)" "wakers_ok vs'"
  using undisturbed_wake_one [OF assms] guard_inv_elsewhere [OF assms(1)] by (auto intro: guard_step.elsewhere)

lemma calm_wake_all:
  assumes "guard_inv (n, ws, s, P)" "wakers_ok vs" "wake_all me vs s = (vs', s')"
  shows "guard_step (n, ws, s, P) (n, ws, s', P)" "guard_inv (n, ws, s', P)" "wakers_ok vs'"
  using undisturbed_wake_all [OF assms] guard_inv_elsewhere [OF assms(1)] by (auto intro: guard_step.elsewhere)

lemma calm_begin_wait:
  assumes "guard_inv (n, ws, s, P)" "t \<notin> fst ` set P"
  shows "guard_step (n, ws, s, P) (n, ws, snd (begin_wait me t c s), P)"
  using undisturbed_begin_wait [OF assms(2)] by (rule guard_step.elsewhere)

section \<open>Two tasks parked\<close>

text \<open>Tasks 2 and 3 have begun to wait, in this order, and are on a list; then the first is woken.\<close>

definition demo_start :: sched where
  "demo_start = run_main_start 1 0 (\<lambda>_. Started) 0"

definition demo_two_wait :: sched where
  "demo_two_wait = snd (begin_wait None 3 True (snd (begin_wait None 2 True demo_start)))"

lemma demo_start_simps: "next_wait demo_start = 1" "t_cancelled (tasks demo_start t) = False"
proof -
  show "next_wait demo_start = 1" by (simp add: demo_start_def init_views)
  show "t_cancelled (tasks demo_start t) = False"
    by (simp add: demo_start_def demo_defs)
qed

lemma demo_waits:
  "next_wait (snd (begin_wait None 2 True demo_start)) = 2"
  "t_wait (tasks demo_two_wait 2) = 1" "t_wait (tasks demo_two_wait 3) = 2"
proof -
  show nw: "next_wait (snd (begin_wait None 2 True demo_start)) = 2" by (simp add: begin_wait_wait demo_start_simps)
  have "\<not> t_cancelled (tasks (snd (begin_wait None 2 True demo_start)) 3)"
    by (simp add: begin_wait_def demo_start_simps upd_task_def Let_def)
  then show "t_wait (tasks demo_two_wait 2) = 1" "t_wait (tasks demo_two_wait 3) = 2"
    by (simp_all add: demo_two_wait_def begin_wait_wait demo_start_simps)
qed

definition demo_two :: waiters where
  "demo_two = \<lparr>wl_list = [(1, TaskWaker 2 1), (2, TaskWaker 3 2)], wl_next = 2\<rparr>"

lemma demo_wake: "wake_one None demo_two demo_two_wait =
    (demo_two\<lparr>wl_list := [(2, TaskWaker 3 2)]\<rparr>, snd (wake None 2 1 WReady demo_two_wait))"
proof -
  have "fst (wake None 2 1 WReady demo_two_wait)" by (simp add: wake_def demo_waits)
  then show ?thesis by (simp add: wake_one_def demo_two_def case_prod_beta)
qed

end
