(* ===== verification/Sync.thy ===== *)
theory Sync
  imports Guard
begin

text \<open>
  The rest of \<^verbatim>\<open>src/sched.rs\<close> that tasks wait with: the lock that can be held across waits
  (\<^verbatim>\<open>Lock\<close>) and the helper-thread slots (\<^verbatim>\<open>BLOCKING\<close>, \<^verbatim>\<open>claim_blocking_slot\<close>).  Each loop body that
  parks is one attempt, which either returns or leaves the task on the wait list; the next turn of
  the loop removes the task's entry and attempts again.
\<close>

section \<open>Lock\<close>

record lock =
  lk_held :: bool
  lk_waiters :: waiters

definition lock_new :: lock where
  "lock_new = \<lparr>lk_held = False, lk_waiters = waiters_new\<rparr>"

definition is_locked :: "lock \<Rightarrow> bool" where
  "is_locked l = lk_held l"

definition try_lock :: "lock \<Rightarrow> lock option" where
  "try_lock l = (if lk_held l then None else Some (l\<lparr>lk_held := True\<rparr>))"

text \<open>One turn of \<^verbatim>\<open>Lock::lock\<close>: \<open>Inl\<close> the lock taken, \<open>Inr\<close> the id to park under.\<close>

definition lock_attempt ::
  "nat option \<Rightarrow> runner \<Rightarrow> lock \<Rightarrow> sched \<Rightarrow> lock + (nat \<times> lock \<times> sched)" where
  "lock_attempt me r l s =
     (if \<not> lk_held l then Inl (l\<lparr>lk_held := True\<rparr>)
      else let (i, ws, s1) = add_waiter me r False (lk_waiters l) s
           in Inr (i, l\<lparr>lk_waiters := ws\<rparr>, s1))"

definition lock_again ::
  "nat option \<Rightarrow> runner \<Rightarrow> nat \<Rightarrow> lock \<Rightarrow> sched \<Rightarrow> lock + (nat \<times> lock \<times> sched)" where
  "lock_again me r i l s = lock_attempt me r (l\<lparr>lk_waiters := remove_waiter i (lk_waiters l)\<rparr>) s"

text \<open>Dropping a \<^verbatim>\<open>LockGuard\<close>.\<close>

definition unlock :: "nat option \<Rightarrow> lock \<Rightarrow> sched \<Rightarrow> lock \<times> sched" where
  "unlock me l s =
     (let (ws, s1) = wake_one me (lk_waiters l) s
      in (\<lparr>lk_held = False, lk_waiters = ws\<rparr>, s1))"

text \<open>Tasks use a lock: they take it, wait for it, come back to it, and drop it when they hold it.\<close>

type_synonym lock_users = "lock \<times> nat list"

inductive lock_step :: "lock_users \<times> sched \<times> parked \<Rightarrow> lock_users \<times> sched \<times> parked \<Rightarrow> bool" where
  tries: "try_lock l = Some l' \<Longrightarrow> lock_step ((l, H), s, P) ((l', t # H), s, P)"
| takes: "lock_attempt me (InTask t) l s = Inl l' \<Longrightarrow> lock_step ((l, H), s, P) ((l', t # H), s, P)"
| waits: "t \<notin> fst ` set P \<Longrightarrow> lock_attempt me (InTask t) l s = Inr (i, l', s') \<Longrightarrow>
    lock_step ((l, H), s, P) ((l', H), s', P @ [(t, i, next_wait s)])"
| back_takes: "(t, i, w) \<in> set P \<Longrightarrow> lock_again me (InTask t) i l s = Inl l' \<Longrightarrow>
    lock_step ((l, H), s, P) ((l', t # H), s, unpark t P)"
| back_waits: "(t, i, w) \<in> set P \<Longrightarrow> lock_again me (InTask t) i l s = Inr (j, l', s') \<Longrightarrow>
    lock_step ((l, H), s, P) ((l', H), s', unpark t P @ [(t, j, next_wait s)])"
| drops: "t \<in> set H \<Longrightarrow> unlock me l s = (l', s') \<Longrightarrow> lock_step ((l, H), s, P) ((l', remove1 t H), s', P)"
| other: "undisturbed P s s' \<Longrightarrow> lock_step ((l, H), s, P) ((l, H), s', P)"

definition lock_room :: "lock_users \<Rightarrow> nat" where
  "lock_room c = (if lk_held (fst c) then 0 else 1)"

definition lock_init :: "lock_users \<Rightarrow> bool" where
  "lock_init c = (c = (lock_new, []))"

text \<open>The lock is held exactly when one task holds it.\<close>

definition lock_ok :: "lock_users \<Rightarrow> bool" where
  "lock_ok c = (length (snd c) = (if lk_held (fst c) then 1 else 0))"

lemma lock_step_ok: "lock_step (c, s, P) (c', s', P') \<Longrightarrow> lock_ok c \<Longrightarrow> lock_ok c'"
  by (cases rule: lock_step.cases)
    (auto simp: lock_ok_def try_lock_def lock_attempt_def lock_again_def unlock_def Let_def
      length_remove1 length_Suc_conv split: if_splits prod.splits)

lemma lock_step_guard:
  assumes ok: "lock_ok c" and st: "lock_step (c, s, P) (c', s', P')"
  shows "guard_step\<^sup>*\<^sup>* (lock_room c, lk_waiters (fst c), s, P) (lock_room c', lk_waiters (fst c'), s', P')"
proof -
  from st have "guard_step (lock_room c, lk_waiters (fst c), s, P) (lock_room c', lk_waiters (fst c'), s', P')"
  proof (cases rule: lock_step.cases)
    case (drops t H me l l')
    then have "lk_held l" using ok by (auto simp: lock_ok_def split: if_splits)
    then show ?thesis using drops
      by (auto simp: lock_room_def unlock_def Let_def split: prod.splits intro!: guard_step.release)
  qed (auto simp: lock_room_def try_lock_def lock_attempt_def lock_again_def Let_def
      split: if_splits prod.splits intro: guard_step.intros)
  then show ?thesis by (rule r_into_rtranclp)
qed

interpretation lk: guarded lock_room "\<lambda>c. lk_waiters (fst c)" lock_step "\<lambda>c s P. lock_ok c" "\<lambda>c s. lock_init c"
  by unfold_locales (use lock_step_guard lock_step_ok in blast, simp add: lock_init_def lock_new_def lock_ok_def)

text \<open>
  C18. The lock that can be held across waits excludes: however tasks try, wait for, take and drop
  it, at most one holds it at a time.  And it wakes: while a task sleeps on its wait list and the
  lock is free, some other waiter has been woken and is on its way back to take it, so the lock
  never sits free with every waiter asleep.
\<close>

theorem lock_excludes_and_wakes:
  assumes "0 < next_wait s0" "lock_step\<^sup>*\<^sup>* ((lock_new, []), s0, []) ((l, H), s, P)"
  shows "length H \<le> 1 \<and>
    ((i, TaskWaker t w) \<in> set (wl_list (lk_waiters l)) \<longrightarrow> t_wait (tasks s t) = w \<longrightarrow> \<not> lk_held l \<longrightarrow>
       (\<exists>e \<in> set P. returning s e))"
proof -
  have i: "lock_init (lock_new, [])" by (simp add: lock_init_def)
  note nl = lk.no_lost_notification [OF i assms]
  have "length H \<le> 1" using lk.reachable_inv(1) [OF i assms] by (auto simp: lock_ok_def split: if_splits)
  moreover have "\<exists>e \<in> set P. returning s e"
    if "(i, TaskWaker t w) \<in> set (wl_list (lk_waiters l))" "t_wait (tasks s t) = w" "\<not> lk_held l"
  proof -
    have "filter (returning s) P \<noteq> []" using nl [of i t w] that by (auto simp: lock_room_def)
    then show ?thesis by (auto simp: filter_empty_conv)
  qed
  ultimately show ?thesis by blast
qed

text \<open>Task 1 takes the lock, tasks 2 and 3 wait for it, and task 1 drops it.\<close>

definition demo_waiting :: sched where
  "demo_waiting = snd (begin_wait None 3 False (snd (begin_wait None 2 False (run_main_start 1 0 (\<lambda>_. Started) 0))))"

definition demo_waiters :: waiters where
  "demo_waiters = \<lparr>wl_list = [(1, TaskWaker 2 1), (2, TaskWaker 3 2)], wl_next = 2\<rparr>"

lemma demo_lock_run:
  "lock_step\<^sup>*\<^sup>* ((lock_new, []), run_main_start 1 0 (\<lambda>_. Started) 0, [])
     ((\<lparr>lk_held = False, lk_waiters = demo_waiters\<lparr>wl_list := [(2, TaskWaker 3 2)]\<rparr>\<rparr>, []),
      snd (wake None 2 1 WReady demo_waiting), [(2, 1, 1), (3, 2, 2)])"
    (is "lock_step\<^sup>*\<^sup>* ?c0 ?c4")
proof -
  let ?s0 = "run_main_start 1 0 (\<lambda>_. Started) 0"
  let ?s1 = "snd (begin_wait None 2 False ?s0)"
  let ?l1 = "\<lparr>lk_held = True, lk_waiters = waiters_new\<rparr>"
  let ?l2 = "\<lparr>lk_held = True, lk_waiters = \<lparr>wl_list = [(1, TaskWaker 2 1)], wl_next = 1\<rparr>\<rparr>"
  let ?l3 = "\<lparr>lk_held = True, lk_waiters = demo_waiters\<rparr>"
  have nw: "next_wait ?s0 = 1" "next_wait ?s1 = 2" by (simp_all add: init_views begin_wait_wait)
  have 1: "lock_step ?c0 ((?l1, [1]), ?s0, [])"
    by (rule lock_step.takes) (simp add: lock_attempt_def lock_new_def)
  have 2: "lock_step ((?l1, [1]), ?s0, []) ((?l2, [1]), ?s1, [] @ [(2, 1, next_wait ?s0)])"
    by (rule lock_step.waits [where me = None])
      (simp_all add: lock_attempt_def add_waiter_task waiters_new_def nw [unfolded One_nat_def])
  have 3: "lock_step ((?l2, [1]), ?s1, [(2, 1, 1)]) ((?l3, [1]), demo_waiting, [(2, 1, 1)] @ [(3, 2, next_wait ?s1)])"
    by (rule lock_step.waits [where me = None])
      (simp_all add: lock_attempt_def add_waiter_task nw [unfolded One_nat_def] demo_waiting_def demo_waiters_def)
  have "t_wait (tasks demo_waiting 2) = 1" by (simp add: demo_waiting_def begin_wait_wait nw [unfolded One_nat_def])
  then have "fst (wake None 2 1 WReady demo_waiting)" by (simp add: wake_def)
  then have 4: "lock_step ((?l3, [1]), demo_waiting, [(2, 1, 1), (3, 2, 2)])
      ((\<lparr>lk_held = False, lk_waiters = demo_waiters\<lparr>wl_list := [(2, TaskWaker 3 2)]\<rparr>\<rparr>, remove1 1 [1]),
       snd (wake None 2 1 WReady demo_waiting), [(2, 1, 1), (3, 2, 2)])"
    by (intro lock_step.drops [where me = None])
      (simp_all add: unlock_def wake_one_def demo_waiters_def case_prod_beta)
  show ?thesis using 1 2 3 4 by (simp add: nw del: One_nat_def)
qed

theorem lock_excludes_and_wakes_witness:
  "\<exists>e \<in> set [(2, 1, 1), (3, 2, 2)]. returning (snd (wake None 2 1 WReady demo_waiting)) e"
  using lock_excludes_and_wakes [OF _ demo_lock_run, of 2 3 2]
  by (simp add: init_views demo_waiters_def wake_wait demo_waiting_def begin_wait_wait)

section \<open>Helper threads\<close>

abbreviation MAX_BLOCKING_THREADS :: nat where "MAX_BLOCKING_THREADS \<equiv> 64"

record blocking_state =
  bl_used :: nat
  bl_waiters :: waiters

definition blocking_new :: blocking_state where
  "blocking_new = \<lparr>bl_used = 0, bl_waiters = waiters_new\<rparr>"

text \<open>One turn of \<^verbatim>\<open>claim_blocking_slot\<close>: a slot, an error, or parked under an id.\<close>

datatype claim = Slot blocking_state | SlotErr woke | SlotWait nat blocking_state sched

definition claim_attempt ::
  "nat option \<Rightarrow> runner \<Rightarrow> deadline \<Rightarrow> blocking_state \<Rightarrow> sched \<Rightarrow> claim" where
  "claim_attempt me r d b s =
     (if bl_used b < MAX_BLOCKING_THREADS then Slot (b\<lparr>bl_used := bl_used b + 1\<rparr>)
      else if passed (clock s) d then SlotErr WTimedOut
      else let (i, ws, s1) = add_waiter me r True (bl_waiters b) s
           in SlotWait i (b\<lparr>bl_waiters := ws\<rparr>) s1)"

text \<open>Back from parking: \<open>Inl\<close> when the wait was cancelled.\<close>

definition claim_again ::
  "nat option \<Rightarrow> runner \<Rightarrow> deadline \<Rightarrow> nat \<Rightarrow> woke \<Rightarrow> blocking_state \<Rightarrow> sched \<Rightarrow> blocking_state \<times> claim" where
  "claim_again me r d i how b s =
     (let b1 = b\<lparr>bl_waiters := remove_waiter i (bl_waiters b)\<rparr>
      in (b1, if how = WCancelled then SlotErr WCancelled else claim_attempt me r d b1 s))"

text \<open>Dropping a \<^verbatim>\<open>BlockingSlot\<close>.\<close>

definition blocking_drop :: "nat option \<Rightarrow> blocking_state \<Rightarrow> sched \<Rightarrow> blocking_state \<times> sched" where
  "blocking_drop me b s =
     (let (ws, s1) = wake_one me (bl_waiters b) s
      in (\<lparr>bl_used = bl_used b - 1, bl_waiters = ws\<rparr>, s1))"

text \<open>Tasks claim slots, their helper threads (counted in \<open>k\<close>) give them back.\<close>

inductive blocking_step ::
  "(blocking_state \<times> nat) \<times> sched \<times> parked \<Rightarrow> (blocking_state \<times> nat) \<times> sched \<times> parked \<Rightarrow> bool" where
  claims: "claim_attempt me (InTask t) d b s = Slot b' \<Longrightarrow> blocking_step ((b, k), s, P) ((b', Suc k), s, P)"
| waits: "t \<notin> fst ` set P \<Longrightarrow> claim_attempt me (InTask t) d b s = SlotWait i b' s' \<Longrightarrow>
    blocking_step ((b, k), s, P) ((b', k), s', P @ [(t, i, next_wait s)])"
| back_claims: "(t, i, w) \<in> set P \<Longrightarrow> claim_again me (InTask t) d i (woken_as s t) b s = (b1, Slot b') \<Longrightarrow>
    blocking_step ((b, k), s, P) ((b', Suc k), s, unpark t P)"
| back_waits: "(t, i, w) \<in> set P \<Longrightarrow>
    claim_again me (InTask t) d i (woken_as s t) b s = (b1, SlotWait j b' s') \<Longrightarrow>
    blocking_step ((b, k), s, P) ((b', k), s', unpark t P @ [(t, j, next_wait s)])"
| back_fails: "(t, i, w) \<in> set P \<Longrightarrow> claim_again me (InTask t) d i (woken_as s t) b s = (b1, SlotErr why) \<Longrightarrow>
    blocking_step ((b, k), s, P) ((b1, k), s, unpark t P)"
| finishes: "blocking_drop me b s = (b', s') \<Longrightarrow> blocking_step ((b, Suc k), s, P) ((b', k), s', P)"
| other: "undisturbed P s s' \<Longrightarrow> blocking_step ((b, k), s, P) ((b, k), s', P)"

definition blocking_room :: "blocking_state \<times> nat \<Rightarrow> nat" where
  "blocking_room c = MAX_BLOCKING_THREADS - bl_used (fst c)"

definition blocking_ok :: "blocking_state \<times> nat \<Rightarrow> bool" where
  "blocking_ok c = (bl_used (fst c) = snd c \<and> snd c \<le> MAX_BLOCKING_THREADS)"

definition blocking_init :: "blocking_state \<times> nat \<Rightarrow> bool" where
  "blocking_init c = (c = (blocking_new, 0))"

lemmas blocking_defs = claim_attempt_def claim_again_def blocking_drop_def Let_def

lemma blocking_step_ok: "blocking_step (c, s, P) (c', s', P') \<Longrightarrow> blocking_ok c \<Longrightarrow> blocking_ok c'"
  by (cases rule: blocking_step.cases)
    (auto simp: blocking_ok_def blocking_defs split: if_splits prod.splits)

lemma blocking_step_guard:
  assumes ok: "blocking_ok c" and st: "blocking_step (c, s, P) (c', s', P')"
  shows "guard_step\<^sup>*\<^sup>* (blocking_room c, bl_waiters (fst c), s, P) (blocking_room c', bl_waiters (fst c'), s', P')"
proof -
  have dec: "64 - n = Suc (64 - Suc n)" if "n < 64" for n :: nat using that by simp
  have inc: "64 - (n - 1) = Suc (64 - n)" if "n = Suc k" "n \<le> 64" for n k :: nat using that by simp
  from st have "guard_step (blocking_room c, bl_waiters (fst c), s, P) (blocking_room c', bl_waiters (fst c'), s', P')"
  proof (cases rule: blocking_step.cases)
    case (finishes me b b' k)
    then have "bl_used b = Suc k" "bl_used b \<le> 64" using ok by (auto simp: blocking_ok_def)
    then show ?thesis using finishes inc
      by (auto simp: blocking_room_def blocking_defs split: prod.splits intro!: guard_step.release)
  next
    case (back_fails t i w me d b b1 why k)
    then show ?thesis
      by (auto simp: blocking_room_def blocking_defs split: if_splits prod.splits intro!: guard_step.back_leave)
  qed (auto simp: blocking_room_def blocking_defs dec split: if_splits prod.splits
      intro: guard_step.intros)
  then show ?thesis by (rule r_into_rtranclp)
qed

interpretation bl: guarded blocking_room "\<lambda>c. bl_waiters (fst c)" blocking_step "\<lambda>c s P. blocking_ok c"
    "\<lambda>c s. blocking_init c"
  by unfold_locales (use blocking_step_guard blocking_step_ok in blast,
    simp add: blocking_init_def blocking_new_def blocking_ok_def)

text \<open>
  C19. Helper threads are bounded and none is left idle: at most 64 hold a slot at once, and while a
  caller sleeps waiting for one, no more slots are free than woken callers are on their way back
  to claim.
\<close>

theorem blocking_bounded_and_wakes:
  assumes "0 < next_wait s0" "blocking_step\<^sup>*\<^sup>* ((blocking_new, 0), s0, []) ((b, k), s, P)"
  shows "k \<le> 64 \<and> bl_used b = k \<and>
    ((i, TaskWaker t w) \<in> set (wl_list (bl_waiters b)) \<longrightarrow> t_wait (tasks s t) = w \<longrightarrow>
       64 - k \<le> length (filter (returning s) P))"
proof -
  have i: "blocking_init (blocking_new, 0)" by (simp add: blocking_init_def)
  from bl.no_lost_notification [OF i assms] bl.reachable_inv(1) [OF i assms]
  show ?thesis by (auto simp: blocking_room_def blocking_ok_def)
qed

text \<open>All 64 slots are claimed, tasks 2 and 3 wait for one, and a helper thread gives its slot back.\<close>

lemma demo_all_claimed:
  "k \<le> 64 \<Longrightarrow> blocking_step\<^sup>*\<^sup>* ((blocking_new, 0), s, []) ((blocking_new\<lparr>bl_used := k\<rparr>, k), s, [])"
proof (induction k)
  case 0
  have "blocking_new\<lparr>bl_used := 0\<rparr> = blocking_new" by (simp add: blocking_new_def)
  then show ?case by simp
next
  case (Suc k)
  have "blocking_step ((blocking_new\<lparr>bl_used := k\<rparr>, k), s, []) ((blocking_new\<lparr>bl_used := Suc k\<rparr>, Suc k), s, [])"
    using Suc.prems by (intro blocking_step.claims [where me = None and t = 1 and d = Never]) (simp add: claim_attempt_def)
  then show ?case using Suc by (meson Suc_leD rtranclp.rtrancl_into_rtrancl)
qed

lemma demo_blocking_run:
  "blocking_step\<^sup>*\<^sup>* ((blocking_new, 0), demo_start, [])
     ((\<lparr>bl_used = 63, bl_waiters = demo_two\<lparr>wl_list := [(2, TaskWaker 3 2)]\<rparr>\<rparr>, 63),
      snd (wake None 2 1 WReady demo_two_wait), [(2, 1, 1), (3, 2, 2)])"
    (is "blocking_step\<^sup>*\<^sup>* ?c0 ?c3")
proof -
  let ?s1 = "snd (begin_wait None 2 True demo_start)"
  let ?b = "\<lambda>ws. \<lparr>bl_used = 64, bl_waiters = ws\<rparr>"
  let ?one = "\<lparr>wl_list = [(1, TaskWaker 2 1)], wl_next = 1\<rparr>"
  have 0: "blocking_step\<^sup>*\<^sup>* ?c0 ((?b waiters_new, 64), demo_start, [])"
    using demo_all_claimed [of 64 demo_start] by (simp add: blocking_new_def)
  have 1: "blocking_step ((?b waiters_new, 64), demo_start, []) ((?b ?one, 64), ?s1, [] @ [(2, 1, next_wait demo_start)])"
    by (rule blocking_step.waits [where me = None and d = Never])
      (simp_all add: claim_attempt_def add_waiter_task waiters_new_def demo_start_simps [unfolded One_nat_def])
  have 2: "blocking_step ((?b ?one, 64), ?s1, [(2, 1, 1)]) ((?b demo_two, 64), demo_two_wait, [(2, 1, 1)] @ [(3, 2, next_wait ?s1)])"
    by (rule blocking_step.waits [where me = None and d = Never])
      (simp_all add: claim_attempt_def add_waiter_task demo_waits demo_two_def demo_two_wait_def)
  have "blocking_step ((?b demo_two, Suc 63), demo_two_wait, [(2, 1, 1), (3, 2, 2)]) ?c3"
    by (rule blocking_step.finishes [where me = None]) (simp add: blocking_drop_def demo_wake)
  then have 3: "blocking_step ((?b demo_two, 64), demo_two_wait, [(2, 1, 1), (3, 2, 2)]) ?c3" by simp
  have one: "blocking_step ((?b waiters_new, 64), demo_start, []) ((?b ?one, 64), ?s1, [(2, 1, 1)])"
    using 1 by (simp add: demo_start_simps del: One_nat_def)
  have two: "blocking_step ((?b ?one, 64), ?s1, [(2, 1, 1)]) ((?b demo_two, 64), demo_two_wait, [(2, 1, 1), (3, 2, 2)])"
    using 2 by (simp add: demo_waits del: One_nat_def)
  show ?thesis using 0 one two 3 by (meson rtranclp.rtrancl_into_rtrancl)
qed

theorem blocking_bounded_and_wakes_witness:
  "t_wait (tasks (snd (wake None 2 1 WReady demo_two_wait)) 3) = 2 \<and>
   64 - 63 \<le> length (filter (returning (snd (wake None 2 1 WReady demo_two_wait))) [(2, 1, 1), (3, 2, 2)])"
  using blocking_bounded_and_wakes [OF _ demo_blocking_run, of 2 3 2]
  by (simp add: demo_start_simps demo_two_def wake_wait demo_waits)

end
