(* ===== verification/Resource.thy ===== *)
theory Resource
  imports Sync
begin

text \<open>
  Host resources owned by Roc reference counting (\<^verbatim>\<open>src/resource.rs\<close>).  A heap is a fixed array of
  slots; Roc holds the address of a slot's token.  The record has the fields of \<^verbatim>\<open>ResourceHeap\<close> and
  its \<^verbatim>\<open>State\<close>, and the address and size of the slot array, which the compiler and allocator
  choose.  Sockets, channel ends, tasks, groups and files each live in such a heap.
\<close>

abbreviation INDEX_BITS :: nat where "INDEX_BITS \<equiv> 16"
abbreviation INDEX_MASK :: u64 where "INDEX_MASK \<equiv> mask INDEX_BITS"

record 'a slot =
  sl_refcount :: int
  sl_token :: u64
  sl_resource :: "'a option"

record 'a heap =
  h_start :: nat
  h_stride :: nat
  h_slots :: "'a slot list"
  h_free :: "nat list"
  h_generations :: "u64 list"
  h_live :: "bool list"
  h_waiters :: waiters

text \<open>The offset of the token in a slot: the size of the refcount before it.\<close>

abbreviation token_offset :: nat where "token_offset \<equiv> 8"

text \<open>\<^verbatim>\<open>ResourceHeap::new\<close>; \<open>None\<close> is a failed assertion.\<close>

definition heap_new :: "nat \<Rightarrow> nat \<Rightarrow> nat \<Rightarrow> 'a heap option" where
  "heap_new start stride capacity =
     (if 0 < capacity \<and> capacity \<le> unat INDEX_MASK
      then Some \<lparr>h_start = start, h_stride = stride,
                 h_slots = replicate capacity \<lparr>sl_refcount = 0, sl_token = 0, sl_resource = None\<rparr>,
                 h_free = rev [0..<capacity], h_generations = replicate capacity 0,
                 h_live = replicate capacity False, h_waiters = waiters_new\<rparr>
      else None)"

definition try_reserve :: "'a heap \<Rightarrow> (nat \<times> 'a heap) option" where
  "try_reserve h =
     (case vec_pop (h_free h) of None \<Rightarrow> None | Some (i, f) \<Rightarrow> Some (i, h\<lparr>h_free := f\<rparr>))"

text \<open>One turn of \<^verbatim>\<open>reserve\<close>: a slot's index, or the id to park under.\<close>

definition reserve_attempt ::
  "nat option \<Rightarrow> runner \<Rightarrow> 'a heap \<Rightarrow> sched \<Rightarrow> (nat \<times> 'a heap) + (nat \<times> 'a heap \<times> sched)" where
  "reserve_attempt me r h s =
     (case try_reserve h of
        Some (i, h1) \<Rightarrow> Inl (i, h1)
      | None \<Rightarrow>
          let (i, ws, s1) = add_waiter me r True (h_waiters h) s
          in Inr (i, h\<lparr>h_waiters := ws\<rparr>, s1))"

text \<open>Back from parking; \<open>None\<close> when the wait was cancelled.\<close>

definition reserve_again ::
  "nat option \<Rightarrow> runner \<Rightarrow> nat \<Rightarrow> woke \<Rightarrow> 'a heap \<Rightarrow> sched \<Rightarrow>
   'a heap \<times> ((nat \<times> 'a heap) + (nat \<times> 'a heap \<times> sched)) option" where
  "reserve_again me r i how h s =
     (let h1 = h\<lparr>h_waiters := remove_waiter i (h_waiters h)\<rparr>
      in (h1, if how = WCancelled then None else Some (reserve_attempt me r h1 s)))"

definition free_slot :: "nat option \<Rightarrow> nat \<Rightarrow> 'a heap \<Rightarrow> sched \<Rightarrow> 'a heap \<times> sched" where
  "free_slot me i h s =
     (let (ws, s1) = wake_one me (h_waiters h) s
      in (h\<lparr>h_free := h_free h @ [i], h_waiters := ws\<rparr>, s1))"

text \<open>\<^verbatim>\<open>Reservation::insert\<close>; the address it returns is the token's.\<close>

definition token_address :: "'a heap \<Rightarrow> nat \<Rightarrow> nat" where
  "token_address h i = h_start h + i * h_stride h + token_offset"

definition heap_insert :: "nat \<Rightarrow> 'a \<Rightarrow> 'a heap \<Rightarrow> nat \<times> 'a heap" where
  "heap_insert i r h =
     (let g = h_generations h ! i + 1
      in (token_address h i,
          h\<lparr>h_generations := (h_generations h)[i := g], h_live := (h_live h)[i := True],
            h_slots := (h_slots h)[i := \<lparr>sl_refcount = 1,
              sl_token = push_bit INDEX_BITS g OR of_nat i, sl_resource = Some r\<rparr>]\<rparr>))"

definition base_index :: "'a heap \<Rightarrow> nat \<Rightarrow> nat option" where
  "base_index h a =
     (if a < h_start h then None
      else let off = a - h_start h; i = off div h_stride h
           in if off mod h_stride h = 0 \<and> i < length (h_slots h) then Some i else None)"

definition payload_index :: "'a heap \<Rightarrow> nat \<Rightarrow> nat option" where
  "payload_index h a = (if a < token_offset then None else base_index h (a - token_offset))"

definition contains :: "'a heap \<Rightarrow> nat \<Rightarrow> bool" where
  "contains h a = (h_start h \<le> a \<and> a < h_start h + length (h_slots h) * h_stride h)"

text \<open>\<^verbatim>\<open>get\<close>: \<open>None\<close> is \<^verbatim>\<open>Invalid\<close>.\<close>

definition heap_get :: "'a heap \<Rightarrow> nat \<Rightarrow> 'a option" where
  "heap_get h a =
     (case payload_index h a of
        None \<Rightarrow> None
      | Some i \<Rightarrow>
          let token = sl_token (h_slots h ! i)
          in if h_live h ! i \<and> token AND INDEX_MASK = of_nat i \<and>
                drop_bit INDEX_BITS token = h_generations h ! i
             then sl_resource (h_slots h ! i) else None)"

text \<open>
  \<^verbatim>\<open>release\<close> up to dropping the resource: the address is no slot's, it is inside the heap but not a
  slot (logged), the slot is not in use (logged), or the resource is taken out to be dropped, after
  which the slot is freed (\<open>free_slot\<close>).
\<close>

datatype 'a released = NotOurs | InsideHeap | ReleasedTwice nat | Dropping nat "'a option"

definition release_begin :: "nat \<Rightarrow> 'a heap \<Rightarrow> 'a released \<times> 'a heap" where
  "release_begin a h =
     (case base_index h a of
        None \<Rightarrow> (if contains h a then InsideHeap else NotOurs, h)
      | Some i \<Rightarrow>
          if \<not> h_live h ! i then (ReleasedTwice i, h)
          else (Dropping i (sl_resource (h_slots h ! i)), h\<lparr>h_live := (h_live h)[i := False]\<rparr>))"

fun release_result :: "'a released \<Rightarrow> bool" where
  "release_result NotOurs = False"
| "release_result InsideHeap = True"
| "release_result (ReleasedTwice _) = True"
| "release_result (Dropping _ _) = True"

definition release :: "nat option \<Rightarrow> nat \<Rightarrow> 'a heap \<Rightarrow> sched \<Rightarrow> 'a released \<times> 'a heap \<times> sched" where
  "release me a h s =
     (case release_begin a h of
        (Dropping i r, h1) \<Rightarrow> (Dropping i r, free_slot me i h1 s)
      | (out, h1) \<Rightarrow> (out, h1, s))"

section \<open>Tokens and addresses\<close>

lemma token_index:
  assumes "i < 65536"
  shows "(push_bit INDEX_BITS g OR of_nat i) AND INDEX_MASK = (of_nat i :: u64)"
proof (rule bit_word_eqI)
  fix n assume "n < LENGTH(64)"
  have "bit i n \<Longrightarrow> n < 16" using bit_below [of i 16 n] assms by simp
  then show "bit ((push_bit INDEX_BITS g OR of_nat i) AND INDEX_MASK) n = bit (of_nat i :: u64) n"
    by (auto simp: bit_simps)
qed

lemma token_generation:
  assumes "i < 65536" "unat g < 2 ^ 48"
  shows "drop_bit INDEX_BITS (push_bit INDEX_BITS g OR of_nat i) = (g :: u64)"
proof (rule bit_word_eqI)
  fix n assume n: "n < LENGTH(64)"
  have "\<not> bit i (16 + n)" using bit_below [of i 16 "16 + n"] assms(1) by auto
  moreover have "bit g n \<Longrightarrow> n < 48" using bit_below [of "unat g" 48 n] assms(2) by (simp add: bit_unsigned_iff)
  ultimately show "bit (drop_bit INDEX_BITS (push_bit INDEX_BITS g OR of_nat i)) n = bit g n"
    using n by (auto simp: bit_simps)
qed

section \<open>The invariant and the abstract table\<close>

definition heap_ok :: "'a heap \<Rightarrow> bool" where
  "heap_ok h = (
     0 < length (h_slots h) \<and> length (h_slots h) \<le> 65535 \<and> token_offset < h_stride h \<and>
     length (h_generations h) = length (h_slots h) \<and> length (h_live h) = length (h_slots h) \<and>
     (\<forall>i < length (h_slots h). h_live h ! i \<longrightarrow>
        sl_resource (h_slots h ! i) \<noteq> None \<and>
        sl_token (h_slots h ! i) = push_bit INDEX_BITS (h_generations h ! i) OR of_nat i))"

text \<open>Every generation still fits the 48 bits a token has for it.\<close>

definition generations_ok :: "'a heap \<Rightarrow> bool" where
  "generations_ok h = (\<forall>i < length (h_slots h). unat (h_generations h ! i) < 2 ^ 48)"

text \<open>The slots neither free nor in use are the ones reserved, or whose resource is being dropped.\<close>

definition heap_part :: "nat list \<Rightarrow> 'a heap \<Rightarrow> bool" where
  "heap_part R h = (distinct (h_free h @ R) \<and>
     set (h_free h @ R) = {i. i < length (h_slots h) \<and> \<not> h_live h ! i})"

text \<open>What a heap is to its users: a table from slots to resources.\<close>

definition table :: "'a heap \<Rightarrow> nat \<Rightarrow> 'a option" where
  "table h i = (if i < length (h_slots h) \<and> h_live h ! i then sl_resource (h_slots h ! i) else None)"

lemma heap_okD:
  assumes "heap_ok h"
  shows "length (h_slots h) \<le> 65535" "token_offset < h_stride h"
    "length (h_generations h) = length (h_slots h)" "length (h_live h) = length (h_slots h)"
    "i < length (h_slots h) \<Longrightarrow> h_live h ! i \<Longrightarrow>
       sl_token (h_slots h ! i) = push_bit INDEX_BITS (h_generations h ! i) OR of_nat i"
  using assms by (simp_all add: heap_ok_def)

lemma base_index_addr:
  assumes "heap_ok h" "i < length (h_slots h)"
  shows "base_index h (h_start h + i * h_stride h) = Some i"
  using assms by (simp add: base_index_def heap_ok_def Let_def)

lemma payload_index_address:
  assumes "heap_ok h" "i < length (h_slots h)"
  shows "payload_index h (token_address h i) = Some i"
  using base_index_addr [OF assms] by (simp add: payload_index_def token_address_def)

lemma base_index_SomeD:
  assumes "base_index h a = Some i"
  shows "i < length (h_slots h) \<and> a = h_start h + i * h_stride h"
  using assms by (auto simp: base_index_def Let_def split: if_splits)

lemma payload_index_SomeD:
  assumes "payload_index h a = Some i"
  shows "i < length (h_slots h) \<and> a = token_address h i"
  using assms base_index_SomeD [of h "a - token_offset" i]
  by (auto simp: payload_index_def token_address_def split: if_splits)

lemma heap_get_table:
  assumes "heap_ok h" "generations_ok h"
  shows "heap_get h a = (case payload_index h a of None \<Rightarrow> None | Some i \<Rightarrow> table h i)"
proof (cases "payload_index h a")
  case (Some i)
  then have i: "i < length (h_slots h)" using payload_index_SomeD by blast
  then have "i < 65536" "unat (h_generations h ! i) < 2 ^ 48"
    using heap_okD(1) [OF assms(1)] assms(2) by (auto simp: generations_ok_def)
  then have "sl_token (h_slots h ! i) AND INDEX_MASK = of_nat i"
    "drop_bit INDEX_BITS (sl_token (h_slots h ! i)) = h_generations h ! i" if "h_live h ! i"
    using heap_okD(5) [OF assms(1) i that] token_index [of i] token_generation [of i]
    by (simp_all only:)
  then show ?thesis using Some i by (simp add: heap_get_def table_def Let_def)
qed (simp add: heap_get_def)

lemma insert_frame:
  "length (h_slots (snd (heap_insert i r h))) = length (h_slots h)"
  "h_start (snd (heap_insert i r h)) = h_start h" "h_stride (snd (heap_insert i r h)) = h_stride h"
  "h_free (snd (heap_insert i r h)) = h_free h" "h_waiters (snd (heap_insert i r h)) = h_waiters h"
  "payload_index (snd (heap_insert i r h)) a = payload_index h a"
  "fst (heap_insert i r h) = token_address h i"
  by (simp_all add: heap_insert_def Let_def payload_index_def base_index_def)

lemma insert_ok:
  assumes "heap_ok h" "i < length (h_slots h)"
  shows "heap_ok (snd (heap_insert i r h))"
  using assms by (auto simp: heap_ok_def heap_insert_def Let_def nth_list_update)

lemma insert_generations_ok:
  assumes "heap_ok h" "generations_ok h" "i < length (h_slots h)" "unat (h_generations h ! i) + 1 < 2 ^ 48"
  shows "generations_ok (snd (heap_insert i r h))"
proof -
  have "unat (h_generations h ! i + 1) < 2 ^ 48"
    using assms(4) by (simp add: unat_word_ariths)
  then show ?thesis
    using assms(1-3) by (auto simp: generations_ok_def heap_insert_def Let_def nth_list_update heap_okD)
qed

lemma insert_table:
  assumes "heap_ok h" "i < length (h_slots h)"
  shows "table (snd (heap_insert i r h)) = (table h)(i \<mapsto> r)"
  using assms by (auto simp: table_def heap_insert_def Let_def fun_eq_iff nth_list_update heap_okD)

lemma release_frame:
  "length (h_slots (snd (release_begin a h))) = length (h_slots h)"
  "h_start (snd (release_begin a h)) = h_start h" "h_stride (snd (release_begin a h)) = h_stride h"
  "h_free (snd (release_begin a h)) = h_free h" "h_waiters (snd (release_begin a h)) = h_waiters h"
  "h_slots (snd (release_begin a h)) = h_slots h" "h_generations (snd (release_begin a h)) = h_generations h"
  by (simp_all add: release_begin_def split: option.splits)

lemma release_index:
  "base_index (snd (release_begin a h)) b = base_index h b"
  "payload_index (snd (release_begin a h)) b = payload_index h b"
  by (simp_all add: payload_index_def base_index_def release_frame)

lemma nth_update_FalseD: "xs[k := False] ! i \<Longrightarrow> xs ! i"
  by (cases "k = i"; cases "i < length xs") (auto simp: list_update_beyond)

lemma release_ok: "heap_ok h \<Longrightarrow> heap_ok (snd (release_begin a h))"
  by (auto simp: release_begin_def heap_ok_def dest: nth_update_FalseD split: option.splits)

lemma release_table:
  assumes "heap_ok h"
  shows "table (snd (release_begin a h)) =
    (case base_index h a of None \<Rightarrow> table h | Some i \<Rightarrow> (table h)(i := None))"
  using assms base_index_SomeD [of h a]
  by (auto simp: release_begin_def table_def fun_eq_iff nth_list_update heap_okD split: option.splits)

lemma heap_insert_get:
  assumes "heap_ok h" "generations_ok h" "heap_part R h" "i \<in> set R"
    and "unat (h_generations h ! i) + 1 < 2 ^ 48"
  shows "let (a, h') = heap_insert i r h
    in heap_get h' a = Some r \<and> (\<forall>b. b \<noteq> a \<longrightarrow> heap_get h' b = heap_get h b)"
proof -
  have i: "i < length (h_slots h)" using assms(3,4) by (auto simp: heap_part_def)
  let ?h = "snd (heap_insert i r h)"
  note g = heap_get_table [OF insert_ok [OF assms(1) i] insert_generations_ok [OF assms(1,2) i assms(5)], of r]
  have "heap_get ?h (token_address h i) = Some r"
    by (simp add: g insert_frame payload_index_address [OF assms(1) i] insert_table [OF assms(1) i])
  moreover have "heap_get ?h b = heap_get h b" if "b \<noteq> token_address h i" for b
  proof -
    have "payload_index h b \<noteq> Some i" using payload_index_SomeD that by blast
    then show ?thesis
      by (simp add: g heap_get_table [OF assms(1,2)] insert_frame insert_table [OF assms(1) i] split: option.splits)
  qed
  ultimately show ?thesis by (simp add: case_prod_beta insert_frame)
qed

text \<open>
  C15. A resource put into a reserved slot is what its handle resolves to, and no other handle is
  affected: every other address resolves to what it did before.  The bound is the 48 bits that a
  token has for the slot's generation.
\<close>

theorem insert_get:
  assumes "heap_ok h" "generations_ok h" "heap_part R h" "i \<in> set R"
    and "unat (h_generations h ! i) + 1 < 2 ^ 48"
  shows "let (a, h') = heap_insert i r h
    in heap_get h' a = Some r \<and> (\<forall>b. b \<noteq> a \<longrightarrow> heap_get h' b = heap_get h b)"
  using heap_insert_get [OF assms] .

lemma release_eq:
  "release me a h s = (case release_begin a h of
     (Dropping i r, h1) \<Rightarrow> (Dropping i r, h1\<lparr>h_free := h_free h @ [i], h_waiters := fst (wake_one me (h_waiters h) s)\<rparr>,
       snd (wake_one me (h_waiters h) s))
   | (out, h1) \<Rightarrow> (out, h1, s))"
  using release_frame(4,5) [of a h]
  by (cases "release_begin a h") (simp add: release_def free_slot_def case_prod_beta Let_def split: released.splits)

lemma base_index_free [simp]: "base_index (h\<lparr>h_free := f\<rparr>) b = base_index h b" "base_index (h\<lparr>h_waiters := ws\<rparr>) b = base_index h b"
  "base_index (h\<lparr>h_live := l\<rparr>) b = base_index h b"
  by (simp_all add: base_index_def)

lemma payload_index_free [simp]: "payload_index (h\<lparr>h_free := f\<rparr>) b = payload_index h b" "payload_index (h\<lparr>h_waiters := ws\<rparr>) b = payload_index h b"
  by (simp_all add: payload_index_def)

lemma heap_get_free [simp]: "heap_get (h\<lparr>h_free := f\<rparr>) b = heap_get h b" "heap_get (h\<lparr>h_waiters := ws\<rparr>) b = heap_get h b"
  by (simp_all add: heap_get_def Let_def split: option.splits)

lemma release_begin_gets:
  assumes "heap_ok h" "generations_ok h" "i < length (h_slots h)" "heap_get h (token_address h i) = Some r"
  defines "a \<equiv> token_address h i - 8"
  shows "release_begin a h = (Dropping i (Some r), h\<lparr>h_live := (h_live h)[i := False]\<rparr>)"
    "heap_get (h\<lparr>h_live := (h_live h)[i := False]\<rparr>) b = (if b = token_address h i then None else heap_get h b)"
    "base_index h a = Some i"
proof -
  have a: "a = h_start h + i * h_stride h" by (simp add: a_def token_address_def)
  show bi: "base_index h a = Some i" using base_index_addr [OF assms(1,3)] by (simp add: a)
  have t: "table h i = Some r" using assms(4) heap_get_table [OF assms(1,2)] payload_index_address [OF assms(1,3)] by simp
  then have lv: "h_live h ! i" "sl_resource (h_slots h ! i) = Some r" by (auto simp: table_def split: if_splits)
  then show rb: "release_begin a h = (Dropping i (Some r), h\<lparr>h_live := (h_live h)[i := False]\<rparr>)"
    using bi by (simp add: release_begin_def)
  let ?h = "snd (release_begin a h)"
  have ok: "heap_ok ?h" "generations_ok ?h"
    using release_ok [OF assms(1)] assms(2) by (simp_all add: generations_ok_def release_frame)
  have g: "heap_get ?h b = (case payload_index h b of None \<Rightarrow> None | Some j \<Rightarrow> ((table h)(i := None)) j)"
    unfolding heap_get_table [OF ok] release_index release_table [OF assms(1)] bi option.case by (rule refl)
  have "heap_get ?h b = (if b = token_address h i then None else heap_get h b)"
  proof (cases "b = token_address h i")
    case True
    then show ?thesis using g payload_index_address [OF assms(1,3)] by simp
  next
    case False
    then have "payload_index h b \<noteq> Some i" using payload_index_SomeD by blast
    then show ?thesis using g False by (simp add: heap_get_table [OF assms(1,2)] split: option.splits)
  qed
  then show "heap_get (h\<lparr>h_live := (h_live h)[i := False]\<rparr>) b = (if b = token_address h i then None else heap_get h b)"
    by (simp add: rb)
qed

lemma release_begin_result: "release_result (fst (release_begin a h)) \<longleftrightarrow> base_index h a \<noteq> None \<or> contains h a"
  by (simp add: release_begin_def split: option.splits)

text \<open>
  C16. What freeing an address does.  The address of a slot in use gives back exactly the resource
  behind its handle, after which the handle resolves to nothing and every other handle to what it
  did, the slot is on the list of free ones, where the next reservation takes it, and one of those
  waiting for a slot is woken; freeing the slot again before it is reused, or an address inside the heap
  that is no slot's, changes nothing; and an address outside the heap is refused, so that ordinary
  memory is freed as usual.
\<close>

theorem release_exact:
  assumes "heap_ok h" "generations_ok h"
  shows "(\<forall>i r. i < length (h_slots h) \<longrightarrow> heap_get h (token_address h i) = Some r \<longrightarrow>
      (let (out, h', s') = release me (token_address h i - 8) h s
       in out = Dropping i (Some r) \<and> heap_get h' (token_address h i) = None \<and>
          (\<forall>b. b \<noteq> token_address h i \<longrightarrow> heap_get h' b = heap_get h b) \<and>
          h_free h' = h_free h @ [i] \<and> try_reserve h' = Some (i, h'\<lparr>h_free := h_free h\<rparr>) \<and>
          (h_waiters h', s') = wake_one me (h_waiters h) s \<and>
          release me (token_address h i - 8) h' s' = (ReleasedTwice i, h', s'))) \<and>
    (\<forall>a. (\<forall>i < length (h_slots h). a \<noteq> token_address h i - 8) \<longrightarrow>
      release me a h s = (if contains h a then InsideHeap else NotOurs, h, s)) \<and>
    (\<forall>a. release_result (fst (release me a h s)) = contains h a)"
proof (intro conjI allI impI)
  fix i r
  assume i: "i < length (h_slots h)" and get: "heap_get h (token_address h i) = Some r"
  note g = release_begin_gets [OF assms i get]
  let ?a = "token_address h i - 8"
  define h' where "h' = h\<lparr>h_live := (h_live h)[i := False], h_free := h_free h @ [i], h_waiters := fst (wake_one me (h_waiters h) s)\<rparr>"
  have r: "release me ?a h s = (Dropping i (Some r), h', snd (wake_one me (h_waiters h) s))"
    using g(1) by (simp add: release_eq h'_def)
  have "base_index h' ?a = Some i" using g(3) by (simp add: h'_def)
  moreover have "\<not> h_live h' ! i" using i heap_okD(4) [OF assms(1)] by (simp add: h'_def)
  ultimately have "release me ?a h' s' = (ReleasedTwice i, h', s')" for s' by (simp add: release_eq release_begin_def)
  moreover have "heap_get h' b = (if b = token_address h i then None else heap_get h b)" for b using g(2) by (simp add: h'_def)
  moreover have "try_reserve h' = Some (i, h'\<lparr>h_free := h_free h\<rparr>)" by (simp add: try_reserve_def vec_pop_def h'_def)
  ultimately show "let (out, h', s') = release me ?a h s
       in out = Dropping i (Some r) \<and> heap_get h' (token_address h i) = None \<and>
          (\<forall>b. b \<noteq> token_address h i \<longrightarrow> heap_get h' b = heap_get h b) \<and>
          h_free h' = h_free h @ [i] \<and> try_reserve h' = Some (i, h'\<lparr>h_free := h_free h\<rparr>) \<and>
          (h_waiters h', s') = wake_one me (h_waiters h) s \<and> release me ?a h' s' = (ReleasedTwice i, h', s')"
    by (simp add: r) (simp add: h'_def)
next
  fix a
  assume "\<forall>i < length (h_slots h). a \<noteq> token_address h i - 8"
  then have "base_index h a = None"
    using base_index_SomeD [of h a] by (cases "base_index h a") (auto simp: token_address_def)
  then show "release me a h s = (if contains h a then InsideHeap else NotOurs, h, s)"
    by (simp add: release_def release_begin_def)
next
  fix a
  have "contains h a" if "base_index h a = Some i" for i
  proof -
    have "i < length (h_slots h)" "a = h_start h + i * h_stride h" using base_index_SomeD [OF that] by auto
    then show ?thesis using heap_okD(2) [OF assms(1)] by (simp add: contains_def)
  qed
  moreover have "release_result (fst (release me a h s)) = release_result (fst (release_begin a h))"
    by (cases "release_begin a h") (simp add: release_eq split: released.splits)
  ultimately show "release_result (fst (release me a h s)) = contains h a"
    using release_begin_result [of a h] by auto
qed

section \<open>Slots over time\<close>

text \<open>
  A heap in use, with the slots that are reserved or whose resource is being dropped: slots are
  claimed at once or after waiting, filled, given back unused, and released.
\<close>

inductive heap_step ::
  "('a heap \<times> nat list) \<times> sched \<times> parked \<Rightarrow> ('a heap \<times> nat list) \<times> sched \<times> parked \<Rightarrow> bool" where
  tries: "try_reserve h = Some (i, h') \<Longrightarrow> heap_step ((h, R), s, P) ((h', i # R), s, P)"
| reserves: "reserve_attempt me (InTask t) h s = Inl (i, h') \<Longrightarrow> heap_step ((h, R), s, P) ((h', i # R), s, P)"
| waits: "t \<notin> fst ` set P \<Longrightarrow> reserve_attempt me (InTask t) h s = Inr (i, h', s') \<Longrightarrow>
    heap_step ((h, R), s, P) ((h', R), s', P @ [(t, i, next_wait s)])"
| back_reserves: "(t, i, w) \<in> set P \<Longrightarrow>
    reserve_again me (InTask t) i (woken_as s t) h s = (h1, Some (Inl (j, h'))) \<Longrightarrow>
    heap_step ((h, R), s, P) ((h', j # R), s, unpark t P)"
| back_waits: "(t, i, w) \<in> set P \<Longrightarrow>
    reserve_again me (InTask t) i (woken_as s t) h s = (h1, Some (Inr (j, h', s'))) \<Longrightarrow>
    heap_step ((h, R), s, P) ((h', R), s', unpark t P @ [(t, j, next_wait s)])"
| back_cancelled: "(t, i, w) \<in> set P \<Longrightarrow> reserve_again me (InTask t) i (woken_as s t) h s = (h1, None) \<Longrightarrow>
    heap_step ((h, R), s, P) ((h1, R), s, unpark t P)"
| inserts: "i \<in> set R \<Longrightarrow> heap_step ((h, R), s, P) ((snd (heap_insert i r h), remove1 i R), s, P)"
| frees: "i \<in> set R \<Longrightarrow> free_slot me i h s = (h', s') \<Longrightarrow> heap_step ((h, R), s, P) ((h', remove1 i R), s', P)"
| releases: "release_begin a h = (Dropping i r, h') \<Longrightarrow> heap_step ((h, R), s, P) ((h', i # R), s, P)"
| refuses: "release_begin a h = (out, h') \<Longrightarrow> \<forall>i r. out \<noteq> Dropping i r \<Longrightarrow>
    heap_step ((h, R), s, P) ((h', R), s, P)"
| other: "undisturbed P s s' \<Longrightarrow> heap_step ((h, R), s, P) ((h, R), s', P)"

definition heap_inv :: "'a heap \<times> nat list \<Rightarrow> bool" where
  "heap_inv c = (heap_ok (fst c) \<and> heap_part (snd c) (fst c))"

lemma try_reserve_Some:
  "try_reserve h = Some (i, h') \<longleftrightarrow> h_free h \<noteq> [] \<and> i = last (h_free h) \<and> h' = h\<lparr>h_free := butlast (h_free h)\<rparr>"
  by (auto simp: try_reserve_def vec_pop_def)

lemma heap_ok_free [simp]: "heap_ok (h\<lparr>h_free := f\<rparr>) = heap_ok h" "heap_ok (h\<lparr>h_waiters := ws\<rparr>) = heap_ok h"
  by (simp_all add: heap_ok_def)

lemma heap_part_waiters [simp]: "heap_part R (h\<lparr>h_waiters := ws\<rparr>) = heap_part R h"
  by (simp add: heap_part_def)

lemma heap_inv_waiters [simp]: "heap_inv (h\<lparr>h_waiters := ws\<rparr>, R) = heap_inv (h, R)"
  by (simp add: heap_inv_def)

lemma take_free_inv:
  assumes "heap_inv (h, R)" "h_free h \<noteq> []"
  shows "heap_inv (h\<lparr>h_free := butlast (h_free h)\<rparr>, last (h_free h) # R)"
proof -
  have f: "h_free h = butlast (h_free h) @ [last (h_free h)]" using assms(2) by simp
  have "distinct ((butlast (h_free h) @ [last (h_free h)]) @ R)"
    "set ((butlast (h_free h) @ [last (h_free h)]) @ R) = {i. i < length (h_slots h) \<and> \<not> h_live h ! i}"
    using assms(1) f unfolding heap_inv_def heap_part_def by auto
  then show ?thesis using assms(1) by (simp add: heap_inv_def heap_part_def del: append_butlast_last_id)
qed

lemma give_free_inv:
  assumes "heap_inv (h, R)" "i \<in> set R"
  shows "heap_inv (h\<lparr>h_free := h_free h @ [i]\<rparr>, remove1 i R)"
proof -
  have "distinct R" using assms(1) by (simp add: heap_inv_def heap_part_def)
  then have "set (remove1 i R) = set R - {i}" by simp
  then show ?thesis using assms by (auto simp: heap_inv_def heap_part_def)
qed

lemma insert_inv:
  assumes "heap_inv (h, R)" "i \<in> set R"
  shows "heap_inv (snd (heap_insert i r h), remove1 i R)"
proof -
  have R: "distinct R" "i < length (h_slots h)" "i \<notin> set (h_free h)" using assms by (auto simp: heap_inv_def heap_part_def)
  then have "set (remove1 i R) = set R - {i}" by simp
  moreover have "heap_ok (snd (heap_insert i r h))" using insert_ok R(2) assms(1) by (auto simp: heap_inv_def)
  moreover have "{j. j < length (h_slots h) \<and> \<not> (h_live h)[i := True] ! j} =
      {j. j < length (h_slots h) \<and> \<not> h_live h ! j} - {i}"
    using R(2) assms(1) by (auto simp: nth_list_update heap_inv_def heap_okD)
  moreover have "h_live (snd (heap_insert i r h)) = (h_live h)[i := True]" by (simp add: heap_insert_def Let_def)
  ultimately show ?thesis
    using assms R by (auto simp: heap_inv_def heap_part_def insert_frame)
qed

lemma release_inv:
  assumes "heap_inv (h, R)" "release_begin a h = (Dropping i r, h')"
  shows "heap_inv (h', i # R)"
proof -
  have bi: "base_index h a = Some i" and lv: "h_live h ! i" and h': "h' = h\<lparr>h_live := (h_live h)[i := False]\<rparr>"
    using assms(2) by (auto simp: release_begin_def split: option.splits if_splits)
  have i: "i < length (h_slots h)" using base_index_SomeD [OF bi] by simp
  have "heap_ok h'" using release_ok [of h a] assms by (simp add: heap_inv_def)
  moreover have "{j. j < length (h_slots h) \<and> \<not> (h_live h)[i := False] ! j} =
      insert i {j. j < length (h_slots h) \<and> \<not> h_live h ! j}"
    using i assms(1) by (auto simp: nth_list_update heap_inv_def heap_okD)
  moreover have "i \<notin> set (h_free h @ R)" using assms(1) lv unfolding heap_inv_def heap_part_def by auto
  ultimately show ?thesis
    using assms(1) by (auto simp: heap_inv_def heap_part_def h')
qed

lemma reserve_attempt_eq:
  "reserve_attempt me (InTask t) h s =
     (if h_free h \<noteq> [] then Inl (last (h_free h), h\<lparr>h_free := butlast (h_free h)\<rparr>)
      else case add_waiter me (InTask t) True (h_waiters h) s of
             (i, ws, s') \<Rightarrow> Inr (i, h\<lparr>h_waiters := ws\<rparr>, s'))"
  by (simp add: reserve_attempt_def try_reserve_def vec_pop_def)

lemma heap_step_inv:
  assumes "heap_step (c, s, P) (c', s', P')" "heap_inv c"
  shows "heap_inv c'"
  using assms
proof (cases rule: heap_step.cases)
  case (refuses a h out)
  then show ?thesis using assms(2) by (auto simp: release_begin_def split: option.splits if_splits)
next
  case (back_reserves t i w me h h1 j h' R)
  then have "heap_inv (h\<lparr>h_waiters := remove_waiter i (h_waiters h)\<rparr>, R)" using assms(2) by simp
  from take_free_inv [OF this] back_reserves show ?thesis
    by (auto simp: reserve_again_def reserve_attempt_eq Let_def split: if_splits prod.splits)
qed (auto simp: try_reserve_Some reserve_attempt_eq reserve_again_def free_slot_def Let_def
    take_free_inv give_free_inv insert_inv release_inv
    split: if_splits prod.splits)

definition heap_room :: "'a heap \<times> nat list \<Rightarrow> nat" where
  "heap_room c = length (h_free (fst c))"

lemma heap_step_guard:
  assumes "heap_step (c, s, P) (c', s', P')"
  shows "guard_step\<^sup>*\<^sup>* (heap_room c, h_waiters (fst c), s, P) (heap_room c', h_waiters (fst c'), s', P')"
  using assms
proof (cases rule: heap_step.cases)
  case (inserts i R h r)
  then show ?thesis by (simp add: heap_room_def insert_frame)
next
  case (releases a h i r h' R)
  then show ?thesis using release_frame(4,5) [of a h] by (simp add: heap_room_def)
next
  case (refuses a h out h' R)
  then show ?thesis using release_frame(4,5) [of a h] by (simp add: heap_room_def)
qed (auto simp: heap_room_def try_reserve_Some reserve_attempt_eq reserve_again_def free_slot_def Let_def
    split: if_splits prod.splits
    intro!: r_into_rtranclp intro: guard_step.intros guard_take guard_back_take)

definition heap_init :: "'a heap \<times> nat list \<Rightarrow> bool" where
  "heap_init c = (\<exists>start stride capacity. token_offset < stride \<and>
     heap_new start stride capacity = Some (fst c) \<and> snd c = [])"

lemma index_mask: "unat INDEX_MASK = 65535"
  by (simp add: mask_eq_exp_minus_1)

lemma heap_new_inv: "heap_init c \<Longrightarrow> heap_inv c \<and> h_waiters (fst c) = waiters_new"
proof -
  assume "heap_init c"
  then show ?thesis
    using index_mask by (cases c) (auto simp: heap_init_def heap_new_def heap_inv_def heap_ok_def heap_part_def split: if_splits)
qed

interpretation hp: guarded heap_room "\<lambda>c. h_waiters (fst c)" heap_step "\<lambda>c s P. heap_inv c"
    "\<lambda>c s. heap_init c"
  by unfold_locales (simp_all add: heap_step_guard heap_new_inv heap_step_inv)

lemma heap_count:
  assumes "heap_inv (h, R)"
  shows "length (h_free h) + length R + length (filter (\<lambda>i. h_live h ! i) [0..<length (h_slots h)]) = length (h_slots h)"
proof -
  let ?n = "length (h_slots h)"
  have "distinct (h_free h @ R)" "set (h_free h @ R) = {i. i < ?n \<and> \<not> h_live h ! i}"
    using assms unfolding heap_inv_def heap_part_def by auto
  then have "length (h_free h @ R) = card {i. i < ?n \<and> \<not> h_live h ! i}" by (metis distinct_card)
  also have "{i. i < ?n \<and> \<not> h_live h ! i} = set (filter (\<lambda>i. \<not> h_live h ! i) [0..<?n])" by auto
  also have "card \<dots> = length (filter (\<lambda>i. \<not> h_live h ! i) [0..<?n])"
    by (rule distinct_card) (simp add: distinct_filter)
  finally show ?thesis using sum_length_filter_compl [of "\<lambda>i. h_live h ! i" "[0..<?n]"] by simp
qed

text \<open>
  C17. No slot is ever lost or handed out twice: from an empty heap on, every slot is free, reserved
  (or having its resource dropped) or in use, and exactly one of these; and a task sleeping in
  \<^verbatim>\<open>reserve\<close> is not left there while slots are free, unless as many woken tasks are on their way to
  claim them.
\<close>

theorem slots_conserved_and_wake:
  assumes "heap_init (h0, [])" "0 < next_wait s0" "heap_step\<^sup>*\<^sup>* ((h0, []), s0, []) ((h, R), s, P)"
  shows "length (h_free h) + length R + length (filter (\<lambda>i. h_live h ! i) [0..<length (h_slots h)]) =
      length (h_slots h) \<and>
    distinct (h_free h @ R) \<and> (\<forall>i \<in> set (h_free h @ R). \<not> h_live h ! i) \<and>
    ((i, TaskWaker t w) \<in> set (wl_list (h_waiters h)) \<longrightarrow> t_wait (tasks s t) = w \<longrightarrow>
       length (h_free h) \<le> length (filter (returning s) P))"
proof -
  have inv: "heap_inv (h, R)" by (rule hp.reachable_inv [OF assms])
  then have "distinct (h_free h @ R) \<and> (\<forall>i \<in> set (h_free h @ R). \<not> h_live h ! i)"
    unfolding heap_inv_def heap_part_def by auto
  then show ?thesis
    using heap_count [OF inv] hp.no_lost_notification [OF assms] by (auto simp: heap_room_def)
qed

section \<open>The heaps of the program\<close>

text \<open>
  \<^verbatim>\<open>heap()\<close> in \<^verbatim>\<open>sockets.rs\<close>, \<^verbatim>\<open>channels.rs\<close> and \<^verbatim>\<open>tasks.rs\<close>: the number of slots each asks for, from the
  limits.
\<close>

definition socket_slots :: "env \<Rightarrow> nat" where
  "socket_slots e = fst (max_sockets e)"

definition channel_slots :: "env \<Rightarrow> nat" where
  "channel_slots e = fst (max_channels e) * 2"

definition task_slots :: "env \<Rightarrow> nat" where
  "task_slots e = min (fst (max_tasks e)) 65535"

text \<open>
  No setting of the limits makes the program's heaps fail their startup assertion (at least one
  slot, and few enough for a 16-bit index): whatever the environment says, the socket, channel and
  task heaps are created.
\<close>

lemma heaps_created:
  "heap_new start stride (socket_slots e) \<noteq> (None :: 'a heap option) \<and>
   heap_new start stride (channel_slots e) \<noteq> (None :: 'b heap option) \<and>
   heap_new start stride (task_slots e) \<noteq> (None :: 'c heap option)"
proof -
  have "socket_slots e \<in> {1..65535}" "channel_slots e \<in> {1..65535}" "task_slots e \<in> {1..65535}"
    using from_env_bounds [of 1 16384 65535 e "lit ''ROC_NET_MAX_SOCKETS''"]
      from_env_bounds [of 1 8192 32767 e "lit ''ROC_NET_MAX_CHANNELS''"]
      from_env_bounds [of 1 100000 usize_max e "lit ''ROC_NET_MAX_TASKS''"]
    by (auto simp: socket_slots_def channel_slots_def task_slots_def op_defs)
  then show ?thesis by (simp add: heap_new_def index_mask)
qed

section \<open>A handle outliving its slot\<close>

lemma release_live:
  assumes "heap_ok h" "i < length (h_slots h)" "table h i = Some r"
  shows "fst (release_begin (token_address h i - 8) h) = Dropping i (Some r)"
    "table (snd (release_begin (token_address h i - 8) h)) = (table h)(i := None)"
proof -
  have bi: "base_index h (token_address h i - 8) = Some i"
    using base_index_addr [OF assms(1,2)] by (simp add: token_address_def)
  then show "table (snd (release_begin (token_address h i - 8) h)) = (table h)(i := None)"
    using release_table [OF assms(1)] by simp
  show "fst (release_begin (token_address h i - 8) h) = Dropping i (Some r)"
    using assms(3) bi by (auto simp: release_begin_def table_def split: if_splits)
qed

lemma token_address_frame:
  "token_address (snd (heap_insert i r h)) = token_address h"
  "token_address (snd (release_begin a h)) = token_address h"
  by (simp_all add: token_address_def fun_eq_iff insert_frame release_frame)

text \<open>
  A stale handle is not rejected once its slot is reused.  Insert a resource, release it, and
  insert another into the same slot: the second insertion returns the same address, and the old
  handle resolves to the new resource, because the token that is checked is read from the slot and
  not from the handle.
\<close>

lemma stale_handle_resolves:
  assumes "heap_ok h" "generations_ok h" "heap_part R h" "i \<in> set R"
    and "unat (h_generations h ! i) + 2 < 2 ^ 48"
  shows "let (a, h1) = heap_insert i r h;
      (out, h2) = release_begin (a - 8) h1;
      (b, h3) = heap_insert i r' h2
    in out = Dropping i (Some r) \<and> b = a \<and> heap_get h2 a = None \<and> heap_get h3 a = Some r'"
proof -
  let ?a = "token_address h i"
  define h1 where "h1 = snd (heap_insert i r h)"
  define h2 where "h2 = snd (release_begin (?a - 8) h1)"
  have i: "i < length (h_slots h)" using assms(3,4) by (auto simp: heap_part_def)
  have ok1: "heap_ok h1" "generations_ok h1" and i1: "i < length (h_slots h1)" and t1: "table h1 i = Some r"
    using insert_ok [OF assms(1) i] insert_generations_ok [OF assms(1,2) i] assms(5) i insert_table [OF assms(1) i]
    by (simp_all add: h1_def insert_frame)
  have a1: "token_address h1 i = ?a" by (simp add: h1_def token_address_frame)
  note rel = release_live [OF ok1(1) i1 t1, unfolded a1, folded h2_def]
  have ok2: "heap_ok h2" "generations_ok h2" and i2: "i < length (h_slots h2)"
    using release_ok [OF ok1(1)] ok1(2) i1 by (simp_all add: h2_def generations_ok_def release_frame)
  have a2: "token_address h2 i = ?a" by (simp add: h2_def token_address_frame a1)
  have "h_generations h2 ! i = h_generations h ! i + 1"
    using i heap_okD(3) [OF assms(1)] by (simp add: h2_def release_frame h1_def heap_insert_def Let_def)
  then have g2: "unat (h_generations h2 ! i) + 1 < 2 ^ 48" using assms(5) by (simp add: unat_word_ariths)
  let ?h3 = "snd (heap_insert i r' h2)"
  have "heap_get ?h3 ?a = Some r'"
    using heap_get_table [OF insert_ok [OF ok2(1) i2, of r'] insert_generations_ok [OF ok2 i2 g2, of r'], of ?a]
      payload_index_address [OF ok2(1) i2] insert_table [OF ok2(1) i2] by (simp add: insert_frame a2)
  moreover have "heap_get h2 ?a = None"
    using heap_get_table [OF ok2] payload_index_address [OF ok2(1) i2] rel(2) by (simp add: a2)
  ultimately show ?thesis
    using rel(1) a2 by (simp add: case_prod_beta insert_frame h1_def [symmetric] h2_def [symmetric])
qed

section \<open>Examples\<close>

definition demo_heap :: "nat heap" where
  "demo_heap = \<lparr>h_start = 1000, h_stride = 24,
     h_slots = replicate 2 \<lparr>sl_refcount = 0, sl_token = 0, sl_resource = None\<rparr>,
     h_free = [1], h_generations = [0, 0], h_live = [False, False], h_waiters = waiters_new\<rparr>"

lemma demo_heap_ok: "heap_ok demo_heap" "generations_ok demo_heap" "heap_part [0] demo_heap"
  by (auto simp: demo_heap_def heap_ok_def generations_ok_def heap_part_def numeral_2_eq_2 less_Suc_eq)

definition demo_heap1 :: "nat heap" where
  "demo_heap1 = \<lparr>h_start = 1000, h_stride = 24,
     h_slots = [\<lparr>sl_refcount = 1, sl_token = 65536, sl_resource = Some 7\<rparr>,
                \<lparr>sl_refcount = 0, sl_token = 0, sl_resource = None\<rparr>],
     h_free = [1], h_generations = [1, 0], h_live = [True, False], h_waiters = waiters_new\<rparr>"

lemma demo_insert: "heap_insert 0 7 demo_heap = (1008, demo_heap1)"
  by (simp add: heap_insert_def demo_heap_def demo_heap1_def token_address_def numeral_2_eq_2)

theorem insert_get_witness: "heap_get (snd (heap_insert 0 7 demo_heap)) 1008 = Some 7"
  using insert_get [OF demo_heap_ok, of 0 7] by (simp add: demo_insert) (simp add: demo_heap_def)

theorem release_exact_witness:
  "fst (release None 1000 (snd (heap_insert 0 7 demo_heap)) demo_start) = Dropping 0 (Some 7) \<and>
   h_free (fst (snd (release None 1000 (snd (heap_insert 0 7 demo_heap)) demo_start))) = [1, 0] \<and>
   release None 5 (snd (heap_insert 0 7 demo_heap)) demo_start = (NotOurs, snd (heap_insert 0 7 demo_heap), demo_start)"
proof -
  let ?h = "snd (heap_insert 0 7 demo_heap)"
  have l: "0 < length (h_slots demo_heap)" "unat (h_generations demo_heap ! 0) + 1 < 2 ^ 48"
    by (simp_all add: demo_heap_def)
  have ok: "heap_ok ?h" "generations_ok ?h"
    using insert_ok [OF demo_heap_ok(1) l(1)] insert_generations_ok [OF demo_heap_ok(1,2) l] by auto
  have "heap_get ?h 1008 = Some 7" "token_address ?h 0 = 1008" "length (h_slots ?h) = 2" "h_free ?h = [1]"
    "token_address ?h 1 = 1032" "\<not> contains ?h 5"
    by (simp_all add: demo_insert demo_heap1_def heap_get_def payload_index_def base_index_def token_address_def
        contains_def mask_eq_exp_minus_1)
  moreover note release_exact [OF ok, of None demo_start]
  ultimately show ?thesis by (auto simp: case_prod_beta Let_def less_2_cases_iff)
qed

text \<open>The only slot is reserved, tasks 2 and 3 wait for one, and it is given back.\<close>

definition demo_slot :: "nat list \<Rightarrow> waiters \<Rightarrow> nat heap" where
  "demo_slot free ws = \<lparr>h_start = 1000, h_stride = 24, h_slots = [\<lparr>sl_refcount = 0, sl_token = 0, sl_resource = None\<rparr>],
     h_free = free, h_generations = [0], h_live = [False], h_waiters = ws\<rparr>"

lemma demo_slot_run:
  "heap_step\<^sup>*\<^sup>* ((demo_slot [0] waiters_new, []), demo_start, [])
     ((demo_slot [0] (demo_two\<lparr>wl_list := [(2, TaskWaker 3 2)]\<rparr>), []),
      snd (wake None 2 1 WReady demo_two_wait), [(2, 1, 1), (3, 2, 2)])"
proof -
  let ?s1 = "snd (begin_wait None 2 True demo_start)"
  let ?one = "\<lparr>wl_list = [(1, TaskWaker 2 1)], wl_next = 1\<rparr>"
  have 1: "heap_step ((demo_slot [0] waiters_new, []), demo_start, []) ((demo_slot [] waiters_new, [0]), demo_start, [])"
    by (rule heap_step.tries) (simp add: try_reserve_Some demo_slot_def)
  have 2: "heap_step ((demo_slot [] waiters_new, [0]), demo_start, []) ((demo_slot [] ?one, [0]), ?s1, [] @ [(2, 1, next_wait demo_start)])"
    by (rule heap_step.waits [where me = None])
      (simp_all add: reserve_attempt_eq demo_slot_def add_waiter_task waiters_new_def demo_start_simps [unfolded One_nat_def])
  have 3: "heap_step ((demo_slot [] ?one, [0]), ?s1, [(2, 1, 1)])
      ((demo_slot [] demo_two, [0]), demo_two_wait, [(2, 1, 1)] @ [(3, 2, next_wait ?s1)])"
    by (rule heap_step.waits [where me = None])
      (simp_all add: reserve_attempt_eq demo_slot_def add_waiter_task demo_waits demo_two_def demo_two_wait_def)
  have "heap_step ((demo_slot [] demo_two, [0]), demo_two_wait, [(2, 1, 1), (3, 2, 2)])
      ((demo_slot [0] (demo_two\<lparr>wl_list := [(2, TaskWaker 3 2)]\<rparr>), remove1 0 [0]),
       snd (wake None 2 1 WReady demo_two_wait), [(2, 1, 1), (3, 2, 2)])"
    by (rule heap_step.frees [where me = None]) (simp_all add: free_slot_def demo_slot_def demo_wake)
  then show ?thesis using 1 2 3 by (simp add: demo_start_simps demo_waits del: One_nat_def)
qed

theorem slots_conserved_and_wake_witness:
  "length (h_free (demo_slot [0] (demo_two\<lparr>wl_list := [(2, TaskWaker 3 2)]\<rparr>))) = 1 \<and>
   t_wait (tasks (snd (wake None 2 1 WReady demo_two_wait)) 3) = 2 \<and>
   1 \<le> length (filter (returning (snd (wake None 2 1 WReady demo_two_wait))) [(2, 1, 1), (3, 2, 2)])"
proof -
  have "heap_new 1000 24 1 = Some (demo_slot [0] waiters_new)"
    by (simp add: heap_new_def demo_slot_def index_mask)
  then have i: "heap_init (demo_slot [0] waiters_new, [])"
    unfolding heap_init_def by (intro exI [of _ 1000] exI [of _ 24] exI [of _ 1]) simp
  have "t_wait (tasks (snd (wake None 2 1 WReady demo_two_wait)) 3) = 2" by (simp add: wake_wait demo_waits)
  moreover note slots_conserved_and_wake [OF i _ demo_slot_run, of 2 3 2]
  ultimately show ?thesis by (simp add: demo_start_simps demo_slot_def demo_two_def)
qed

lemma stale_handle_resolves_example:
  "heap_get (snd (heap_insert 0 8 (snd (release_begin 1000 (snd (heap_insert 0 7 demo_heap)))))) 1008 = Some 8"
  using stale_handle_resolves [OF demo_heap_ok, of 0 7 8]
  by (simp add: demo_insert case_prod_beta Let_def) (simp add: demo_heap_def)

end
