(* ===== verification/Channels.thy ===== *)
theory Channels
  imports Resource
begin

text \<open>
  Bounded channels between tasks (\<^verbatim>\<open>src/channels.rs\<close>): the channel's state, sending, receiving,
  closing and the watchers of a \<^verbatim>\<open>Select\<close>; then the two ends as host resources.  The values are
  Roc closures, which the host only moves, so their type is a parameter.
\<close>

section \<open>State\<close>

record 'v chan =
  c_queue :: "'v list"
  c_capacity :: nat
  c_sending_closed :: bool
  c_receiver_gone :: bool
  c_receivers :: waiters
  c_senders :: waiters
  c_receive_watchers :: waiters
  c_send_watchers :: waiters

text \<open>The channel that \<^verbatim>\<open>roc_channel_new\<close> creates.\<close>

definition chan_new :: "u64 \<Rightarrow> 'v chan" where
  "chan_new capacity =
     \<lparr>c_queue = [], c_capacity = unat (max capacity 1), c_sending_closed = False, c_receiver_gone = False,
      c_receivers = waiters_new, c_senders = waiters_new,
      c_receive_watchers = waiters_new, c_send_watchers = waiters_new\<rparr>"

definition value_added :: "nat option \<Rightarrow> 'v chan \<Rightarrow> sched \<Rightarrow> 'v chan \<times> sched" where
  "value_added me c s =
     (let (r, s1) = wake_one me (c_receivers c) s;
          (w, s2) = wake_all me (c_receive_watchers c) s1
      in (c\<lparr>c_receivers := r, c_receive_watchers := w\<rparr>, s2))"

definition room_made :: "nat option \<Rightarrow> 'v chan \<Rightarrow> sched \<Rightarrow> 'v chan \<times> sched" where
  "room_made me c s =
     (let (r, s1) = wake_one me (c_senders c) s;
          (w, s2) = wake_all me (c_send_watchers c) s1
      in (c\<lparr>c_senders := r, c_send_watchers := w\<rparr>, s2))"

definition wake_everyone :: "nat option \<Rightarrow> 'v chan \<Rightarrow> sched \<Rightarrow> 'v chan \<times> sched" where
  "wake_everyone me c s =
     (let (r, s1) = wake_all me (c_receivers c) s;
          (t, s2) = wake_all me (c_senders c) s1;
          (v, s3) = wake_all me (c_receive_watchers c) s2;
          (w, s4) = wake_all me (c_send_watchers c) s3
      in (c\<lparr>c_receivers := r, c_senders := t, c_receive_watchers := v, c_send_watchers := w\<rparr>, s4))"

definition close_sending :: "nat option \<Rightarrow> 'v chan \<Rightarrow> sched \<Rightarrow> 'v chan \<times> sched" where
  "close_sending me c s = wake_everyone me (c\<lparr>c_sending_closed := True\<rparr>) s"

text \<open>Dropping the receiver end: the values not delivered come out, to be dropped.\<close>

definition receiver_dropped :: "nat option \<Rightarrow> 'v chan \<Rightarrow> sched \<Rightarrow> 'v list \<times> 'v chan \<times> sched" where
  "receiver_dropped me c s =
     (let (c1, s1) = wake_everyone me (c\<lparr>c_receiver_gone := True\<rparr>) s
      in (c_queue c1, c1\<lparr>c_queue := []\<rparr>, s1))"

section \<open>Sending and receiving\<close>

datatype send_result = Sent | SendClosed | Full | SendCancelled

text \<open>One turn of the loop in \<^verbatim>\<open>roc_channel_send\<close>: it returns, or parks under an id.\<close>

datatype 'v send_turn = SendDone send_result "'v chan" sched | SendParks nat "'v chan" sched

definition send_attempt ::
  "nat option \<Rightarrow> runner \<Rightarrow> 'v \<Rightarrow> bool \<Rightarrow> 'v chan \<Rightarrow> sched \<Rightarrow> 'v send_turn" where
  "send_attempt me r v wait c s =
     (if c_sending_closed c \<or> c_receiver_gone c then SendDone SendClosed c s
      else if length (c_queue c) < c_capacity c then
        (let (c1, s1) = value_added me (c\<lparr>c_queue := c_queue c @ [v]\<rparr>) s in SendDone Sent c1 s1)
      else if \<not> wait then SendDone Full c s
      else let (i, ws, s1) = add_waiter me r True (c_senders c) s
           in SendParks i (c\<lparr>c_senders := ws\<rparr>) s1)"

definition send_again ::
  "nat option \<Rightarrow> runner \<Rightarrow> 'v \<Rightarrow> nat \<Rightarrow> woke \<Rightarrow> 'v chan \<Rightarrow> sched \<Rightarrow> 'v send_turn" where
  "send_again me r v i how c s =
     (let c1 = c\<lparr>c_senders := remove_waiter i (c_senders c)\<rparr>
      in if how = WCancelled then SendDone SendCancelled c1 s else send_attempt me r v True c1 s)"

datatype 'v receive_result = Received 'v | RecvClosed | RecvTimedOut | RecvCancelled

datatype 'v receive_turn = RecvDone "'v receive_result" "'v chan" sched | RecvParks nat "'v chan" sched

text \<open>The deadline of a receive: the highest timeout, or one too long to represent, is none.\<close>

definition receive_deadline :: "u64 \<Rightarrow> instant \<Rightarrow> deadline" where
  "receive_deadline timeout now =
     (if timeout \<noteq> - 1 then checked_add now (unat timeout) else Never)"

definition receive_attempt ::
  "nat option \<Rightarrow> runner \<Rightarrow> deadline \<Rightarrow> 'v chan \<Rightarrow> sched \<Rightarrow> 'v receive_turn" where
  "receive_attempt me r d c s =
     (case pop_front (c_queue c) of
        Some (v, q) \<Rightarrow>
          (let (c1, s1) = room_made me (c\<lparr>c_queue := q\<rparr>) s in RecvDone (Received v) c1 s1)
      | None \<Rightarrow>
          if c_sending_closed c then RecvDone RecvClosed c s
          else if passed (clock s) d then RecvDone RecvTimedOut c s
          else let (i, ws, s1) = add_waiter me r True (c_receivers c) s
               in RecvParks i (c\<lparr>c_receivers := ws\<rparr>) s1)"

definition receive_again ::
  "nat option \<Rightarrow> runner \<Rightarrow> deadline \<Rightarrow> nat \<Rightarrow> woke \<Rightarrow> 'v chan \<Rightarrow> sched \<Rightarrow> 'v receive_turn" where
  "receive_again me r d i how c s =
     (let c1 = c\<lparr>c_receivers := remove_waiter i (c_receivers c)\<rparr>
      in if how = WCancelled then RecvDone RecvCancelled c1 s else receive_attempt me r d c1 s)"

text \<open>\<^verbatim>\<open>watch\<close> and \<^verbatim>\<open>unwatch\<close> of each end: \<open>None\<close> is \<^verbatim>\<open>Watch::Ready\<close>.\<close>

definition watch_receiver :: "task_waker \<Rightarrow> 'v chan \<Rightarrow> nat option \<times> 'v chan" where
  "watch_receiver wk c =
     (if c_queue c \<noteq> [] \<or> c_sending_closed c then (None, c)
      else let (i, ws) = add_waker wk (c_receive_watchers c) in (Some i, c\<lparr>c_receive_watchers := ws\<rparr>))"

definition watch_sender :: "task_waker \<Rightarrow> 'v chan \<Rightarrow> nat option \<times> 'v chan" where
  "watch_sender wk c =
     (if length (c_queue c) < c_capacity c \<or> c_sending_closed c \<or> c_receiver_gone c then (None, c)
      else let (i, ws) = add_waker wk (c_send_watchers c) in (Some i, c\<lparr>c_send_watchers := ws\<rparr>))"

definition unwatch_receiver :: "nat \<Rightarrow> 'v chan \<Rightarrow> 'v chan" where
  "unwatch_receiver i c = c\<lparr>c_receive_watchers := remove_waiter i (c_receive_watchers c)\<rparr>"

definition unwatch_sender :: "nat \<Rightarrow> 'v chan \<Rightarrow> 'v chan" where
  "unwatch_sender i c = c\<lparr>c_send_watchers := remove_waiter i (c_send_watchers c)\<rparr>"

section \<open>A channel in use\<close>

text \<open>
  The channel with what was sent, received and dropped so far, the scheduler, and the parked
  receivers and senders.  A task is in one operation at a time.  The receiver end is dropped only
  when no receive is under way, since a receive holds a reference to it, and after that there are
  none.
\<close>

record 'v history =
  sent :: "'v list"
  got :: "'v list"
  undelivered :: "'v list"

type_synonym 'v chan_sys = "('v chan \<times> 'v history) \<times> sched \<times> parked \<times> parked"

definition busy :: "nat \<Rightarrow> parked \<Rightarrow> parked \<Rightarrow> bool" where
  "busy t PR PS = (t \<in> fst ` set PR \<or> t \<in> fst ` set PS)"

definition log_send :: "send_result \<Rightarrow> 'v \<Rightarrow> 'v history \<Rightarrow> 'v history" where
  "log_send r v h = (if r = Sent then h\<lparr>sent := sent h @ [v]\<rparr> else h)"

definition log_receive :: "'v receive_result \<Rightarrow> 'v history \<Rightarrow> 'v history" where
  "log_receive r h = (case r of Received v \<Rightarrow> h\<lparr>got := got h @ [v]\<rparr> | _ \<Rightarrow> h)"

inductive chan_step :: "'v chan_sys \<Rightarrow> 'v chan_sys \<Rightarrow> bool" where
  sends: "\<not> busy t PR PS \<Longrightarrow> send_attempt me (InTask t) v wait c s = SendDone r c' s' \<Longrightarrow>
    chan_step ((c, h), s, PR, PS) ((c', log_send r v h), s', PR, PS)"
| send_parks: "\<not> busy t PR PS \<Longrightarrow> send_attempt me (InTask t) v wait c s = SendParks i c' s' \<Longrightarrow>
    chan_step ((c, h), s, PR, PS) ((c', h), s', PR, PS @ [(t, i, next_wait s)])"
| send_back: "(t, i, w) \<in> set PS \<Longrightarrow> send_again me (InTask t) v i (woken_as s t) c s = SendDone r c' s' \<Longrightarrow>
    chan_step ((c, h), s, PR, PS) ((c', log_send r v h), s', PR, unpark t PS)"
| send_back_parks: "(t, i, w) \<in> set PS \<Longrightarrow>
    send_again me (InTask t) v i (woken_as s t) c s = SendParks j c' s' \<Longrightarrow>
    chan_step ((c, h), s, PR, PS) ((c', h), s', PR, unpark t PS @ [(t, j, next_wait s)])"
| receives: "\<not> busy t PR PS \<Longrightarrow> \<not> c_receiver_gone c \<Longrightarrow>
    receive_attempt me (InTask t) d c s = RecvDone r c' s' \<Longrightarrow>
    chan_step ((c, h), s, PR, PS) ((c', log_receive r h), s', PR, PS)"
| receive_parks: "\<not> busy t PR PS \<Longrightarrow> \<not> c_receiver_gone c \<Longrightarrow>
    receive_attempt me (InTask t) d c s = RecvParks i c' s' \<Longrightarrow>
    chan_step ((c, h), s, PR, PS) ((c', h), s', PR @ [(t, i, next_wait s)], PS)"
| receive_back: "(t, i, w) \<in> set PR \<Longrightarrow>
    receive_again me (InTask t) d i (woken_as s t) c s = RecvDone r c' s' \<Longrightarrow>
    chan_step ((c, h), s, PR, PS) ((c', log_receive r h), s', unpark t PR, PS)"
| receive_back_parks: "(t, i, w) \<in> set PR \<Longrightarrow>
    receive_again me (InTask t) d i (woken_as s t) c s = RecvParks j c' s' \<Longrightarrow>
    chan_step ((c, h), s, PR, PS) ((c', h), s', unpark t PR @ [(t, j, next_wait s)], PS)"
| closes: "close_sending me c s = (c', s') \<Longrightarrow> chan_step ((c, h), s, PR, PS) ((c', h), s', PR, PS)"
| drops: "receiver_dropped me c s = (vs, c', s') \<Longrightarrow> \<not> c_receiver_gone c \<Longrightarrow>
    chan_step ((c, h), s, [], PS) ((c', h\<lparr>undelivered := vs\<rparr>), s', [], PS)"
| watches_receive: "watch_receiver (TaskWaker t w) c = (r, c') \<Longrightarrow> 0 < w \<Longrightarrow>
    chan_step ((c, h), s, PR, PS) ((c', h), s, PR, PS)"
| watches_send: "watch_sender (TaskWaker t w) c = (r, c') \<Longrightarrow> 0 < w \<Longrightarrow>
    chan_step ((c, h), s, PR, PS) ((c', h), s, PR, PS)"
| unwatches: "c' = unwatch_receiver i c \<or> c' = unwatch_sender i c \<Longrightarrow>
    chan_step ((c, h), s, PR, PS) ((c', h), s, PR, PS)"
| other: "undisturbed PR s s' \<Longrightarrow> undisturbed PS s s' \<Longrightarrow>
    chan_step ((c, h), s, PR, PS) ((c, h), s', PR, PS)"

section \<open>The invariant\<close>

definition chan_lists_ok :: "'v chan \<Rightarrow> bool" where
  "chan_lists_ok c = (wakers_ok (c_receivers c) \<and> wakers_ok (c_senders c) \<and>
     wakers_ok (c_receive_watchers c) \<and> wakers_ok (c_send_watchers c) \<and>
     (c_sending_closed c \<or> c_receiver_gone c \<longrightarrow> wl_list (c_receivers c) = [] \<and> wl_list (c_senders c) = []))"

definition chan_queue_ok :: "'v chan \<Rightarrow> 'v history \<Rightarrow> bool" where
  "chan_queue_ok c h = (length (c_queue c) \<le> c_capacity c \<and>
     sent h = got h @ undelivered h @ c_queue c \<and>
     (c_receiver_gone c \<longrightarrow> c_queue c = []) \<and> (undelivered h \<noteq> [] \<longrightarrow> c_receiver_gone c))"

definition chan_inv :: "'v chan_sys \<Rightarrow> bool" where
  "chan_inv x = (case x of ((c, h), s, PR, PS) \<Rightarrow>
     chan_lists_ok c \<and> chan_queue_ok c h \<and> 0 < next_wait s \<and>
     fst ` set PR \<inter> fst ` set PS = {} \<and> (c_receiver_gone c \<longrightarrow> PR = []))"

lemma wake_one_frame:
  assumes "wake_one me ws s = (ws', s')"
  shows "next_wait s' = next_wait s" "wakers_ok ws \<Longrightarrow> wakers_ok ws'" "wl_list ws = [] \<Longrightarrow> wl_list ws' = []"
proof -
  obtain l where l: "set (wl_list ws') \<subseteq> set (wl_list ws)" "s' = wake_each me l s"
    using wake_one_sub [OF assms] by blast
  then show "next_wait s' = next_wait s" "wl_list ws = [] \<Longrightarrow> wl_list ws' = []" by auto
  show "wakers_ok ws \<Longrightarrow> wakers_ok ws'" using l(1) unfolding wakers_ok_def by blast
qed

lemma wake_all_frame:
  assumes "wake_all me ws s = (ws', s')"
  shows "next_wait s' = next_wait s" "wakers_ok ws'" "wl_list ws' = []"
  using assms by (auto simp: wake_all_def wakers_ok_def)

lemmas wake_frames = wake_one_frame wake_all_frame

lemma value_added_frame:
  assumes "value_added me c s = (c', s')"
  obtains r w where "c' = c\<lparr>c_receivers := r, c_receive_watchers := w\<rparr>" "next_wait s' = next_wait s"
    "wakers_ok (c_receivers c) \<Longrightarrow> wakers_ok r" "wakers_ok w" "wl_list (c_receivers c) = [] \<Longrightarrow> wl_list r = []"
  using assms by (auto simp: value_added_def Let_def wake_frames split: prod.splits)

lemma room_made_frame:
  assumes "room_made me c s = (c', s')"
  obtains r w where "c' = c\<lparr>c_senders := r, c_send_watchers := w\<rparr>" "next_wait s' = next_wait s"
    "wakers_ok (c_senders c) \<Longrightarrow> wakers_ok r" "wakers_ok w" "wl_list (c_senders c) = [] \<Longrightarrow> wl_list r = []"
  using assms by (auto simp: room_made_def Let_def wake_frames split: prod.splits)

lemma wake_everyone_frame:
  assumes "wake_everyone me c s = (c', s')"
  obtains r t v w where
    "c' = c\<lparr>c_receivers := r, c_senders := t, c_receive_watchers := v, c_send_watchers := w\<rparr>"
    "next_wait s' = next_wait s" "wakers_ok r" "wakers_ok t" "wakers_ok v" "wakers_ok w"
    "wl_list r = []" "wl_list t = []"
proof -
  obtain r s1 where 1: "wake_all me (c_receivers c) s = (r, s1)" by (cases "wake_all me (c_receivers c) s")
  obtain t s2 where 2: "wake_all me (c_senders c) s1 = (t, s2)" by (cases "wake_all me (c_senders c) s1")
  obtain v s3 where 3: "wake_all me (c_receive_watchers c) s2 = (v, s3)" by (cases "wake_all me (c_receive_watchers c) s2")
  obtain w s4 where 4: "wake_all me (c_send_watchers c) s3 = (w, s4)" by (cases "wake_all me (c_send_watchers c) s3")
  show ?thesis
    using that [of w v t r] assms wake_all_frame [OF 1] wake_all_frame [OF 2] wake_all_frame [OF 3] wake_all_frame [OF 4]
    by (simp add: wake_everyone_def 1 2 3 4)
qed

lemma send_attempt_done:
  assumes "send_attempt me r v wait c s = SendDone res c' s'" "chan_lists_ok c" "chan_queue_ok c h"
  shows "chan_lists_ok c'" "chan_queue_ok c' (log_send res v h)" "next_wait s' = next_wait s"
    "c_receiver_gone c' = c_receiver_gone c"
  using assms
  by (auto simp: send_attempt_def log_send_def chan_lists_ok_def chan_queue_ok_def Let_def
      elim!: value_added_frame split: if_splits prod.splits)

lemma wakers_ok_snoc [simp]:
  "wakers_ok ws \<Longrightarrow> 0 < w \<Longrightarrow> wakers_ok \<lparr>wl_list = wl_list ws @ [(i, TaskWaker t w)], wl_next = n\<rparr>"
  by (auto simp: wakers_ok_def)

lemma send_attempt_parks:
  assumes "send_attempt me (InTask t) v wait c s = SendParks i c' s'" "chan_lists_ok c" "chan_queue_ok c h"
    "0 < next_wait s"
  shows "chan_lists_ok c'" "chan_queue_ok c' h" "next_wait s' = next_wait s + 1"
    "c_receiver_gone c' = c_receiver_gone c"
  using assms
  by (auto simp: send_attempt_def chan_lists_ok_def chan_queue_ok_def Let_def add_waiter_task begin_wait_wait
      split: if_splits prod.splits)

lemma receive_attempt_done:
  assumes "receive_attempt me r d c s = RecvDone res c' s'" "chan_lists_ok c" "chan_queue_ok c h"
  shows "chan_lists_ok c'" "chan_queue_ok c' (log_receive res h)" "next_wait s' = next_wait s"
    "c_receiver_gone c' = c_receiver_gone c"
  using assms
  by (auto simp: receive_attempt_def log_receive_def chan_lists_ok_def chan_queue_ok_def Let_def pop_front_Some
      elim!: room_made_frame split: if_splits prod.splits option.splits)

lemma receive_attempt_parks:
  assumes "receive_attempt me (InTask t) d c s = RecvParks i c' s'" "chan_lists_ok c" "chan_queue_ok c h"
    "0 < next_wait s" "\<not> c_receiver_gone c"
  shows "chan_lists_ok c'" "chan_queue_ok c' h" "next_wait s' = next_wait s + 1"
    "c_receiver_gone c' = c_receiver_gone c"
  using assms
  by (auto simp: receive_attempt_def chan_lists_ok_def chan_queue_ok_def Let_def add_waiter_task begin_wait_wait
      split: if_splits prod.splits option.splits)

lemma chan_lists_ok_remove:
  "chan_lists_ok c \<Longrightarrow> chan_lists_ok (c\<lparr>c_senders := remove_waiter i (c_senders c)\<rparr>)"
  "chan_lists_ok c \<Longrightarrow> chan_lists_ok (c\<lparr>c_receivers := remove_waiter i (c_receivers c)\<rparr>)"
  "chan_queue_ok (c\<lparr>c_senders := ws\<rparr>) h = chan_queue_ok c h"
  "chan_queue_ok (c\<lparr>c_receivers := ws\<rparr>) h = chan_queue_ok c h"
  by (auto simp: chan_lists_ok_def chan_queue_ok_def) (simp_all add: remove_waiter_def)

lemma send_again_done:
  assumes "send_again me r v i how c s = SendDone res c' s'" "chan_lists_ok c" "chan_queue_ok c h"
  shows "chan_lists_ok c' \<and> chan_queue_ok c' (log_send res v h) \<and> next_wait s' = next_wait s \<and>
    c_receiver_gone c' = c_receiver_gone c"
proof (cases "how = WCancelled")
  case True
  then show ?thesis using assms by (auto simp: send_again_def chan_lists_ok_remove log_send_def)
next
  case False
  then have "send_attempt me r v True (c\<lparr>c_senders := remove_waiter i (c_senders c)\<rparr>) s = SendDone res c' s'"
    using assms(1) by (simp add: send_again_def)
  from send_attempt_done [OF this] assms(2,3) show ?thesis by (simp add: chan_lists_ok_remove)
qed

lemma send_again_parks:
  assumes "send_again me (InTask t) v i how c s = SendParks j c' s'" "chan_lists_ok c" "chan_queue_ok c h"
    "0 < next_wait s"
  shows "chan_lists_ok c' \<and> chan_queue_ok c' h \<and> 0 < next_wait s' \<and> c_receiver_gone c' = c_receiver_gone c"
proof -
  have "send_attempt me (InTask t) v True (c\<lparr>c_senders := remove_waiter i (c_senders c)\<rparr>) s = SendParks j c' s'"
    using assms(1) by (simp add: send_again_def Let_def split: if_splits)
  from send_attempt_parks [OF this] assms(2-4) show ?thesis by (simp add: chan_lists_ok_remove)
qed

lemma receive_again_done:
  assumes "receive_again me r d i how c s = RecvDone res c' s'" "chan_lists_ok c" "chan_queue_ok c h"
  shows "chan_lists_ok c' \<and> chan_queue_ok c' (log_receive res h) \<and> next_wait s' = next_wait s \<and>
    c_receiver_gone c' = c_receiver_gone c"
proof (cases "how = WCancelled")
  case True
  then show ?thesis using assms by (auto simp: receive_again_def chan_lists_ok_remove log_receive_def)
next
  case False
  then have "receive_attempt me r d (c\<lparr>c_receivers := remove_waiter i (c_receivers c)\<rparr>) s = RecvDone res c' s'"
    using assms(1) by (simp add: receive_again_def)
  from receive_attempt_done [OF this] assms(2,3) show ?thesis by (simp add: chan_lists_ok_remove)
qed

lemma receive_again_parks:
  assumes "receive_again me (InTask t) d i how c s = RecvParks j c' s'" "chan_lists_ok c" "chan_queue_ok c h"
    "0 < next_wait s" "\<not> c_receiver_gone c"
  shows "chan_lists_ok c' \<and> chan_queue_ok c' h \<and> 0 < next_wait s' \<and> c_receiver_gone c' = c_receiver_gone c"
proof -
  have "receive_attempt me (InTask t) d (c\<lparr>c_receivers := remove_waiter i (c_receivers c)\<rparr>) s = RecvParks j c' s'"
    using assms(1) by (simp add: receive_again_def Let_def split: if_splits)
  from receive_attempt_parks [OF this] assms(2-5) show ?thesis by (simp add: chan_lists_ok_remove)
qed

lemma watch_ok:
  assumes "chan_lists_ok c" "chan_queue_ok c h" "0 < w"
  shows "watch_receiver (TaskWaker t w) c = (r, c') \<Longrightarrow>
      chan_lists_ok c' \<and> chan_queue_ok c' h \<and> c_receiver_gone c' = c_receiver_gone c"
    and "watch_sender (TaskWaker t w) c = (r, c') \<Longrightarrow>
      chan_lists_ok c' \<and> chan_queue_ok c' h \<and> c_receiver_gone c' = c_receiver_gone c"
    and "c' = unwatch_receiver i c \<or> c' = unwatch_sender i c \<Longrightarrow>
      chan_lists_ok c' \<and> chan_queue_ok c' h \<and> c_receiver_gone c' = c_receiver_gone c"
  using assms
  by (auto simp: watch_receiver_def watch_sender_def unwatch_receiver_def unwatch_sender_def add_waker_def
      chan_lists_ok_def chan_queue_ok_def Let_def split: if_splits)

lemma close_sending_ok:
  assumes "close_sending me c s = (c', s')" "chan_lists_ok c" "chan_queue_ok c h"
  shows "chan_lists_ok c' \<and> chan_queue_ok c' h \<and> next_wait s' = next_wait s \<and>
    c_receiver_gone c' = c_receiver_gone c"
  using assms unfolding close_sending_def
  by (elim wake_everyone_frame) (simp add: chan_lists_ok_def chan_queue_ok_def)

lemma receiver_dropped_ok:
  assumes "receiver_dropped me c s = (vs, c', s')" "chan_lists_ok c" "chan_queue_ok c h" "\<not> c_receiver_gone c"
  shows "chan_lists_ok c' \<and> chan_queue_ok c' (h\<lparr>undelivered := vs\<rparr>) \<and> next_wait s' = next_wait s"
proof -
  obtain c1 where w: "wake_everyone me (c\<lparr>c_receiver_gone := True\<rparr>) s = (c1, s')"
    and c: "vs = c_queue c1" "c' = c1\<lparr>c_queue := []\<rparr>"
    using assms(1) by (auto simp: receiver_dropped_def split: prod.splits)
  from w show ?thesis
    by (rule wake_everyone_frame) (use assms(2-) c in \<open>simp add: chan_lists_ok_def chan_queue_ok_def\<close>)
qed

lemma fst_unpark: "fst ` set (unpark t P) = fst ` set P - {t}"
  by (force simp: unpark_def)

lemma chan_invD:
  assumes "chan_inv ((c, h), s, PR, PS)"
  shows "chan_lists_ok c" "chan_queue_ok c h" "0 < next_wait s" "fst ` set PR \<inter> fst ` set PS = {}"
    "c_receiver_gone c \<Longrightarrow> PR = []"
  using assms by (simp_all add: chan_inv_def)

lemma chan_invI:
  assumes "chan_lists_ok c" "chan_queue_ok c h" "0 < next_wait s" "fst ` set PR \<inter> fst ` set PS = {}"
    "c_receiver_gone c \<Longrightarrow> PR = []"
  shows "chan_inv ((c, h), s, PR, PS)"
  using assms by (simp add: chan_inv_def)

lemma chan_step_inv: "chan_step x y \<Longrightarrow> chan_inv x \<Longrightarrow> chan_inv y"
proof (induction rule: chan_step.induct)
  case (sends t PR PS me v wait c s r c' s' h)
  note i = chan_invD [OF sends(3)]
  show ?case using send_attempt_done [OF sends(2) i(1,2)] i(3-) by (intro chan_invI) simp_all
next
  case (send_parks t PR PS me v wait c s j c' s' h)
  note i = chan_invD [OF send_parks(3)]
  show ?case using send_attempt_parks [OF send_parks(2) i(1-3)] i(4-) send_parks(1)
    by (intro chan_invI) (auto simp: busy_def)
next
  case (send_back t j w PS me v s c r c' s' h PR)
  note i = chan_invD [OF send_back(3)]
  show ?case using send_again_done [OF send_back(2) i(1,2)] i(3-) by (intro chan_invI) (auto simp: fst_unpark)
next
  case (send_back_parks t j w PS me v s c k c' s' h PR)
  note i = chan_invD [OF send_back_parks(3)]
  have "t \<in> fst ` set PS" using send_back_parks(1) by force
  then show ?case using send_again_parks [OF send_back_parks(2) i(1-3)] i(4-)
    by (intro chan_invI) (auto simp: fst_unpark)
next
  case (receives t PR PS c me d s r c' s' h)
  note i = chan_invD [OF receives(4)]
  show ?case using receive_attempt_done [OF receives(3) i(1,2)] i(3-) by (intro chan_invI) simp_all
next
  case (receive_parks t PR PS c me d s j c' s' h)
  note i = chan_invD [OF receive_parks(4)]
  show ?case using receive_attempt_parks [OF receive_parks(3) i(1-3) receive_parks(2)] i(4-) receive_parks(1,2)
    by (intro chan_invI) (auto simp: busy_def)
next
  case (receive_back t j w PR me d s c r c' s' h PS)
  note i = chan_invD [OF receive_back(3)]
  show ?case using receive_again_done [OF receive_back(2) i(1,2)] i(3-)
    by (intro chan_invI) (auto simp: fst_unpark unpark_def)
next
  case (receive_back_parks t j w PR me d s c k c' s' h PS)
  note i = chan_invD [OF receive_back_parks(3)]
  have g: "\<not> c_receiver_gone c" "t \<in> fst ` set PR" using receive_back_parks(1) i(5) by force+
  then show ?case using receive_again_parks [OF receive_back_parks(2) i(1-3) g(1)] i(4-)
    by (intro chan_invI) (auto simp: fst_unpark)
next
  case (closes me c s c' s' h PR PS)
  note i = chan_invD [OF closes(2)]
  show ?case using close_sending_ok [OF closes(1) i(1,2)] i(3-) by (intro chan_invI) simp_all
next
  case (drops me c s vs c' s' h PS)
  note i = chan_invD [OF drops(3)]
  show ?case using receiver_dropped_ok [OF drops(1) i(1,2) drops(2)] i(3-) by (intro chan_invI) simp_all
next
  case (watches_receive t w c r c' h s PR PS)
  note i = chan_invD [OF watches_receive(3)]
  show ?case using watch_ok(1) [OF i(1,2) watches_receive(2,1)] i(3-) by (intro chan_invI) simp_all
next
  case (watches_send t w c r c' h s PR PS)
  note i = chan_invD [OF watches_send(3)]
  show ?case using watch_ok(2) [OF i(1,2) watches_send(2,1)] i(3-) by (intro chan_invI) simp_all
next
  case (unwatches c' j c h s PR PS)
  note i = chan_invD [OF unwatches(2)]
  show ?case using watch_ok(3) [OF i(1,2) zero_less_one unwatches(1)] i(3-) by (intro chan_invI) simp_all
next
  case (other PR s s' PS c h)
  note i = chan_invD [OF other(3)]
  show ?case using other(1) i by (intro chan_invI) (simp_all add: undisturbed_def)
qed

section \<open>Both wait lists follow the pattern\<close>

lemma value_added_recv:
  assumes "guard_inv (n, c_receivers c, s, P)" "wakers_ok (c_receive_watchers c)" "value_added me c s = (c', s')"
  shows "guard_step\<^sup>*\<^sup>* (n, c_receivers c, s, P) (Suc n, c_receivers c', s', P)"
proof -
  obtain r s1 where 1: "wake_one me (c_receivers c) s = (r, s1)" by (cases "wake_one me (c_receivers c) s")
  obtain w s2 where 2: "wake_all me (c_receive_watchers c) s1 = (w, s2)" by (cases "wake_all me (c_receive_watchers c) s1")
  have c': "c_receivers c' = r" "s' = s2" using assms(3) by (auto simp: value_added_def 1 2)
  have g1: "guard_step (n, c_receivers c, s, P) (Suc n, r, s1, P)" using 1 by (rule guard_step.release)
  note i1 = guard_step_inv [OF g1 assms(1)]
  show ?thesis unfolding c' using g1 calm_wake_all(1) [OF i1 assms(2) 2] by simp
qed

lemma room_made_send:
  assumes "guard_inv (n, c_senders c, s, P)" "wakers_ok (c_send_watchers c)" "room_made me c s = (c', s')"
  shows "guard_step\<^sup>*\<^sup>* (n, c_senders c, s, P) (Suc n, c_senders c', s', P)"
proof -
  obtain r s1 where 1: "wake_one me (c_senders c) s = (r, s1)" by (cases "wake_one me (c_senders c) s")
  obtain w s2 where 2: "wake_all me (c_send_watchers c) s1 = (w, s2)" by (cases "wake_all me (c_send_watchers c) s1")
  have c': "c_senders c' = r" "s' = s2" using assms(3) by (auto simp: room_made_def 1 2)
  have g1: "guard_step (n, c_senders c, s, P) (Suc n, r, s1, P)" using 1 by (rule guard_step.release)
  note i1 = guard_step_inv [OF g1 assms(1)]
  show ?thesis unfolding c' using g1 calm_wake_all(1) [OF i1 assms(2) 2] by simp
qed

lemma value_added_calm:
  assumes "guard_inv (n, ws, s, P)" "wakers_ok (c_receivers c)" "wakers_ok (c_receive_watchers c)"
    "value_added me c s = (c', s')"
  shows "guard_step\<^sup>*\<^sup>* (n, ws, s, P) (n, ws, s', P)"
proof -
  obtain r s1 where 1: "wake_one me (c_receivers c) s = (r, s1)" by (cases "wake_one me (c_receivers c) s")
  obtain w s2 where 2: "wake_all me (c_receive_watchers c) s1 = (w, s2)" by (cases "wake_all me (c_receive_watchers c) s1")
  have "s' = s2" using assms(4) by (auto simp: value_added_def 1 2)
  then show ?thesis
    using calm_wake_one(1) [OF assms(1,2) 1] calm_wake_all(1) [OF calm_wake_one(2) [OF assms(1,2) 1] assms(3) 2] by simp
qed

lemma room_made_calm:
  assumes "guard_inv (n, ws, s, P)" "wakers_ok (c_senders c)" "wakers_ok (c_send_watchers c)"
    "room_made me c s = (c', s')"
  shows "guard_step\<^sup>*\<^sup>* (n, ws, s, P) (n, ws, s', P)"
proof -
  obtain r s1 where 1: "wake_one me (c_senders c) s = (r, s1)" by (cases "wake_one me (c_senders c) s")
  obtain w s2 where 2: "wake_all me (c_send_watchers c) s1 = (w, s2)" by (cases "wake_all me (c_send_watchers c) s1")
  have "s' = s2" using assms(4) by (auto simp: room_made_def 1 2)
  then show ?thesis
    using calm_wake_one(1) [OF assms(1,2) 1] calm_wake_all(1) [OF calm_wake_one(2) [OF assms(1,2) 1] assms(3) 2] by simp
qed

lemma wake_everyone_guard:
  assumes ok: "wakers_ok (c_receivers c)" "wakers_ok (c_senders c)" "wakers_ok (c_receive_watchers c)"
    "wakers_ok (c_send_watchers c)" and we: "wake_everyone me c s = (c', s')"
  shows "guard_inv (n, c_receivers c, s, P) \<Longrightarrow>
      guard_step\<^sup>*\<^sup>* (n, c_receivers c, s, P) (m, c_receivers c', s', P)"
    and "guard_inv (n, c_senders c, s, P) \<Longrightarrow>
      guard_step\<^sup>*\<^sup>* (n, c_senders c, s, P) (m, c_senders c', s', P)"
proof -
  obtain r s1 where 1: "wake_all me (c_receivers c) s = (r, s1)" by (cases "wake_all me (c_receivers c) s")
  obtain t s2 where 2: "wake_all me (c_senders c) s1 = (t, s2)" by (cases "wake_all me (c_senders c) s1")
  obtain v s3 where 3: "wake_all me (c_receive_watchers c) s2 = (v, s3)" by (cases "wake_all me (c_receive_watchers c) s2")
  obtain w s4 where 4: "wake_all me (c_send_watchers c) s3 = (w, s4)" by (cases "wake_all me (c_send_watchers c) s3")
  have c': "c_receivers c' = r" "c_senders c' = t" "s' = s4" using we by (auto simp: wake_everyone_def 1 2 3 4)
  {
    assume i: "guard_inv (n, c_receivers c, s, P)"
    have g: "guard_step (n, c_receivers c, s, P) (m, r, s1, P)" using 1 by (rule guard_step.flush)
    note c2 = calm_wake_all [OF guard_step_inv [OF g i] ok(2) 2]
    note c3 = calm_wake_all [OF c2(2) ok(3) 3]
    note c4 = calm_wake_all [OF c3(2) ok(4) 4]
    show "guard_step\<^sup>*\<^sup>* (n, c_receivers c, s, P) (m, c_receivers c', s', P)"
      unfolding c' using g c2(1) c3(1) c4(1) by simp
  }
  assume i: "guard_inv (n, c_senders c, s, P)"
  note c1 = calm_wake_all [OF i ok(1) 1]
  have g: "guard_step (n, c_senders c, s1, P) (m, t, s2, P)" using 2 by (rule guard_step.flush)
  note c3 = calm_wake_all [OF guard_step_inv [OF g c1(2)] ok(3) 3]
  note c4 = calm_wake_all [OF c3(2) ok(4) 4]
  show "guard_step\<^sup>*\<^sup>* (n, c_senders c, s, P) (m, c_senders c', s', P)"
    unfolding c' using c1(1) g c3(1) c4(1) by simp
qed

end
