(* ===== verification/Channels_Safety.thy ===== *)
theory Channels_Safety
  imports Channels
begin

text \<open>
  The channel's properties: bounded, first in first out and loss-free over any interleaving of its
  operations, and no lost notification on either side.  The receivers' list and the senders' list
  are two interpretations of the waiting pattern.
\<close>

fun recv_view :: "'v chan_sys \<Rightarrow> guard" where
  "recv_view ((c, h), s, PR, PS) = (length (c_queue c), c_receivers c, s, PR)"

fun send_view :: "'v chan_sys \<Rightarrow> guard" where
  "send_view ((c, h), s, PR, PS) = (c_capacity c - length (c_queue c), c_senders c, s, PS)"

lemma lists_okD:
  assumes "chan_lists_ok c"
  shows "wakers_ok (c_receivers c)" "wakers_ok (c_senders c)"
    "wakers_ok (c_receive_watchers c)" "wakers_ok (c_send_watchers c)"
    "c_sending_closed c \<or> c_receiver_gone c \<Longrightarrow> wl_list (c_senders c) = []"
  using assms by (auto simp: chan_lists_ok_def)

section \<open>The receivers' side\<close>

lemma send_attempt_recv:
  assumes i: "guard_inv (length (c_queue c), c_receivers c, s, P)" and ok: "chan_lists_ok c"
    and t: "t \<notin> fst ` set P"
  shows "send_attempt me (InTask t) v wait c s = SendDone r c' s' \<Longrightarrow>
      guard_step\<^sup>*\<^sup>* (length (c_queue c), c_receivers c, s, P) (length (c_queue c'), c_receivers c', s', P)"
    and "send_attempt me (InTask t) v wait c s = SendParks j c' s' \<Longrightarrow>
      guard_step\<^sup>*\<^sup>* (length (c_queue c), c_receivers c, s, P) (length (c_queue c'), c_receivers c', s', P)"
proof -
  assume "send_attempt me (InTask t) v wait c s = SendDone r c' s'"
  then consider "c' = c" "s' = s"
    | "value_added me (c\<lparr>c_queue := c_queue c @ [v]\<rparr>) s = (c', s')"
    by (auto simp: send_attempt_def Let_def split: if_splits prod.splits)
  then show "guard_step\<^sup>*\<^sup>* (length (c_queue c), c_receivers c, s, P) (length (c_queue c'), c_receivers c', s', P)"
  proof cases
    case 2
    then have "length (c_queue c') = Suc (length (c_queue c))" by (elim value_added_frame) simp
    then show ?thesis using value_added_recv [OF _ _ 2, of "length (c_queue c)" P] i lists_okD(3) [OF ok] by simp
  qed simp
next
  assume "send_attempt me (InTask t) v wait c s = SendParks j c' s'"
  then have "c_queue c' = c_queue c" "c_receivers c' = c_receivers c" "s' = snd (begin_wait me t True s)"
    by (auto simp: send_attempt_def add_waiter_task Let_def split: if_splits prod.splits)
  then show "guard_step\<^sup>*\<^sup>* (length (c_queue c), c_receivers c, s, P) (length (c_queue c'), c_receivers c', s', P)"
    using r_into_rtranclp [where r = guard_step, OF calm_begin_wait [OF i t]] by simp
qed

lemma send_again_recv:
  assumes i: "guard_inv (length (c_queue c), c_receivers c, s, P)" and ok: "chan_lists_ok c"
    and t: "t \<notin> fst ` set P"
  shows "send_again me (InTask t) v j how c s = SendDone r c' s' \<Longrightarrow>
      guard_step\<^sup>*\<^sup>* (length (c_queue c), c_receivers c, s, P) (length (c_queue c'), c_receivers c', s', P)"
    and "send_again me (InTask t) v j how c s = SendParks k c' s' \<Longrightarrow>
      guard_step\<^sup>*\<^sup>* (length (c_queue c), c_receivers c, s, P) (length (c_queue c'), c_receivers c', s', P)"
  using send_attempt_recv [of "c\<lparr>c_senders := remove_waiter j (c_senders c)\<rparr>" s P t me v True] i
    chan_lists_ok_remove(1) [OF ok, of j] t
  by (auto simp: send_again_def Let_def split: if_splits)

lemma receive_attempt_eq:
  "receive_attempt me (InTask t) d c s =
     (case c_queue c of
        v # q \<Rightarrow> (case room_made me (c\<lparr>c_queue := q\<rparr>) s of (c1, s1) \<Rightarrow> RecvDone (Received v) c1 s1)
      | [] \<Rightarrow>
          if c_sending_closed c then RecvDone RecvClosed c s
          else if passed (clock s) d then RecvDone RecvTimedOut c s
          else case add_waiter me (InTask t) True (c_receivers c) s of
                 (i, ws, s1) \<Rightarrow> RecvParks i (c\<lparr>c_receivers := ws\<rparr>) s1)"
  by (simp add: receive_attempt_def Let_def split: list.splits)

lemma room_made_recv:
  assumes "room_made me c s = (c', s')"
  shows "c_queue c' = c_queue c" "c_receivers c' = c_receivers c" "c_capacity c' = c_capacity c"
  using assms by (auto elim: room_made_frame)

lemma value_added_send:
  assumes "value_added me c s = (c', s')"
  shows "c_queue c' = c_queue c" "c_senders c' = c_senders c" "c_capacity c' = c_capacity c"
  using assms by (auto elim: value_added_frame)

lemma receive_attempt_recv:
  assumes i: "guard_inv (length (c_queue c), c_receivers c, s, P)" and ok: "chan_lists_ok c"
  shows "receive_attempt me (InTask t) d c s = RecvDone r c' s' \<Longrightarrow>
      guard_step\<^sup>*\<^sup>* (length (c_queue c), c_receivers c, s, P) (length (c_queue c'), c_receivers c', s', P)"
    and "t \<notin> fst ` set P \<Longrightarrow> receive_attempt me (InTask t) d c s = RecvParks j c' s' \<Longrightarrow>
      guard_step\<^sup>*\<^sup>* (length (c_queue c), c_receivers c, s, P)
        (length (c_queue c'), c_receivers c', s', P @ [(t, j, next_wait s)])"
proof -
  assume a: "receive_attempt me (InTask t) d c s = RecvDone r c' s'"
  show "guard_step\<^sup>*\<^sup>* (length (c_queue c), c_receivers c, s, P) (length (c_queue c'), c_receivers c', s', P)"
  proof (cases "c_queue c")
    case (Cons v q)
    then have rm: "room_made me (c\<lparr>c_queue := q\<rparr>) s = (c', s')"
      using a by (auto simp: receive_attempt_eq split: prod.splits)
    have g: "guard_step (length (c_queue c), c_receivers c, s, P) (length q, c_receivers c, s, P)"
      using Cons by (simp add: guard_step.take)
    have "guard_step\<^sup>*\<^sup>* (length q, c_receivers c, s, P) (length q, c_receivers c, s', P)"
      using room_made_calm [OF guard_step_inv [OF g i] _ _ rm] lists_okD [OF ok] by simp
    with g show ?thesis using room_made_recv [OF rm] by simp
  qed (use a in \<open>auto simp: receive_attempt_eq split: if_splits prod.splits\<close>)
next
  assume t: "t \<notin> fst ` set P" and a: "receive_attempt me (InTask t) d c s = RecvParks j c' s'"
  then have "c_queue c = []" "c_queue c' = []" "add_waiter me (InTask t) True (c_receivers c) s = (j, c_receivers c', s')"
    by (auto simp: receive_attempt_eq split: list.splits if_splits prod.splits)
  then show "guard_step\<^sup>*\<^sup>* (length (c_queue c), c_receivers c, s, P)
        (length (c_queue c'), c_receivers c', s', P @ [(t, j, next_wait s)])"
    using guard_step.enqueue [OF t] by auto
qed

lemma receive_again_recv:
  assumes i: "guard_inv (length (c_queue c), c_receivers c, s, P)" and ok: "chan_lists_ok c"
    and e: "(t, j, w) \<in> set P"
  shows "receive_again me (InTask t) d j (woken_as s t) c s = RecvDone r c' s' \<Longrightarrow>
      guard_step\<^sup>*\<^sup>* (length (c_queue c), c_receivers c, s, P) (length (c_queue c'), c_receivers c', s', unpark t P)"
    and "receive_again me (InTask t) d j (woken_as s t) c s = RecvParks k c' s' \<Longrightarrow>
      guard_step\<^sup>*\<^sup>* (length (c_queue c), c_receivers c, s, P)
        (length (c_queue c'), c_receivers c', s', unpark t P @ [(t, k, next_wait s)])"
proof -
  let ?c = "c\<lparr>c_receivers := remove_waiter j (c_receivers c)\<rparr>"
  assume a: "receive_again me (InTask t) d j (woken_as s t) c s = RecvDone r c' s'"
  show "guard_step\<^sup>*\<^sup>* (length (c_queue c), c_receivers c, s, P) (length (c_queue c'), c_receivers c', s', unpark t P)"
  proof (cases "woken_as s t = WCancelled")
    case True
    then show ?thesis using a guard_step.back_leave [OF e] by (auto simp: receive_again_def Let_def)
  next
    case False
    then have a': "receive_attempt me (InTask t) d ?c s = RecvDone r c' s'" using a by (simp add: receive_again_def Let_def)
    show ?thesis
    proof (cases "c_queue c")
      case (Cons v q)
      then have rm: "room_made me (?c\<lparr>c_queue := q\<rparr>) s = (c', s')"
        using a' by (auto simp: receive_attempt_eq split: prod.splits)
      have g: "guard_step (length (c_queue c), c_receivers c, s, P) (length q, remove_waiter j (c_receivers c), s, unpark t P)"
        using Cons guard_step.back_take [OF e] by simp
      have "guard_step\<^sup>*\<^sup>* (length q, remove_waiter j (c_receivers c), s, unpark t P)
          (length q, remove_waiter j (c_receivers c), s', unpark t P)"
        using room_made_calm [OF guard_step_inv [OF g i] _ _ rm] lists_okD [OF ok] by simp
      with g show ?thesis using room_made_recv [OF rm] by simp
    next
      case Nil
      then have "c' = ?c" "s' = s" using a' by (auto simp: receive_attempt_eq split: if_splits prod.splits)
      then show ?thesis using Nil guard_step.back_leave [OF e] by auto
    qed
  qed
next
  assume a: "receive_again me (InTask t) d j (woken_as s t) c s = RecvParks k c' s'"
  then have "c_queue c = []" "c_queue c' = []"
      "add_waiter me (InTask t) True (remove_waiter j (c_receivers c)) s = (k, c_receivers c', s')"
    by (auto simp: receive_again_def receive_attempt_eq Let_def split: list.splits if_splits prod.splits)
  then show "guard_step\<^sup>*\<^sup>* (length (c_queue c), c_receivers c, s, P)
        (length (c_queue c'), c_receivers c', s', unpark t P @ [(t, k, next_wait s)])"
    using guard_step.back_wait [OF e] by auto
qed

lemma chan_step_recv:
  assumes st: "chan_step x y" and inv: "chan_inv x" and gi: "guard_inv (recv_view x)"
  shows "guard_step\<^sup>*\<^sup>* (recv_view x) (recv_view y)"
  using assms
proof (induction rule: chan_step.induct)
  case (sends t PR PS me v wait c s r c' s' h)
  then show ?case using send_attempt_recv(1) [OF _ chan_invD(1) [OF sends(3)] _ sends(2)] by (simp add: busy_def)
next
  case (send_parks t PR PS me v wait c s j c' s' h)
  then show ?case using send_attempt_recv(2) [OF _ chan_invD(1) [OF send_parks(3)] _ send_parks(2)] by (simp add: busy_def)
next
  case (send_back t j w PS me v s c r c' s' h PR)
  have "t \<notin> fst ` set PR" using chan_invD(4) [OF send_back(3)] send_back(1) by force
  then show ?case using send_again_recv(1) [OF _ chan_invD(1) [OF send_back(3)] _ send_back(2)] send_back(4) by simp
next
  case (send_back_parks t j w PS me v s c k c' s' h PR)
  have "t \<notin> fst ` set PR" using chan_invD(4) [OF send_back_parks(3)] send_back_parks(1) by force
  then show ?case
    using send_again_recv(2) [OF _ chan_invD(1) [OF send_back_parks(3)] _ send_back_parks(2)] send_back_parks(4) by simp
next
  case (receives t PR PS c me d s r c' s' h)
  then show ?case using receive_attempt_recv(1) [OF _ chan_invD(1) [OF receives(4)] receives(3)] by simp
next
  case (receive_parks t PR PS c me d s j c' s' h)
  then show ?case
    using receive_attempt_recv(2) [OF _ chan_invD(1) [OF receive_parks(4)] _ receive_parks(3)] by (simp add: busy_def)
next
  case (receive_back t j w PR me d s c r c' s' h PS)
  then show ?case using receive_again_recv(1) [OF _ chan_invD(1) [OF receive_back(3)] receive_back(1,2)] by simp
next
  case (receive_back_parks t j w PR me d s c k c' s' h PS)
  then show ?case
    using receive_again_recv(2) [OF _ chan_invD(1) [OF receive_back_parks(3)] receive_back_parks(1,2)] by simp
next
  case (closes me c s c' s' h PR PS)
  note ok = lists_okD [OF chan_invD(1) [OF closes(2)]]
  have "c_queue c' = c_queue c" using closes(1) unfolding close_sending_def by (auto elim: wake_everyone_frame)
  then show ?case
    using wake_everyone_guard(1) [of "c\<lparr>c_sending_closed := True\<rparr>"] ok closes unfolding close_sending_def by simp
next
  case (drops me c s vs c' s' h PS)
  note ok = lists_okD [OF chan_invD(1) [OF drops(3)]]
  obtain c1 where w: "wake_everyone me (c\<lparr>c_receiver_gone := True\<rparr>) s = (c1, s')" "c' = c1\<lparr>c_queue := []\<rparr>"
    using drops(1) by (auto simp: receiver_dropped_def split: prod.splits)
  then show ?case
    using wake_everyone_guard(1) [OF _ _ _ _ w(1), where m = 0] ok drops by simp
next
  case (other PR s s' PS c h)
  then show ?case using r_into_rtranclp [where r = guard_step, OF guard_step.elsewhere [OF other(1)]] by simp
qed (auto simp: watch_receiver_def watch_sender_def unwatch_receiver_def unwatch_sender_def Let_def
    split: if_splits prod.splits)

section \<open>The senders' side\<close>

lemma send_attempt_eq:
  "send_attempt me (InTask t) v wait c s =
     (if c_sending_closed c \<or> c_receiver_gone c then SendDone SendClosed c s
      else if length (c_queue c) < c_capacity c then
        (case value_added me (c\<lparr>c_queue := c_queue c @ [v]\<rparr>) s of (c1, s1) \<Rightarrow> SendDone Sent c1 s1)
      else if \<not> wait then SendDone Full c s
      else case add_waiter me (InTask t) True (c_senders c) s of
             (i, ws, s1) \<Rightarrow> SendParks i (c\<lparr>c_senders := ws\<rparr>) s1)"
  by (simp add: send_attempt_def Let_def)

lemma pushed_room: "length q < n \<Longrightarrow> n - length (q @ [v]) = n - length q - 1"
  by simp

lemma send_attempt_send:
  assumes i: "guard_inv (c_capacity c - length (c_queue c), c_senders c, s, P)" and ok: "chan_lists_ok c"
  shows "send_attempt me (InTask t) v wait c s = SendDone r c' s' \<Longrightarrow>
      guard_step\<^sup>*\<^sup>* (c_capacity c - length (c_queue c), c_senders c, s, P)
        (c_capacity c' - length (c_queue c'), c_senders c', s', P)"
    and "t \<notin> fst ` set P \<Longrightarrow> send_attempt me (InTask t) v wait c s = SendParks j c' s' \<Longrightarrow>
      guard_step\<^sup>*\<^sup>* (c_capacity c - length (c_queue c), c_senders c, s, P)
        (c_capacity c' - length (c_queue c'), c_senders c', s', P @ [(t, j, next_wait s)])"
proof -
  assume "send_attempt me (InTask t) v wait c s = SendDone r c' s'"
  then consider "c' = c" "s' = s"
    | "value_added me (c\<lparr>c_queue := c_queue c @ [v]\<rparr>) s = (c', s')" "length (c_queue c) < c_capacity c"
    by (auto simp: send_attempt_eq split: if_splits prod.splits)
  then show "guard_step\<^sup>*\<^sup>* (c_capacity c - length (c_queue c), c_senders c, s, P)
        (c_capacity c' - length (c_queue c'), c_senders c', s', P)"
  proof cases
    case 2
    let ?n = "c_capacity c - length (c_queue c)"
    have g: "guard_step (?n, c_senders c, s, P) (?n - 1, c_senders c, s, P)"
      by (rule guard_take) (use 2 in auto)
    have "guard_step\<^sup>*\<^sup>* (?n - 1, c_senders c, s, P) (?n - 1, c_senders c, s', P)"
      using value_added_calm [OF guard_step_inv [OF g i] _ _ 2(1)] lists_okD [OF ok] by simp
    with g show ?thesis using value_added_send [OF 2(1)] by simp
  qed simp
next
  assume t: "t \<notin> fst ` set P" and "send_attempt me (InTask t) v wait c s = SendParks j c' s'"
  then have "\<not> length (c_queue c) < c_capacity c" "c_queue c' = c_queue c" "c_capacity c' = c_capacity c"
      "add_waiter me (InTask t) True (c_senders c) s = (j, c_senders c', s')"
    by (auto simp: send_attempt_eq split: if_splits prod.splits)
  then show "guard_step\<^sup>*\<^sup>* (c_capacity c - length (c_queue c), c_senders c, s, P)
        (c_capacity c' - length (c_queue c'), c_senders c', s', P @ [(t, j, next_wait s)])"
    using guard_step.enqueue [OF t] by auto
qed

lemma send_again_send:
  assumes i: "guard_inv (c_capacity c - length (c_queue c), c_senders c, s, P)" and ok: "chan_lists_ok c"
    and e: "(t, j, w) \<in> set P"
  shows "send_again me (InTask t) v j (woken_as s t) c s = SendDone r c' s' \<Longrightarrow>
      guard_step\<^sup>*\<^sup>* (c_capacity c - length (c_queue c), c_senders c, s, P)
        (c_capacity c' - length (c_queue c'), c_senders c', s', unpark t P)"
    and "send_again me (InTask t) v j (woken_as s t) c s = SendParks k c' s' \<Longrightarrow>
      guard_step\<^sup>*\<^sup>* (c_capacity c - length (c_queue c), c_senders c, s, P)
        (c_capacity c' - length (c_queue c'), c_senders c', s', unpark t P @ [(t, k, next_wait s)])"
proof -
  let ?c = "c\<lparr>c_senders := remove_waiter j (c_senders c)\<rparr>" and ?n = "c_capacity c - length (c_queue c)"
  assume "send_again me (InTask t) v j (woken_as s t) c s = SendDone r c' s'"
  then consider "c' = ?c" "s' = s" "woken_as s t = WCancelled \<or> c_sending_closed c \<or> c_receiver_gone c"
    | "value_added me (?c\<lparr>c_queue := c_queue c @ [v]\<rparr>) s = (c', s')" "length (c_queue c) < c_capacity c"
    by (auto simp: send_again_def send_attempt_eq Let_def split: if_splits prod.splits)
  then show "guard_step\<^sup>*\<^sup>* (?n, c_senders c, s, P)
        (c_capacity c' - length (c_queue c'), c_senders c', s', unpark t P)"
  proof cases
    case 1
    then have "woken_as s t = WCancelled \<or> ?n = 0 \<or> wl_list (c_senders c) = []" using lists_okD(5) [OF ok] by blast
    from guard_step.back_leave [OF e this] show ?thesis using 1 by auto
  next
    case 2
    have g: "guard_step (?n, c_senders c, s, P) (?n - 1, remove_waiter j (c_senders c), s, unpark t P)"
      by (rule guard_back_take [OF e]) (use 2 in auto)
    have "guard_step\<^sup>*\<^sup>* (?n - 1, remove_waiter j (c_senders c), s, unpark t P)
        (?n - 1, remove_waiter j (c_senders c), s', unpark t P)"
      using value_added_calm [OF guard_step_inv [OF g i] _ _ 2(1)] lists_okD [OF ok] by simp
    with g show ?thesis using value_added_send [OF 2(1)] by simp
  qed
next
  assume "send_again me (InTask t) v j (woken_as s t) c s = SendParks k c' s'"
  then have "\<not> length (c_queue c) < c_capacity c" "c_queue c' = c_queue c" "c_capacity c' = c_capacity c"
      "add_waiter me (InTask t) True (remove_waiter j (c_senders c)) s = (k, c_senders c', s')"
    by (auto simp: send_again_def send_attempt_eq Let_def split: if_splits prod.splits)
  then show "guard_step\<^sup>*\<^sup>* (c_capacity c - length (c_queue c), c_senders c, s, P)
        (c_capacity c' - length (c_queue c'), c_senders c', s', unpark t P @ [(t, k, next_wait s)])"
    using guard_step.back_wait [OF e] by auto
qed

lemma receive_attempt_send:
  assumes i: "guard_inv (c_capacity c - length (c_queue c), c_senders c, s, P)" and ok: "chan_lists_ok c"
    and q: "length (c_queue c) \<le> c_capacity c" and t: "t \<notin> fst ` set P"
  shows "receive_attempt me (InTask t) d c s = RecvDone r c' s' \<Longrightarrow>
      guard_step\<^sup>*\<^sup>* (c_capacity c - length (c_queue c), c_senders c, s, P)
        (c_capacity c' - length (c_queue c'), c_senders c', s', P)"
    and "receive_attempt me (InTask t) d c s = RecvParks j c' s' \<Longrightarrow>
      guard_step\<^sup>*\<^sup>* (c_capacity c - length (c_queue c), c_senders c, s, P)
        (c_capacity c' - length (c_queue c'), c_senders c', s', P)"
proof -
  assume a: "receive_attempt me (InTask t) d c s = RecvDone r c' s'"
  show "guard_step\<^sup>*\<^sup>* (c_capacity c - length (c_queue c), c_senders c, s, P)
        (c_capacity c' - length (c_queue c'), c_senders c', s', P)"
  proof (cases "c_queue c")
    case (Cons v q')
    then have rm: "room_made me (c\<lparr>c_queue := q'\<rparr>) s = (c', s')"
      using a by (auto simp: receive_attempt_eq split: prod.splits)
    have "c_capacity c' - length (c_queue c') = Suc (c_capacity c - length (c_queue c))"
      using room_made_recv [OF rm] q Cons by simp
    then show ?thesis
      using room_made_send [OF _ _ rm, of "c_capacity c - length (c_queue c)" P] i lists_okD(4) [OF ok] by simp
  qed (use a in \<open>auto simp: receive_attempt_eq split: if_splits prod.splits\<close>)
next
  assume "receive_attempt me (InTask t) d c s = RecvParks j c' s'"
  then have "c_queue c' = c_queue c" "c_senders c' = c_senders c" "c_capacity c' = c_capacity c"
      "s' = snd (begin_wait me t True s)"
    by (auto simp: receive_attempt_eq add_waiter_task split: if_splits prod.splits list.splits)
  then show "guard_step\<^sup>*\<^sup>* (c_capacity c - length (c_queue c), c_senders c, s, P)
        (c_capacity c' - length (c_queue c'), c_senders c', s', P)"
    using r_into_rtranclp [where r = guard_step, OF calm_begin_wait [OF i t]] by simp
qed

lemma receive_again_send:
  assumes i: "guard_inv (c_capacity c - length (c_queue c), c_senders c, s, P)" and ok: "chan_lists_ok c"
    and q: "length (c_queue c) \<le> c_capacity c" and t: "t \<notin> fst ` set P"
  shows "receive_again me (InTask t) d j how c s = RecvDone r c' s' \<Longrightarrow>
      guard_step\<^sup>*\<^sup>* (c_capacity c - length (c_queue c), c_senders c, s, P)
        (c_capacity c' - length (c_queue c'), c_senders c', s', P)"
    and "receive_again me (InTask t) d j how c s = RecvParks k c' s' \<Longrightarrow>
      guard_step\<^sup>*\<^sup>* (c_capacity c - length (c_queue c), c_senders c, s, P)
        (c_capacity c' - length (c_queue c'), c_senders c', s', P)"
  using receive_attempt_send [of "c\<lparr>c_receivers := remove_waiter j (c_receivers c)\<rparr>" s P t me d] i
    chan_lists_ok_remove(2) [OF ok, of j] t q
  by (auto simp: receive_again_def Let_def split: if_splits)

lemma chan_step_send:
  assumes st: "chan_step x y" and inv: "chan_inv x" and gi: "guard_inv (send_view x)"
  shows "guard_step\<^sup>*\<^sup>* (send_view x) (send_view y)"
  using assms
proof (induction rule: chan_step.induct)
  case (sends t PR PS me v wait c s r c' s' h)
  then show ?case using send_attempt_send(1) [OF _ chan_invD(1) [OF sends(3)] sends(2)] by simp
next
  case (send_parks t PR PS me v wait c s j c' s' h)
  then show ?case using send_attempt_send(2) [OF _ chan_invD(1) [OF send_parks(3)] _ send_parks(2)] by (simp add: busy_def)
next
  case (send_back t j w PS me v s c r c' s' h PR)
  then show ?case using send_again_send(1) [OF _ chan_invD(1) [OF send_back(3)] send_back(1,2)] by simp
next
  case (send_back_parks t j w PS me v s c k c' s' h PR)
  then show ?case using send_again_send(2) [OF _ chan_invD(1) [OF send_back_parks(3)] send_back_parks(1,2)] by simp
next
  case (receives t PR PS c me d s r c' s' h)
  then show ?case using receive_attempt_send(1) [OF _ chan_invD(1) [OF receives(4)] _ _ receives(3)]
      chan_invD(2) [OF receives(4)] by (simp add: busy_def chan_queue_ok_def)
next
  case (receive_parks t PR PS c me d s j c' s' h)
  then show ?case using receive_attempt_send(2) [OF _ chan_invD(1) [OF receive_parks(4)] _ _ receive_parks(3)]
      chan_invD(2) [OF receive_parks(4)] by (simp add: busy_def chan_queue_ok_def)
next
  case (receive_back t j w PR me d s c r c' s' h PS)
  have "t \<notin> fst ` set PS" using chan_invD(4) [OF receive_back(3)] receive_back(1) by force
  then show ?case using receive_again_send(1) [OF _ chan_invD(1) [OF receive_back(3)] _ _ receive_back(2)]
      chan_invD(2) [OF receive_back(3)] receive_back(4) by (simp add: chan_queue_ok_def)
next
  case (receive_back_parks t j w PR me d s c k c' s' h PS)
  have "t \<notin> fst ` set PS" using chan_invD(4) [OF receive_back_parks(3)] receive_back_parks(1) by force
  then show ?case using receive_again_send(2) [OF _ chan_invD(1) [OF receive_back_parks(3)] _ _ receive_back_parks(2)]
      chan_invD(2) [OF receive_back_parks(3)] receive_back_parks(4) by (simp add: chan_queue_ok_def)
next
  case (closes me c s c' s' h PR PS)
  note ok = lists_okD [OF chan_invD(1) [OF closes(2)]]
  have "c_queue c' = c_queue c" "c_capacity c' = c_capacity c"
    using closes(1) unfolding close_sending_def by (auto elim: wake_everyone_frame)
  then show ?case
    using wake_everyone_guard(2) [of "c\<lparr>c_sending_closed := True\<rparr>"] ok closes unfolding close_sending_def by simp
next
  case (drops me c s vs c' s' h PS)
  note ok = lists_okD [OF chan_invD(1) [OF drops(3)]]
  obtain c1 where w: "wake_everyone me (c\<lparr>c_receiver_gone := True\<rparr>) s = (c1, s')" "c' = c1\<lparr>c_queue := []\<rparr>"
    using drops(1) by (auto simp: receiver_dropped_def split: prod.splits)
  then show ?case
    using wake_everyone_guard(2) [OF _ _ _ _ w(1), where m = "c_capacity c'"] ok drops by simp
next
  case (other PR s s' PS c h)
  then show ?case using r_into_rtranclp [where r = guard_step, OF guard_step.elsewhere [OF other(2)]] by simp
qed (auto simp: watch_receiver_def watch_sender_def unwatch_receiver_def unwatch_sender_def Let_def
    split: if_splits prod.splits)

section \<open>The interface met\<close>

text \<open>Each side with the other side's parked tasks as part of the component.\<close>

definition chan_init :: "('v chan \<times> 'v history) \<times> parked \<Rightarrow> sched \<Rightarrow> bool" where
  "chan_init c s = (\<exists>capacity. c = ((chan_new capacity, \<lparr>sent = [], got = [], undelivered = []\<rparr>), []) \<and> 0 < next_wait s)"

lemma chan_init_inv:
  "chan_init (ch, P) s \<Longrightarrow> chan_inv (ch, s, [], P) \<and> chan_inv (ch, s, P, []) \<and>
     c_receivers (fst ch) = waiters_new \<and> c_senders (fst ch) = waiters_new"
  by (auto simp: chan_init_def chan_inv_def chan_lists_ok_def chan_queue_ok_def chan_new_def)

interpretation rv: guarded "\<lambda>(ch, PS). length (c_queue (fst ch))" "\<lambda>(ch, PS). c_receivers (fst ch)"
    "\<lambda>((ch, PS), s, PR) ((ch', PS'), s', PR'). chan_step (ch, s, PR, PS) (ch', s', PR', PS')"
    "\<lambda>(ch, PS) s PR. chan_inv (ch, s, PR, PS)" chan_init
proof (unfold_locales, goal_cases)
  case (1 c s P c' s' P')
  obtain a h X where c: "c = ((a, h), X)" by (cases c) auto
  obtain a' h' X' where c': "c' = ((a', h'), X')" by (cases c') auto
  from 1 have st: "chan_step ((a, h), s, P, X) ((a', h'), s', P', X')" and i: "chan_inv ((a, h), s, P, X)"
    and g: "guard_inv (recv_view ((a, h), s, P, X))" by (simp_all add: c c')
  show ?case using chan_step_recv [OF st i g] chan_step_inv [OF st i] by (simp add: c c')
next
  case (2 c s)
  then show ?case using chan_init_inv [of "fst c" "snd c" s] by (simp add: case_prod_beta chan_init_def)
qed

interpretation sv: guarded "\<lambda>(ch, PR). c_capacity (fst ch) - length (c_queue (fst ch))"
    "\<lambda>(ch, PR). c_senders (fst ch)"
    "\<lambda>((ch, PR), s, PS) ((ch', PR'), s', PS'). chan_step (ch, s, PR, PS) (ch', s', PR', PS')"
    "\<lambda>(ch, PR) s PS. chan_inv (ch, s, PR, PS)" chan_init
proof (unfold_locales, goal_cases)
  case (1 c s P c' s' P')
  obtain a h X where c: "c = ((a, h), X)" by (cases c) auto
  obtain a' h' X' where c': "c' = ((a', h'), X')" by (cases c') auto
  from 1 have st: "chan_step ((a, h), s, X, P) ((a', h'), s', X', P')" and i: "chan_inv ((a, h), s, X, P)"
    and g: "guard_inv (send_view ((a, h), s, X, P))" by (simp_all add: c c')
  show ?case using chan_step_send [OF st i g] chan_step_inv [OF st i] by (simp add: c c')
next
  case (2 c s)
  then show ?case using chan_init_inv [of "fst c" "snd c" s] by (simp add: case_prod_beta chan_init_def)
qed


section \<open>Runs of a channel\<close>

definition no_history :: "'v history" where
  "no_history = \<lparr>sent = [], got = [], undelivered = []\<rparr>"

lemma chan_new_init: "0 < next_wait s \<Longrightarrow> chan_init ((chan_new capacity, no_history), []) s"
  by (auto simp: chan_init_def no_history_def)

lemma chan_steps_recv:
  assumes "chan_step\<^sup>*\<^sup>* (ch, s, PR, PS) (ch', s', PR', PS')"
  shows "(\<lambda>((ch, PS), s, PR) ((ch', PS'), s', PR'). chan_step (ch, s, PR, PS) (ch', s', PR', PS'))\<^sup>*\<^sup>*
    ((ch, PS), s, PR) ((ch', PS'), s', PR')" (is "?R\<^sup>*\<^sup>* _ _")
proof -
  let ?v = "\<lambda>(ch, s, PR, PS). ((ch, PS), s, PR)"
  have "?R\<^sup>*\<^sup>* (?v x) (?v y)" if "chan_step\<^sup>*\<^sup>* x y" for x y using that
  proof (induction rule: rtranclp_induct)
    case (step y z)
    then have "?R (?v y) (?v z)" by (cases y; cases z) simp
    with step show ?case by (rule_tac rtranclp.rtrancl_into_rtrancl)
  qed simp
  from this [OF assms] show ?thesis by simp
qed

lemma chan_steps_send:
  assumes "chan_step\<^sup>*\<^sup>* (ch, s, PR, PS) (ch', s', PR', PS')"
  shows "(\<lambda>((ch, PR), s, PS) ((ch', PR'), s', PS'). chan_step (ch, s, PR, PS) (ch', s', PR', PS'))\<^sup>*\<^sup>*
    ((ch, PR), s, PS) ((ch', PR'), s', PS')" (is "?R\<^sup>*\<^sup>* _ _")
proof -
  let ?v = "\<lambda>(ch, s, PR, PS). ((ch, PR), s, PS)"
  have "?R\<^sup>*\<^sup>* (?v x) (?v y)" if "chan_step\<^sup>*\<^sup>* x y" for x y using that
  proof (induction rule: rtranclp_induct)
    case (step y z)
    then have "?R (?v y) (?v z)" by (cases y; cases z) simp
    with step show ?case by (rule_tac rtranclp.rtrancl_into_rtrancl)
  qed simp
  from this [OF assms] show ?thesis by simp
qed

lemma wake_everyone_capacity: "wake_everyone me c s = (c', s') \<Longrightarrow> c_capacity c' = c_capacity c"
  by (elim wake_everyone_frame) simp

lemma send_attempt_capacity:
  "send_attempt me r v wait c s = SendDone x c' s' \<Longrightarrow> c_capacity c' = c_capacity c"
  "send_attempt me r v wait c s = SendParks i c' s' \<Longrightarrow> c_capacity c' = c_capacity c"
  by (auto simp: send_attempt_def Let_def elim!: value_added_frame split: if_splits prod.splits)

lemma receive_attempt_capacity:
  "receive_attempt me r d c s = RecvDone x c' s' \<Longrightarrow> c_capacity c' = c_capacity c"
  "receive_attempt me r d c s = RecvParks i c' s' \<Longrightarrow> c_capacity c' = c_capacity c"
  by (auto simp: receive_attempt_def Let_def elim!: room_made_frame split: if_splits prod.splits option.splits)

lemma chan_step_capacity: "chan_step x y \<Longrightarrow> c_capacity (fst (fst y)) = c_capacity (fst (fst x))"
  by (induction rule: chan_step.induct)
    (auto simp: send_again_def receive_again_def close_sending_def receiver_dropped_def watch_receiver_def
      watch_sender_def unwatch_receiver_def unwatch_sender_def Let_def
      dest!: send_attempt_capacity receive_attempt_capacity wake_everyone_capacity split: if_splits prod.splits)

lemma chan_steps_capacity: "chan_step\<^sup>*\<^sup>* x y \<Longrightarrow> c_capacity (fst (fst y)) = c_capacity (fst (fst x))"
  by (induction rule: rtranclp_induct) (simp_all add: chan_step_capacity)

text \<open>
  C4. First in, first out, bounded, nothing lost or duplicated: after any interleaving of sends,
  receives, closes, drops and watches, what was sent is what was received followed by what is still
  queued, in order (or by what the dropped receiver end left), and the queue never exceeds the
  capacity asked for, at least one.
\<close>

theorem channel_fifo_bounded:
  assumes "0 < next_wait s0"
    "chan_step\<^sup>*\<^sup>* ((chan_new capacity, no_history), s0, [], []) ((c, h), s, PR, PS)"
  shows "sent h = got h @ undelivered h @ c_queue c \<and> length (c_queue c) \<le> unat (max capacity 1) \<and>
    (undelivered h \<noteq> [] \<longrightarrow> c_receiver_gone c) \<and> (c_receiver_gone c \<longrightarrow> c_queue c = [])"
  using rv.reachable_inv(1) [OF chan_new_init [OF assms(1)] assms(1) chan_steps_recv [OF assms(2)]]
    chan_steps_capacity [OF assms(2)]
  by (simp add: chan_inv_def chan_queue_ok_def chan_new_def)

text \<open>
  C5. No receiver sleeps over a value: while a receiver registered on the channel is still asleep,
  each queued value has a woken receiver on its way back to take it.
\<close>

theorem channel_receivers_woken:
  assumes "0 < next_wait s0"
    "chan_step\<^sup>*\<^sup>* ((chan_new capacity, no_history), s0, [], []) ((c, h), s, PR, PS)"
    "(i, TaskWaker t w) \<in> set (wl_list (c_receivers c))" "t_wait (tasks s t) = w"
  shows "length (c_queue c) \<le> length (filter (returning s) PR)"
  using rv.no_lost_notification [OF chan_new_init [OF assms(1)] assms(1) chan_steps_recv [OF assms(2)]] assms(3,4)
  by simp

text \<open>
  C14. No sender sleeps over room: while a sender registered on the channel is still asleep, each
  free place has a woken sender on its way back to use it.
\<close>

theorem channel_senders_woken:
  assumes "0 < next_wait s0"
    "chan_step\<^sup>*\<^sup>* ((chan_new capacity, no_history), s0, [], []) ((c, h), s, PR, PS)"
    "(i, TaskWaker t w) \<in> set (wl_list (c_senders c))" "t_wait (tasks s t) = w"
  shows "c_capacity c - length (c_queue c) \<le> length (filter (returning s) PS)"
  using sv.no_lost_notification [OF chan_new_init [OF assms(1)] assms(1) chan_steps_send [OF assms(2)]] assms(3,4)
  by simp

text \<open>Two receivers park, then a value is sent; two senders park at a full channel, then one value is received.\<close>

definition demo_chan :: "nat list \<Rightarrow> waiters \<Rightarrow> waiters \<Rightarrow> nat chan" where
  "demo_chan q r w = (chan_new 1)\<lparr>c_queue := q, c_receivers := r, c_senders := w\<rparr>"

lemma demo_receivers_run:
  "chan_step\<^sup>*\<^sup>* ((chan_new 1, no_history), demo_start, [], [])
     ((demo_chan [7] (demo_two\<lparr>wl_list := [(2, TaskWaker 3 2)]\<rparr>) waiters_new, no_history\<lparr>sent := [7]\<rparr>),
      snd (wake None 2 1 WReady demo_two_wait), [(2, 1, 1), (3, 2, 2)], [])"
proof -
  let ?s1 = "snd (begin_wait None 2 True demo_start)"
  have c0: "chan_new 1 = demo_chan [] waiters_new waiters_new" by (simp add: demo_chan_def chan_new_def)
  let ?one = "\<lparr>wl_list = [(1, TaskWaker 2 1)], wl_next = 1\<rparr>"
  have 1: "chan_step ((demo_chan [] waiters_new waiters_new, no_history), demo_start, [], [])
      ((demo_chan [] ?one waiters_new, no_history), ?s1, [] @ [(2, 1, next_wait demo_start)], [])"
    by (rule chan_step.receive_parks [where d = Never and me = None])
      (simp_all add: busy_def receive_attempt_def demo_chan_def chan_new_def add_waiter_task waiters_new_def
        demo_start_simps [unfolded One_nat_def])
  have 2: "chan_step ((demo_chan [] ?one waiters_new, no_history), ?s1, [(2, 1, 1)], [])
      ((demo_chan [] demo_two waiters_new, no_history), demo_two_wait, [(2, 1, 1)] @ [(3, 2, next_wait ?s1)], [])"
    by (rule chan_step.receive_parks [where d = Never and me = None])
      (simp_all add: busy_def receive_attempt_def demo_chan_def chan_new_def add_waiter_task
        demo_waits demo_two_def demo_two_wait_def)
  have 3: "chan_step ((demo_chan [] demo_two waiters_new, no_history), demo_two_wait, [(2, 1, 1), (3, 2, 2)], [])
     ((demo_chan [7] (demo_two\<lparr>wl_list := [(2, TaskWaker 3 2)]\<rparr>) waiters_new, log_send Sent 7 no_history),
      snd (wake None 2 1 WReady demo_two_wait), [(2, 1, 1), (3, 2, 2)], [])"
    by (rule chan_step.sends [where me = None and t = 1 and wait = True])
      (simp_all add: busy_def send_attempt_def value_added_def demo_chan_def chan_new_def demo_wake wake_all_def
        waiters_new_def)
  show ?thesis using 1 2 3 unfolding c0 by (simp add: demo_start_simps demo_waits log_send_def no_history_def del: One_nat_def)
qed

theorem channel_fifo_bounded_witness:
  "sent (no_history\<lparr>sent := [7::nat]\<rparr>) =
     c_queue (demo_chan [7] (demo_two\<lparr>wl_list := [(2, TaskWaker 3 2)]\<rparr>) waiters_new)"
  using channel_fifo_bounded [OF _ demo_receivers_run] by (simp add: demo_start_simps no_history_def)

theorem channel_receivers_woken_witness:
  "length (c_queue (demo_chan [7] (demo_two\<lparr>wl_list := [(2, TaskWaker 3 2)]\<rparr>) waiters_new)) = 1 \<and>
   length (c_queue (demo_chan [7] (demo_two\<lparr>wl_list := [(2, TaskWaker 3 2)]\<rparr>) waiters_new)) \<le>
     length (filter (returning (snd (wake None 2 1 WReady demo_two_wait))) [(2, 1, 1), (3, 2, 2)])"
  using channel_receivers_woken [OF _ demo_receivers_run, of 2 3 2]
  by (simp add: demo_start_simps demo_chan_def wake_wait demo_waits)

lemma demo_senders_run:
  "chan_step\<^sup>*\<^sup>* ((chan_new 1, no_history), demo_start, [], [])
     ((demo_chan [] waiters_new (demo_two\<lparr>wl_list := [(2, TaskWaker 3 2)]\<rparr>), no_history\<lparr>sent := [7], got := [7]\<rparr>),
      snd (wake None 2 1 WReady demo_two_wait), [], [(2, 1, 1), (3, 2, 2)])"
proof -
  let ?s1 = "snd (begin_wait None 2 True demo_start)"
  let ?h = "no_history\<lparr>sent := [7]\<rparr>"
  have c0: "chan_new 1 = demo_chan [] waiters_new waiters_new" by (simp add: demo_chan_def chan_new_def)
  let ?one = "\<lparr>wl_list = [(1, TaskWaker 2 1)], wl_next = 1\<rparr>"
  have 0: "chan_step ((demo_chan [] waiters_new waiters_new, no_history), demo_start, [], [])
      ((demo_chan [7] waiters_new waiters_new, log_send Sent 7 no_history), demo_start, [], [])"
    by (rule chan_step.sends [where me = None and t = 1 and wait = True])
      (simp_all add: busy_def send_attempt_def value_added_def demo_chan_def chan_new_def wake_all_def wake_one_def
        waiters_new_def)
  have 1: "chan_step ((demo_chan [7] waiters_new waiters_new, ?h), demo_start, [], [])
      ((demo_chan [7] waiters_new ?one, ?h), ?s1, [], [] @ [(2, 1, next_wait demo_start)])"
    by (rule chan_step.send_parks [where me = None and wait = True and v = 8])
      (simp_all add: busy_def send_attempt_def demo_chan_def chan_new_def add_waiter_task waiters_new_def
        demo_start_simps [unfolded One_nat_def])
  have 2: "chan_step ((demo_chan [7] waiters_new ?one, ?h), ?s1, [], [(2, 1, 1)])
      ((demo_chan [7] waiters_new demo_two, ?h), demo_two_wait, [], [(2, 1, 1)] @ [(3, 2, next_wait ?s1)])"
    by (rule chan_step.send_parks [where me = None and wait = True and v = 9])
      (simp_all add: busy_def send_attempt_def demo_chan_def chan_new_def add_waiter_task
        demo_waits demo_two_def demo_two_wait_def)
  have 3: "chan_step ((demo_chan [7] waiters_new demo_two, ?h), demo_two_wait, [], [(2, 1, 1), (3, 2, 2)])
     ((demo_chan [] waiters_new (demo_two\<lparr>wl_list := [(2, TaskWaker 3 2)]\<rparr>), log_receive (Received 7) ?h),
      snd (wake None 2 1 WReady demo_two_wait), [], [(2, 1, 1), (3, 2, 2)])"
    by (rule chan_step.receives [where me = None and t = 1 and d = Never])
      (simp_all add: busy_def receive_attempt_def room_made_def demo_chan_def chan_new_def demo_wake wake_all_def
        waiters_new_def)
  show ?thesis using 0 1 2 3 unfolding c0
    by (simp add: demo_start_simps demo_waits log_send_def log_receive_def no_history_def del: One_nat_def)
qed

theorem channel_senders_woken_witness:
  "c_capacity (demo_chan [] waiters_new (demo_two\<lparr>wl_list := [(2, TaskWaker 3 2)]\<rparr>)) = 1 \<and>
   1 \<le> length (filter (returning (snd (wake None 2 1 WReady demo_two_wait))) [(2, 1, 1), (3, 2, 2)])"
  using channel_senders_woken [OF _ demo_senders_run, of 2 3 2]
  by (simp add: demo_start_simps demo_chan_def chan_new_def wake_wait demo_waits)

end
