(* ===== verification/Tasks.thy ===== *)
theory Tasks
  imports Resource
begin

text \<open>
  Tasks as Roc sees them (\<^verbatim>\<open>src/tasks.rs\<close>, and \<^verbatim>\<open>TaskRef\<close> of \<^verbatim>\<open>src/sched.rs\<close>): spawning against the
  task limit, handles for joining and cancelling, results, and the groups behind \<^verbatim>\<open>Task.scope!\<close>.

  Closures are numbered; the state has Roc's count of references to each.  A job is what a spawned
  task still has to do, with the slot it holds against the limit.  An operation that takes a handle
  or a group consumes the caller's reference to it, as the source does with \<^verbatim>\<open>decref_box_with\<close>.
\<close>

section \<open>References to tasks\<close>

definition is_finished :: "nat \<Rightarrow> sched \<Rightarrow> bool" where
  "is_finished t s = t_finished (tasks s t)"

definition drop_handle :: "nat \<Rightarrow> sched \<Rightarrow> sched" where
  "drop_handle t s = upd_task t (\<lambda>tk. tk\<lparr>t_handles := t_handles tk - 1\<rparr>) s"

definition has_handles :: "nat \<Rightarrow> sched \<Rightarrow> bool" where
  "has_handles t s \<longleftrightarrow> 0 < t_handles (tasks s t)"

text \<open>\<^verbatim>\<open>set_result\<close>: the result it replaces comes back, to be dropped.\<close>

definition set_result :: "nat \<Rightarrow> nat \<Rightarrow> sched \<Rightarrow> nat option \<times> sched" where
  "set_result t c s = (t_result (tasks s t), upd_task t (\<lambda>tk. tk\<lparr>t_result := Some c\<rparr>) s)"

definition watch_finished :: "nat \<Rightarrow> task_waker \<Rightarrow> sched \<Rightarrow> nat option \<times> sched" where
  "watch_finished t wk s =
     (if t_finished (tasks s t) then (None, s)
      else let (i, ws) = add_waker wk (t_finish_waiters (tasks s t))
           in (Some i, upd_task t (\<lambda>tk. tk\<lparr>t_finish_waiters := ws\<rparr>) s))"

definition unwatch_finished :: "nat \<Rightarrow> nat \<Rightarrow> sched \<Rightarrow> sched" where
  "unwatch_finished t i s =
     upd_task t (\<lambda>tk. tk\<lparr>t_finish_waiters := remove_waiter i (t_finish_waiters tk)\<rparr>) s"

text \<open>
  One turn of \<^verbatim>\<open>wait_finished\<close>: \<open>Inl\<close> is how it returns, \<open>Inr\<close> the id to park under; and the turn after
  parking.
\<close>

definition wait_finished_attempt ::
  "nat option \<Rightarrow> runner \<Rightarrow> bool \<Rightarrow> nat \<Rightarrow> sched \<Rightarrow> woke + nat \<times> sched" where
  "wait_finished_attempt me r cable t s =
     (if t_finished (tasks s t) then Inl WReady
      else let (i, ws, s1) = add_waiter me r cable (t_finish_waiters (tasks s t)) s
           in Inr (i, upd_task t (\<lambda>tk. tk\<lparr>t_finish_waiters := ws\<rparr>) s1))"

definition wait_finished_again ::
  "nat option \<Rightarrow> runner \<Rightarrow> bool \<Rightarrow> nat \<Rightarrow> nat \<Rightarrow> woke \<Rightarrow> sched \<Rightarrow> sched \<times> (woke + nat \<times> sched)" where
  "wait_finished_again me r cable t i how s =
     (let s1 = unwatch_finished t i s
      in (s1, if how = WCancelled then Inl WCancelled else wait_finished_attempt me r cable t s1))"

text \<open>\<^verbatim>\<open>current_task_id\<close> and \<^verbatim>\<open>is_cancelled\<close> of the running task.\<close>

fun current_task_id :: "runner \<Rightarrow> sched \<Rightarrow> nat option" where
  "current_task_id (InTask t) s = Some (t_id (tasks s t))"
| "current_task_id (OnThread th) s = None"

fun is_cancelled :: "runner \<Rightarrow> sched \<Rightarrow> bool" where
  "is_cancelled (InTask t) s = t_cancelled (tasks s t)"
| "is_cancelled (OnThread th) s = False"

section \<open>State\<close>

datatype task_obj = HandleObj nat | GroupObj "nat list"

text \<open>A job runs a Roc closure, or host code.\<close>

datatype job = RocJob nat | HostJob

record task_world =
  tw_sched :: sched
  tw_live :: nat
  tw_heap :: "task_obj heap"
  tw_jobs :: "nat \<Rightarrow> job option"
  tw_refs :: "nat \<Rightarrow> int"
  tw_warned :: bool

definition on_sched :: "(sched \<Rightarrow> sched) \<Rightarrow> task_world \<Rightarrow> task_world" where
  "on_sched f w = w\<lparr>tw_sched := f (tw_sched w)\<rparr>"

text \<open>\<^verbatim>\<open>Slot\<close> and \<^verbatim>\<open>Closure\<close> dropped.\<close>

definition drop_slot :: "task_world \<Rightarrow> task_world" where
  "drop_slot w = w\<lparr>tw_live := tw_live w - 1\<rparr>"

definition try_claim_slot :: "nat \<Rightarrow> task_world \<Rightarrow> task_world option" where
  "try_claim_slot limit w = (if tw_live w < limit then Some (w\<lparr>tw_live := tw_live w + 1\<rparr>) else None)"

definition decref_closure :: "nat \<Rightarrow> task_world \<Rightarrow> task_world" where
  "decref_closure c w = w\<lparr>tw_refs := (tw_refs w)(c := tw_refs w c - 1)\<rparr>"

definition incref_closure :: "nat \<Rightarrow> task_world \<Rightarrow> task_world" where
  "incref_closure c w = w\<lparr>tw_refs := (tw_refs w)(c := tw_refs w c + 1)\<rparr>"

fun drop_job :: "job \<Rightarrow> task_world \<Rightarrow> task_world" where
  "drop_job (RocJob c) w = drop_slot (decref_closure c w)"
| "drop_job HostJob w = drop_slot w"

fun drop_obj :: "task_obj \<Rightarrow> task_world \<Rightarrow> task_world" where
  "drop_obj (HandleObj t) w = on_sched (drop_handle t) w"
| "drop_obj (GroupObj ts) w = w"

text \<open>\<^verbatim>\<open>tasks::release\<close>: the object behind the address is dropped, then its slot is free.\<close>

definition release_obj :: "nat option \<Rightarrow> nat \<Rightarrow> task_world \<Rightarrow> bool \<times> task_world" where
  "release_obj me a w =
     (case release_begin a (tw_heap w) of
        (Dropping i r, h) \<Rightarrow>
          let w1 = (case r of None \<Rightarrow> w\<lparr>tw_heap := h\<rparr> | Some ob \<Rightarrow> drop_obj ob (w\<lparr>tw_heap := h\<rparr>));
              (h2, s2) = free_slot me i (tw_heap w1) (tw_sched w1)
          in (True, w1\<lparr>tw_heap := h2, tw_sched := s2\<rparr>)
      | (out, h) \<Rightarrow> (release_result out, w\<lparr>tw_heap := h\<rparr>))"

text \<open>
  The reference of the caller released (\<^verbatim>\<open>decref_box_with\<close> on the handle): the count is in the slot, and
  the last reference frees the address of the count.
\<close>

definition decref_handle :: "nat option \<Rightarrow> nat \<Rightarrow> task_world \<Rightarrow> task_world" where
  "decref_handle me a w =
     (case payload_index (tw_heap w) a of
        None \<Rightarrow> w
      | Some i \<Rightarrow>
          let sl = h_slots (tw_heap w) ! i; rc = sl_refcount sl
          in if rc = 0 then w
             else let w1 = w\<lparr>tw_heap := (tw_heap w)\<lparr>h_slots := (h_slots (tw_heap w))[i := sl\<lparr>sl_refcount := rc - 1\<rparr>]\<rparr>\<rparr>
                  in if rc = 1 then snd (release_obj me (a - 8) w1) else w1)"

definition with_obj :: "nat option \<Rightarrow> nat \<Rightarrow> (task_obj option \<Rightarrow> task_world \<Rightarrow> 'r \<times> task_world) \<Rightarrow> task_world \<Rightarrow> 'r \<times> task_world" where
  "with_obj me a f w = (let (x, w1) = f (heap_get (tw_heap w) a) w in (x, decref_handle me a w1))"

section \<open>Spawning\<close>

text \<open>\<^verbatim>\<open>roc_task_spawn\<close>: the handle's address, or \<open>None\<close> (\<^verbatim>\<open>TaskLimitReached\<close>).\<close>

definition task_spawn :: "nat \<Rightarrow> bool \<Rightarrow> nat option \<Rightarrow> nat \<Rightarrow> task_world \<Rightarrow> nat option \<times> task_world" where
  "task_spawn limit can_map me c w =
     (case try_claim_slot limit w of
        None \<Rightarrow> (None, decref_closure c w)
      | Some w1 \<Rightarrow>
          case try_reserve (tw_heap w1) of
            None \<Rightarrow> (None, decref_closure c (drop_slot w1))
          | Some (i, h) \<Rightarrow>
              let w2 = w1\<lparr>tw_heap := h\<rparr>
              in case spawn can_map me (tw_sched w2) of
                   (Some t, s) \<Rightarrow>
                     let (a, h2) = heap_insert i (HandleObj t) h
                     in (Some a, w2\<lparr>tw_sched := s, tw_heap := h2, tw_jobs := (tw_jobs w2)(t \<mapsto> RocJob c)\<rparr>)
                 | (None, s) \<Rightarrow>
                     let w3 = drop_job (RocJob c) (w2\<lparr>tw_sched := s, tw_warned := True\<rparr>);
                         (h3, s3) = free_slot me i (tw_heap w3) (tw_sched w3)
                     in (None, w3\<lparr>tw_heap := h3, tw_sched := s3\<rparr>))"

definition spawn_host :: "nat \<Rightarrow> bool \<Rightarrow> nat option \<Rightarrow> task_world \<Rightarrow> nat option \<times> task_world" where
  "spawn_host limit can_map me w =
     (case try_claim_slot limit w of
        None \<Rightarrow> (None, w)
      | Some w1 \<Rightarrow>
          case spawn can_map me (tw_sched w1) of
            (Some t, s) \<Rightarrow> (Some t, w1\<lparr>tw_sched := s, tw_jobs := (tw_jobs w1)(t \<mapsto> HostJob)\<rparr>)
          | (None, s) \<Rightarrow> (None, drop_job HostJob (w1\<lparr>tw_sched := s, tw_warned := True\<rparr>)))"

text \<open>
  The end of a task's job: the closure has run, which took its reference, and the slot is dropped.
\<close>

definition job_done :: "nat \<Rightarrow> task_world \<Rightarrow> task_world" where
  "job_done t w = drop_slot (w\<lparr>tw_jobs := (tw_jobs w)(t := None)\<rparr>)"

section \<open>Results\<close>

fun task_finish :: "runner \<Rightarrow> nat \<Rightarrow> task_world \<Rightarrow> bool \<times> task_world" where
  "task_finish (InTask t) c w =
     (let watched = has_handles t (tw_sched w);
          (old, s) = set_result t c (tw_sched w);
          w1 = w\<lparr>tw_sched := s\<rparr>
      in (watched, case old of None \<Rightarrow> w1 | Some d \<Rightarrow> decref_closure d w1))"
| "task_finish (OnThread th) c w = (False, decref_closure c w)"

text \<open>\<^verbatim>\<open>roc_task_join\<close>: the task to wait for, and the answer once the wait has ended.\<close>

definition task_of :: "nat \<Rightarrow> task_world \<Rightarrow> nat option" where
  "task_of a w = (case heap_get (tw_heap w) a of Some (HandleObj t) \<Rightarrow> Some t | _ \<Rightarrow> None)"

definition join_result :: "nat \<Rightarrow> task_world \<Rightarrow> nat option \<times> task_world" where
  "join_result t w =
     (case t_result (tasks (tw_sched w) t) of
        Some c \<Rightarrow> (Some c, incref_closure c w)
      | None \<Rightarrow> (None, w))"

definition task_join_end :: "nat option \<Rightarrow> nat \<Rightarrow> nat option \<Rightarrow> woke \<Rightarrow> task_world \<Rightarrow> nat option \<times> task_world" where
  "task_join_end me a t how w =
     (let (x, w1) = (case t of
                       None \<Rightarrow> (None, w)
                     | Some t \<Rightarrow> if how = WCancelled then (None, w) else join_result t w)
      in (x, decref_handle me a w1))"

definition task_cancel :: "nat option \<Rightarrow> nat \<Rightarrow> task_world \<Rightarrow> task_world" where
  "task_cancel me a w =
     snd (with_obj me a (\<lambda>ob w. case ob of
        Some (HandleObj t) \<Rightarrow> ((), on_sched (cancel me t) w)
      | _ \<Rightarrow> ((), w)) w)"

definition task_is_finished :: "nat option \<Rightarrow> nat \<Rightarrow> task_world \<Rightarrow> bool \<times> task_world" where
  "task_is_finished me a w =
     with_obj me a (\<lambda>ob w. (case ob of Some (HandleObj t) \<Rightarrow> is_finished t (tw_sched w) | _ \<Rightarrow> True, w)) w"

text \<open>\<^verbatim>\<open>watch\<close> and \<^verbatim>\<open>unwatch\<close>, for \<^verbatim>\<open>Select\<close>.\<close>

definition watch_task :: "nat \<Rightarrow> task_waker \<Rightarrow> task_world \<Rightarrow> nat option \<times> task_world" where
  "watch_task a wk w =
     (case heap_get (tw_heap w) a of
        Some (HandleObj t) \<Rightarrow> let (i, s) = watch_finished t wk (tw_sched w) in (i, w\<lparr>tw_sched := s\<rparr>)
      | _ \<Rightarrow> (None, w))"

definition unwatch_task :: "nat \<Rightarrow> nat \<Rightarrow> task_world \<Rightarrow> task_world" where
  "unwatch_task a i w =
     (case heap_get (tw_heap w) a of
        Some (HandleObj t) \<Rightarrow> on_sched (unwatch_finished t i) w
      | _ \<Rightarrow> w)"

section \<open>Groups\<close>

definition group_new :: "task_world \<Rightarrow> nat option \<times> task_world" where
  "group_new w =
     (case try_reserve (tw_heap w) of
        None \<Rightarrow> (None, w)
      | Some (i, h) \<Rightarrow> let (a, h2) = heap_insert i (GroupObj []) h in (Some a, w\<lparr>tw_heap := h2\<rparr>))"

text \<open>The list behind a group's mutex replaced.\<close>

definition set_group :: "nat \<Rightarrow> nat list \<Rightarrow> task_world \<Rightarrow> task_world" where
  "set_group a ts w =
     (case payload_index (tw_heap w) a of
        None \<Rightarrow> w
      | Some i \<Rightarrow> w\<lparr>tw_heap := (tw_heap w)\<lparr>h_slots := (h_slots (tw_heap w))[i := (h_slots (tw_heap w) ! i)\<lparr>sl_resource := Some (GroupObj ts)\<rparr>]\<rparr>\<rparr>)"

definition group_add :: "nat option \<Rightarrow> nat \<Rightarrow> nat \<Rightarrow> task_world \<Rightarrow> task_world" where
  "group_add me g a w =
     (let (task, w1) = with_obj me a (\<lambda>ob w. (case ob of Some (HandleObj t) \<Rightarrow> Some t | _ \<Rightarrow> None, w)) w
      in case task of
           None \<Rightarrow> snd (with_obj me g (\<lambda>_ w. ((), w)) w1)
         | Some t \<Rightarrow> snd (with_obj me g (\<lambda>ob w. ((),
             case ob of
               Some (GroupObj ts) \<Rightarrow> set_group g (filter (\<lambda>u. \<not> is_finished u (tw_sched w)) ts @ [t]) w
             | _ \<Rightarrow> w)) w1))"

fun cancel_all :: "nat option \<Rightarrow> nat list \<Rightarrow> sched \<Rightarrow> sched" where
  "cancel_all me [] s = s"
| "cancel_all me (t # ts) s = cancel_all me ts (cancel me t s)"

text \<open>\<^verbatim>\<open>filter\<close> is lazy: whether a task has finished is looked at when its turn comes.\<close>

fun cancel_unfinished :: "nat option \<Rightarrow> nat list \<Rightarrow> sched \<Rightarrow> sched" where
  "cancel_unfinished me [] s = s"
| "cancel_unfinished me (t # ts) s = cancel_unfinished me ts (if is_finished t s then s else cancel me t s)"

definition group_cancel :: "nat option \<Rightarrow> nat \<Rightarrow> task_world \<Rightarrow> task_world" where
  "group_cancel me g w =
     snd (with_obj me g (\<lambda>ob w. ((),
       case ob of Some (GroupObj ts) \<Rightarrow> on_sched (cancel_unfinished me ts) w | _ \<Rightarrow> w)) w)"

text \<open>
  \<^verbatim>\<open>roc_group_close\<close> up to the waits, with the tasks to wait for; then the waits, of which
  \<open>close_wait\<close> is what runs without parking: \<open>Inl\<close> when all have ended, \<open>Inr\<close> the id to park under and
  the tasks left, the first being the one it waits for.
\<close>

definition group_close_begin :: "nat option \<Rightarrow> nat \<Rightarrow> bool \<Rightarrow> task_world \<Rightarrow> nat list \<times> task_world" where
  "group_close_begin me g cancel_them w =
     (case heap_get (tw_heap w) g of
        Some (GroupObj ts) \<Rightarrow>
          let w1 = set_group g [] w
          in (ts, if cancel_them then on_sched (cancel_all me ts) w1 else w1)
      | _ \<Rightarrow> ([], w))"

fun close_wait :: "nat option \<Rightarrow> runner \<Rightarrow> nat list \<Rightarrow> sched \<Rightarrow> sched + nat \<times> nat list \<times> sched" where
  "close_wait me r [] s = Inl s"
| "close_wait me r (t # ts) s =
     (case wait_finished_attempt me r False t s of
        Inl _ \<Rightarrow> close_wait me r ts s
      | Inr (i, s1) \<Rightarrow> Inr (i, t # ts, s1))"

fun close_again :: "nat option \<Rightarrow> runner \<Rightarrow> nat \<Rightarrow> nat list \<Rightarrow> woke \<Rightarrow> sched \<Rightarrow> sched + nat \<times> nat list \<times> sched" where
  "close_again me r i [] how s = Inl s"
| "close_again me r i (t # ts) how s =
     (case wait_finished_again me r False t i how s of
        (s1, Inl _) \<Rightarrow> close_wait me r ts s1
      | (s1, Inr (j, s2)) \<Rightarrow> Inr (j, t # ts, s2))"

definition group_close_end :: "nat option \<Rightarrow> nat \<Rightarrow> task_world \<Rightarrow> task_world" where
  "group_close_end me g w = decref_handle me g w"


section \<open>What the scheduler's operations leave of a task\<close>

lemma wake_task_frame [simp]:
  "t_cancellable (tasks (snd (wake me t w k s)) u) = t_cancellable (tasks s u)"
  "t_finished (tasks (snd (wake me t w k s)) u) = t_finished (tasks s u)"
  "t_finish_waiters (tasks (snd (wake me t w k s)) u) = t_finish_waiters (tasks s u)"
  by (simp_all add: wake_def)

lemma wake_each_frame [simp]:
  "t_cancellable (tasks (wake_each me l s) u) = t_cancellable (tasks s u)"
  "t_finished (tasks (wake_each me l s) u) = t_finished (tasks s u)"
  "t_finish_waiters (tasks (wake_each me l s) u) = t_finish_waiters (tasks s u)"
proof (induction me l s rule: wake_each.induct)
  case (2 me i wk l s)
  have "t_cancellable (tasks (snd (wake_waker me wk s)) u) = t_cancellable (tasks s u)"
    "t_finished (tasks (snd (wake_waker me wk s)) u) = t_finished (tasks s u)"
    "t_finish_waiters (tasks (snd (wake_waker me wk s)) u) = t_finish_waiters (tasks s u)"
    by (cases wk; simp)+
  with 2 show "t_cancellable (tasks (wake_each me ((i, wk) # l) s) u) = t_cancellable (tasks s u)"
    "t_finished (tasks (wake_each me ((i, wk) # l) s) u) = t_finished (tasks s u)"
    "t_finish_waiters (tasks (wake_each me ((i, wk) # l) s) u) = t_finish_waiters (tasks s u)"
    by simp_all
qed simp_all

lemma next_task_push [simp]: "next_task (push me t s) = next_task s"
proof -
  have "next_task (snd (shared_push i t s)) = next_task s" for i
    by (simp add: shared_push_def Let_def split: option.splits)
  then show ?thesis by (simp add: push_def Let_def case_prod_beta notify_idle_effect split: option.splits)
qed

lemma next_task_wake [simp]: "next_task (snd (wake me t w k s)) = next_task s"
  by (simp add: wake_def schedule_def Let_def)

lemma next_task_wake_waker [simp]: "next_task (snd (wake_waker me wk s)) = next_task s"
  by (cases wk) simp_all

lemma next_task_wake_each [simp]: "next_task (wake_each me l s) = next_task s"
  by (induction me l s rule: wake_each.induct) simp_all

lemma wake_timed_out_frame [simp]:
  "t_cancellable (tasks (wake_timed_out me l s) u) = t_cancellable (tasks s u)"
  "t_finished (tasks (wake_timed_out me l s) u) = t_finished (tasks s u)"
  "t_finish_waiters (tasks (wake_timed_out me l s) u) = t_finish_waiters (tasks s u)"
  "next_task (wake_timed_out me l s) = next_task s" "next_wait (wake_timed_out me l s) = next_wait s"
  by (induction me l s rule: wake_timed_out.induct) simp_all

section \<open>Spawning takes everything or nothing\<close>

lemma heap_get_frame:
  "heap_get (h\<lparr>h_free := f\<rparr>) b = heap_get h b" "heap_get (h\<lparr>h_waiters := ws\<rparr>) b = heap_get h b"
  by (simp_all add: heap_get_def payload_index_def base_index_def Let_def cong: option.case_cong)

lemma next_task_wake_one [simp]: "next_task (snd (wake_one me ws s)) = next_task s"
proof -
  have "next_task (snd (wake_first me l s)) = next_task s" for l
    by (induction l arbitrary: s) (auto simp: case_prod_beta)
  then show ?thesis by (simp add: wake_one_def case_prod_beta Let_def)
qed

text \<open>
  C10. Starting a task takes all it needs or leaves nothing behind.  When it succeeds a place under the
  limit is taken, a new task runs the closure, and the handle returned is its handle.  At the limit,
  with no slot for a handle, or with no memory for a stack it fails: no place stays taken, no task or
  handle is left, the slot reserved is free again, and the closure's reference is released exactly
  once.
\<close>

theorem spawn_all_or_nothing:
  assumes "heap_ok (tw_heap w)" "generations_ok (tw_heap w)" "heap_part R (tw_heap w)"
    and "\<forall>i \<in> set (h_free (tw_heap w)). unat (h_generations (tw_heap w) ! i) + 1 < 2 ^ 48"
  shows "case task_spawn limit can_map me c w of
      (Some a, w') \<Rightarrow> tw_live w < limit \<and> tw_live w' = tw_live w + 1 \<and> tw_refs w' = tw_refs w \<and>
        (\<exists>t. t = next_task (tw_sched w) \<and> tw_jobs w' = (tw_jobs w)(t \<mapsto> RocJob c) \<and>
           heap_get (tw_heap w') a = Some (HandleObj t) \<and> \<not> is_finished t (tw_sched w') \<and>
           (\<forall>b. b \<noteq> a \<longrightarrow> heap_get (tw_heap w') b = heap_get (tw_heap w) b))
    | (None, w') \<Rightarrow> tw_live w' = tw_live w \<and> tw_jobs w' = tw_jobs w \<and> tw_refs w' = (tw_refs w)(c := tw_refs w c - 1) \<and>
        next_task (tw_sched w') = next_task (tw_sched w) \<and> set (h_free (tw_heap w')) = set (h_free (tw_heap w)) \<and>
        (\<forall>b. heap_get (tw_heap w') b = heap_get (tw_heap w) b)"
proof -
  let ?h = "tw_heap w"
  show ?thesis
  proof (cases "tw_live w < limit")
    case False
    then show ?thesis by (simp add: task_spawn_def try_claim_slot_def decref_closure_def)
  next
    case True
    show ?thesis
    proof (cases "try_reserve ?h")
      case None
      then show ?thesis
        using True by (simp add: task_spawn_def try_claim_slot_def decref_closure_def drop_slot_def)
    next
      case (Some y)
      obtain i h where y: "y = (i, h)" by fastforce
      have h: "h_free ?h \<noteq> []" "i = last (h_free ?h)" "h = ?h\<lparr>h_free := butlast (h_free ?h)\<rparr>"
        using Some y by (simp_all add: try_reserve_Some)
      then have i: "i \<in> set (h_free ?h)" by simp
      have get: "heap_get h b = heap_get ?h b" for b by (simp add: h(3) heap_get_frame)
      obtain r s where r: "spawn can_map me (tw_sched w) = (r, s)" by fastforce
      show ?thesis
      proof (cases r)
        case None
        then have "next_task s = next_task (tw_sched w)"
          using r by (auto simp: spawn_def take_stack_def Let_def split: if_splits)
        moreover have "set (butlast (h_free ?h) @ [i]) = set (h_free ?h)" using h(1,2) by (metis append_butlast_last_id)
        ultimately show ?thesis
          using True Some y r None get
          by (simp add: task_spawn_def try_claim_slot_def decref_closure_def drop_slot_def free_slot_def case_prod_beta Let_def
              heap_get_frame next_task_wake_one h(3))
      next
        case (Some t)
        then have t: "t = next_task (tw_sched w)" "\<not> is_finished t s"
          using r by (auto simp: spawn_def take_stack_def Let_def is_finished_def new_task_def split: if_splits)
        have hok: "heap_ok h" "generations_ok h" using assms(1,2) by (simp_all add: h(3) heap_ok_def generations_ok_def)
        have "heap_part (i # R) h" using take_free_inv [of ?h R] assms(1,3) h by (simp add: heap_inv_def)
        from heap_insert_get [OF hok this, of i "HandleObj t"] assms(4) i
        have "heap_get (snd (heap_insert i (HandleObj t) h)) (fst (heap_insert i (HandleObj t) h)) = Some (HandleObj t)"
          "\<forall>b. b \<noteq> fst (heap_insert i (HandleObj t) h) \<longrightarrow> heap_get (snd (heap_insert i (HandleObj t) h)) b = heap_get h b"
          by (auto simp: h(3) case_prod_beta Let_def)
        then show ?thesis
          using True \<open>try_reserve ?h = Some y\<close> y r Some t get
          by (simp add: task_spawn_def try_claim_slot_def case_prod_beta Let_def)
      qed
    qed
  qed
qed

text \<open>The main task has started a task.\<close>

definition demo_scope :: sched where
  "demo_scope = snd (spawn True None (run_main_start 1 0 (\<lambda>_. Started) 0))"

lemma demo_scope_facts:
  "next_task demo_scope = 3" "next_wait demo_scope = 1" "\<not> t_finished (tasks demo_scope 2)" "workers demo_scope \<noteq> []"
proof -
  let ?s = "run_main_start 1 0 (\<lambda>_. Started) 0"
  have s: "next_task ?s = 2" "next_wait ?s = 1" "workers ?s \<noteq> []" "stacks ?s = 0"
    by (simp_all add: run_main_start_def shared_push_def worker_def upd_worker_def)
  moreover have "workers (push None t x) = [] \<longleftrightarrow> workers x = []" for t x
    by (auto simp: push_def shared_push_def notify_idle_def start_worker_def Let_def case_prod_beta upd_worker_def split: option.splits start_outcome.splits)
  ultimately show "next_task demo_scope = 3" "next_wait demo_scope = 1" "\<not> t_finished (tasks demo_scope 2)" "workers demo_scope \<noteq> []"
    by (simp_all add: demo_scope_def spawn_def take_stack_def Let_def new_task_def)
qed

text \<open>A spawn that succeeds, and one at the limit.\<close>

definition demo_tasks :: task_world where
  "demo_tasks = \<lparr>tw_sched = demo_scope, tw_live = 0,
     tw_heap = \<lparr>h_start = 1000, h_stride = 24, h_slots = [\<lparr>sl_refcount = 0, sl_token = 0, sl_resource = None\<rparr>],
       h_free = [0], h_generations = [0], h_live = [False], h_waiters = waiters_new\<rparr>,
     tw_jobs = Map.empty, tw_refs = (\<lambda>_. 1), tw_warned = False\<rparr>"

theorem spawn_all_or_nothing_witness:
  "(\<exists>w a. task_spawn 1 True None 7 demo_tasks = (Some a, w) \<and> heap_get (tw_heap w) a = Some (HandleObj 3)) \<and>
   tw_refs (snd (task_spawn 0 True None 7 demo_tasks)) 7 = 0"
proof -
  have ok: "heap_ok (tw_heap demo_tasks)" "generations_ok (tw_heap demo_tasks)" "heap_part [] (tw_heap demo_tasks)"
    "\<forall>i \<in> set (h_free (tw_heap demo_tasks)). unat (h_generations (tw_heap demo_tasks) ! i) + 1 < 2 ^ 48"
    by (auto simp: demo_tasks_def heap_ok_def generations_ok_def heap_part_def)
  note p = spawn_all_or_nothing [OF ok]
  have "workers demo_scope \<noteq> []" by (simp add: demo_scope_facts)
  then have "fst (task_spawn 1 True None 7 demo_tasks) \<noteq> None"
    by (simp add: task_spawn_def demo_tasks_def try_claim_slot_def try_reserve_def vec_pop_def spawn_def take_stack_def
        case_prod_beta Let_def)
  moreover have "fst (task_spawn 0 True None 7 demo_tasks) = None"
    by (simp add: task_spawn_def demo_tasks_def try_claim_slot_def)
  moreover have "next_task (tw_sched demo_tasks) = 3" "tw_refs demo_tasks 7 = 1" by (simp_all add: demo_tasks_def demo_scope_facts)
  ultimately show ?thesis
    using p [where limit = 1 and can_map = True and me = None and c = 7] p [where limit = 0 and can_map = True and me = None and c = 7] by (auto split: prod.splits option.splits)
qed

section \<open>Every operation keeps the tasks well formed\<close>

text \<open>
  Well formed: every place taken under the limit belongs to one job, jobs are of tasks that exist, and
  the heap of handles is consistent with no slot reserved or half released.
\<close>

definition tasks_ok :: "nat \<Rightarrow> task_world \<Rightarrow> bool" where
  "tasks_ok limit w \<longleftrightarrow> finite (dom (tw_jobs w)) \<and> tw_live w = card (dom (tw_jobs w)) \<and> tw_live w \<le> limit \<and>
     (\<forall>t \<in> dom (tw_jobs w). t < next_task (tw_sched w)) \<and> heap_inv (tw_heap w, [])"

inductive task_op :: "nat \<Rightarrow> task_world \<Rightarrow> task_world \<Rightarrow> bool" for limit where
  spawn_op: "task_op limit w (snd (task_spawn limit can_map me c w))"
| spawn_host_op: "task_op limit w (snd (spawn_host limit can_map me w))"
| done_op: "tw_jobs w t \<noteq> None \<Longrightarrow> task_op limit w (job_done t w)"
| finish_op: "task_op limit w (snd (task_finish r c w))"
| join_op: "task_op limit w (snd (task_join_end me a t how w))"
| cancel_op: "task_op limit w (task_cancel me a w)"
| is_finished_op: "task_op limit w (snd (task_is_finished me a w))"
| watch_op: "task_op limit w (snd (watch_task a wk w))"
| unwatch_op: "task_op limit w (unwatch_task a i w)"
| group_new_op: "task_op limit w (snd (group_new w))"
| group_add_op: "task_op limit w (group_add me g a w)"
| group_cancel_op: "task_op limit w (group_cancel me g w)"
| close_begin_op: "task_op limit w (snd (group_close_begin me g c w))"
| close_end_op: "task_op limit w (group_close_end me g w)"
| release_op: "task_op limit w (snd (release_obj me a w))"
| scheduler_op: "next_task (tw_sched w) \<le> next_task s \<Longrightarrow> task_op limit w (w\<lparr>tw_sched := s\<rparr>)"

definition calm_op :: "task_world \<Rightarrow> task_world \<Rightarrow> bool" where
  "calm_op w w' \<longleftrightarrow> tw_live w' = tw_live w \<and> tw_jobs w' = tw_jobs w \<and> next_task (tw_sched w) \<le> next_task (tw_sched w') \<and>
     (heap_inv (tw_heap w, []) \<longrightarrow> heap_inv (tw_heap w', []))"

lemma calm_refl [simp]: "calm_op w w"
  by (simp add: calm_op_def)

lemma calm_trans: "calm_op w w1 \<Longrightarrow> calm_op w1 w2 \<Longrightarrow> calm_op w w2"
  by (auto simp: calm_op_def)

lemma calm_ok: "calm_op w w' \<Longrightarrow> tasks_ok limit w \<Longrightarrow> tasks_ok limit w'"
  unfolding calm_op_def tasks_ok_def by (auto intro: order_less_le_trans)

lemma heap_inv_slot:
  assumes "heap_inv (h, R)" "sl_token sl = sl_token (h_slots h ! i)" "sl_resource (h_slots h ! i) \<noteq> None \<Longrightarrow> sl_resource sl \<noteq> None"
  shows "heap_inv (h\<lparr>h_slots := (h_slots h)[i := sl]\<rparr>, R)"
  using assms by (cases "i < length (h_slots h)") (auto simp: heap_inv_def heap_ok_def heap_part_def nth_list_update)

lemma next_task_cancel [simp]: "next_task (cancel me t s) = next_task s"
  by (simp add: cancel_def Let_def)

lemma calm_on_sched: "next_task (f (tw_sched w)) = next_task (tw_sched w) \<Longrightarrow> calm_op w (on_sched f w)"
  by (simp add: calm_op_def on_sched_def)

lemma calm_small [simp]:
  "calm_op w (decref_closure c w)" "calm_op w (incref_closure c w)" "calm_op w (on_sched (cancel me t) w)"
  "calm_op w (on_sched (unwatch_finished t i) w)" "calm_op w (drop_obj ob w)"
  by (cases ob; simp add: calm_op_def decref_closure_def incref_closure_def on_sched_def unwatch_finished_def drop_handle_def)+

lemma free_slot_calm:
  assumes "heap_inv (h, [i])" "free_slot me i h s = (h', s')"
  shows "heap_inv (h', []) \<and> next_task s' = next_task s"
proof -
  obtain ws s1 where "wake_one me (h_waiters h) s = (ws, s1)" by fastforce
  moreover have "next_task (snd (wake_one me (h_waiters h) s)) = next_task s" by simp
  ultimately show ?thesis using assms give_free_inv [OF assms(1), of i] by (auto simp: free_slot_def)
qed

lemma calm_release: "calm_op w (snd (release_obj me a w))"
proof (cases "release_begin a (tw_heap w)")
  case (Pair out h)
  show ?thesis
  proof (cases out)
    case (Dropping i r)
    let ?w = "w\<lparr>tw_heap := h\<rparr>"
    let ?w1 = "case r of None \<Rightarrow> ?w | Some ob \<Rightarrow> drop_obj ob ?w"
    have w1: "tw_heap ?w1 = h" "tw_live ?w1 = tw_live w" "tw_jobs ?w1 = tw_jobs w" "next_task (tw_sched ?w1) = next_task (tw_sched w)"
      by (cases r; simp; rename_tac ob; case_tac ob; simp add: on_sched_def drop_handle_def)+
    obtain h2 s2 where f: "free_slot me i (tw_heap ?w1) (tw_sched ?w1) = (h2, s2)" by fastforce
    have "heap_inv (tw_heap w, []) \<Longrightarrow> heap_inv (h2, [])"
      using free_slot_calm [of h i me "tw_sched ?w1"] release_inv [of "tw_heap w" "[]" a i r h] f w1(1) Pair Dropping by simp
    moreover have "next_task s2 = next_task (tw_sched w)"
      using f w1(4) by (auto simp: free_slot_def case_prod_beta dest: arg_cong [where f = "\<lambda>x. next_task (snd x)"])
    ultimately show ?thesis
      using Pair Dropping f w1 by (simp add: release_obj_def Let_def calm_op_def)
  qed (use Pair in \<open>auto simp: release_obj_def release_begin_def calm_op_def split: option.splits if_splits\<close>)
qed

lemma calm_decref [simp]: "calm_op w (decref_handle me a w)"
proof (cases "payload_index (tw_heap w) a")
  case (Some i)
  let ?sl = "h_slots (tw_heap w) ! i"
  have "calm_op w (w\<lparr>tw_heap := (tw_heap w)\<lparr>h_slots := (h_slots (tw_heap w))[i := ?sl\<lparr>sl_refcount := n\<rparr>]\<rparr>\<rparr>)" for n
    by (auto simp: calm_op_def intro!: heap_inv_slot)
  then show ?thesis using Some calm_trans [OF _ calm_release] by (simp add: decref_handle_def Let_def)
qed (simp add: decref_handle_def)

lemma calm_with_obj: "(\<And>ob w. calm_op w (snd (f ob w))) \<Longrightarrow> calm_op w (snd (with_obj me a f w))"
  by (auto simp: with_obj_def case_prod_beta Let_def intro: calm_trans [OF _ calm_decref])

lemma calm_set_group [simp]: "calm_op w (set_group a ts w)"
  by (auto simp: set_group_def calm_op_def intro!: heap_inv_slot split: option.splits)

lemma next_task_cancels [simp]:
  "next_task (cancel_all me ts s) = next_task s" "next_task (cancel_unfinished me ts s) = next_task s"
  by (induction ts arbitrary: s) simp_all

lemma insert_ready:
  assumes "heap_inv (h, [])" "try_reserve h = Some (i, h1)"
  shows "heap_inv (snd (heap_insert i r h1), [])" "heap_inv (h1, [i])"
proof -
  show i: "heap_inv (h1, [i])" using assms take_free_inv [of h "[]"] by (auto simp: try_reserve_Some)
  show "heap_inv (snd (heap_insert i r h1), [])" using insert_inv [OF i, of i] by simp
qed

lemma spawn_next_task: "next_task (snd (spawn can_map me s)) = next_task s + (if fst (spawn can_map me s) = None then 0 else 1)"
  "fst (spawn can_map me s) = Some t \<Longrightarrow> t = next_task s"
  by (auto simp: spawn_def take_stack_def Let_def split: if_splits)

lemma tasks_ok_add_job:
  assumes "tasks_ok limit w" "tw_live w < limit" "heap_inv (h, [])" "next_task (tw_sched w) < next_task s"
  shows "tasks_ok limit (w\<lparr>tw_live := tw_live w + 1, tw_heap := h, tw_sched := s, tw_jobs := (tw_jobs w)(next_task (tw_sched w) \<mapsto> j)\<rparr>)"
proof -
  have "next_task (tw_sched w) \<notin> dom (tw_jobs w)" using assms(1) by (auto simp: tasks_ok_def)
  then show ?thesis using assms by (auto simp: tasks_ok_def intro: order_less_trans)
qed

lemma spawn_op_ok:
  assumes ok: "tasks_ok limit w"
  shows "tasks_ok limit (snd (task_spawn limit can_map me c w))"
proof (cases "tw_live w < limit \<and> try_reserve (tw_heap w) \<noteq> None")
  case False
  have "snd (task_spawn limit can_map me c w) = decref_closure c w"
    using False by (auto simp: task_spawn_def try_claim_slot_def drop_slot_def split: option.splits)
  then show ?thesis using calm_ok [OF calm_small(1) ok] by simp
next
  case True
  then obtain i h where res: "try_reserve (tw_heap w) = Some (i, h)" and live: "tw_live w < limit" by auto
  obtain r s where sp: "spawn can_map me (tw_sched w) = (r, s)" by fastforce
  note inv = insert_ready [OF _ res] and nt = spawn_next_task [of can_map me "tw_sched w", unfolded sp]
  have hw: "heap_inv (tw_heap w, [])" using ok by (simp add: tasks_ok_def)
  show ?thesis
  proof (cases r)
    case None
    obtain h3 s3 where f: "free_slot me i h s = (h3, s3)" by fastforce
    have "calm_op w (snd (task_spawn limit can_map me c w))"
      using live res sp None f free_slot_calm [OF inv(2) [OF hw] f] nt
      by (simp add: task_spawn_def try_claim_slot_def drop_slot_def decref_closure_def calm_op_def)
    then show ?thesis using calm_ok ok by blast
  next
    case (Some t)
    then have t: "t = next_task (tw_sched w)" "next_task (tw_sched w) < next_task s" using nt by auto
    have "snd (task_spawn limit can_map me c w) = w\<lparr>tw_live := tw_live w + 1, tw_heap := snd (heap_insert i (HandleObj t) h),
        tw_sched := s, tw_jobs := (tw_jobs w)(next_task (tw_sched w) \<mapsto> RocJob c)\<rparr>"
      using live res sp Some t(1) by (simp add: task_spawn_def try_claim_slot_def case_prod_beta Let_def)
    then show ?thesis using tasks_ok_add_job [OF ok live inv(1) [OF hw] t(2)] by simp
  qed
qed

lemma spawn_host_ok:
  assumes ok: "tasks_ok limit w"
  shows "tasks_ok limit (snd (spawn_host limit can_map me w))"
proof (cases "tw_live w < limit")
  case True
  obtain r s where sp: "spawn can_map me (tw_sched w) = (r, s)" by fastforce
  note nt = spawn_next_task [of can_map me "tw_sched w", unfolded sp]
  show ?thesis
  proof (cases r)
    case None
    have "calm_op w (snd (spawn_host limit can_map me w))"
      using True sp None nt by (simp add: spawn_host_def try_claim_slot_def drop_slot_def calm_op_def)
    then show ?thesis using calm_ok ok by blast
  next
    case (Some t)
    then have t: "t = next_task (tw_sched w)" "next_task (tw_sched w) < next_task s" using nt by auto
    have "snd (spawn_host limit can_map me w) = w\<lparr>tw_live := tw_live w + 1, tw_heap := tw_heap w,
        tw_sched := s, tw_jobs := (tw_jobs w)(next_task (tw_sched w) \<mapsto> HostJob)\<rparr>"
      using True sp Some t(1) by (simp add: spawn_host_def try_claim_slot_def)
    moreover have "heap_inv (tw_heap w, [])" using ok by (simp add: tasks_ok_def)
    ultimately show ?thesis using tasks_ok_add_job [OF ok True _ t(2)] by (simp only:)
  qed
qed (use ok in \<open>simp add: spawn_host_def try_claim_slot_def\<close>)

lemma job_done_ok: "tasks_ok limit w \<Longrightarrow> tw_jobs w t \<noteq> None \<Longrightarrow> tasks_ok limit (job_done t w)"
proof -
  assume ok: "tasks_ok limit w" and t: "tw_jobs w t \<noteq> None"
  then have "t \<in> dom (tw_jobs w)" "finite (dom (tw_jobs w))" by (auto simp: tasks_ok_def)
  then have "card (dom (tw_jobs w) - {t}) = card (dom (tw_jobs w)) - 1" by simp
  then show ?thesis using ok by (auto simp: tasks_ok_def job_done_def drop_slot_def)
qed

lemma calm_roc_ops:
  "calm_op w (snd (task_finish r c w))" "calm_op w (snd (task_join_end me a t how w))" "calm_op w (task_cancel me a w)"
  "calm_op w (snd (task_is_finished me a w))" "calm_op w (snd (watch_task a wk w))" "calm_op w (unwatch_task a i w)"
proof -
  show "calm_op w (snd (task_finish r c w))"
    by (cases r) (auto simp: set_result_def calm_op_def decref_closure_def Let_def split: option.splits)
  show "calm_op w (snd (task_join_end me a t how w))"
    by (cases t) (auto simp: task_join_end_def join_result_def case_prod_beta intro: calm_trans [OF _ calm_decref] split: option.splits)
  show "calm_op w (task_cancel me a w)" "calm_op w (snd (task_is_finished me a w))"
    by (auto simp: task_cancel_def task_is_finished_def intro!: calm_with_obj split: option.splits task_obj.splits)
  show "calm_op w (snd (watch_task a wk w))" "calm_op w (unwatch_task a i w)"
    by (auto simp: watch_task_def unwatch_task_def watch_finished_def calm_op_def case_prod_beta Let_def on_sched_def unwatch_finished_def
        split: option.splits task_obj.splits)
qed

lemma calm_group_ops:
  "calm_op w (group_add me g a w)" "calm_op w (group_cancel me g w)" "calm_op w (snd (group_close_begin me g c w))"
  "calm_op w (group_close_end me g w)" "calm_op w (snd (group_new w))"
proof -
  show "calm_op w (group_add me g a w)"
  proof -
    obtain task w1 where 1: "with_obj me a (\<lambda>ob w. (case ob of Some (HandleObj t) \<Rightarrow> Some t | _ \<Rightarrow> None, w)) w = (task, w1)" by fastforce
    have c1: "calm_op w w1"
      using calm_with_obj [of "\<lambda>ob w. (case ob of Some (HandleObj t) \<Rightarrow> Some t | _ \<Rightarrow> None, w)" w me a] 1 by simp
    have "calm_op w1 (snd (with_obj me g (\<lambda>ob w. ((), case ob of Some (GroupObj ts) \<Rightarrow> set_group g (f w ts) w | _ \<Rightarrow> w)) w1))" for f
      by (rule calm_with_obj) (auto split: option.splits task_obj.splits)
    moreover have "calm_op w1 (snd (with_obj me g (\<lambda>_ w. ((), w)) w1))" by (rule calm_with_obj) simp
    ultimately show ?thesis using calm_trans [OF c1] 1 by (simp add: group_add_def split: option.splits)
  qed
  show "calm_op w (group_cancel me g w)"
    by (auto simp: group_cancel_def intro!: calm_with_obj calm_on_sched split: option.splits task_obj.splits)
  show "calm_op w (snd (group_close_begin me g c w))"
  proof -
    have "calm_op w (on_sched (cancel_all me ts) (set_group g [] w))" for ts
      by (rule calm_trans [OF calm_set_group calm_on_sched]) simp
    then show ?thesis by (simp add: group_close_begin_def Let_def split: option.splits task_obj.splits)
  qed
  show "calm_op w (group_close_end me g w)" by (simp add: group_close_end_def)
  show "calm_op w (snd (group_new w))"
    using insert_ready(1) [of "tw_heap w"] by (auto simp: group_new_def calm_op_def case_prod_beta split: option.splits)
qed

lemma task_op_ok: "task_op limit w w' \<Longrightarrow> tasks_ok limit w \<Longrightarrow> tasks_ok limit w'"
  by (induction rule: task_op.induct)
    (auto intro: spawn_op_ok spawn_host_ok job_done_ok calm_ok calm_roc_ops calm_group_ops calm_release simp: calm_op_def)

text \<open>
  C11. Whatever Roc asks for, in whatever order, the tasks stay well formed: the number of live tasks is the
  number of jobs not yet done, each of a task that exists, and never passes the limit; and the heap of
  handles stays consistent, with every slot either free or in use.
\<close>

theorem tasks_well_formed:
  assumes "(task_op limit)\<^sup>*\<^sup>* w w'" "tasks_ok limit w"
  shows "tasks_ok limit w'"
  using assms by (induction rule: rtranclp_induct) (auto intro: task_op_ok)

theorem tasks_well_formed_witness:
  "tasks_ok 1 (snd (task_spawn 1 True None 8 (snd (task_spawn 1 True None 7 demo_tasks))))"
proof (rule tasks_well_formed)
  show "(task_op 1)\<^sup>*\<^sup>* demo_tasks (snd (task_spawn 1 True None 8 (snd (task_spawn 1 True None 7 demo_tasks))))"
    by (rule rtranclp.rtrancl_into_rtrancl [OF r_into_rtranclp]) (rule task_op.spawn_op)+
  show "tasks_ok 1 demo_tasks"
    by (auto simp: tasks_ok_def demo_tasks_def heap_inv_def heap_ok_def heap_part_def)
qed

end
