(* ===== verification/Sockets.thy ===== *)
theory Sockets
  imports Sched
begin

text \<open>
  Non-blocking sockets and waiting for them (\<^verbatim>\<open>src/sockets.rs\<close>, and \<^verbatim>\<open>wait_io\<close> of \<^verbatim>\<open>src/sched.rs\<close>).

  A task's I/O code is a function on a \<open>world\<close>: the clock, the connections' own fields (other tasks
  may set them at any time) and the rest, \<open>'k\<close>, the kernel.  A system call is a function
  \<open>('k, 'a) io\<close>.  What happens while the task is suspended, or registers with the event queue, is
  the parameter \<open>outside\<close>: it may change the whole world.  A loop that retries is a
  \<open>partial_function\<close>, with \<open>None\<close> for never returning.
\<close>

section \<open>The world of a task\<close>

record conn =
  c_fd :: nat
  c_read_ms :: u64
  c_write_ms :: u64
  c_closed :: bool
  c_reg_closed :: bool

record 'k world =
  w_now :: instant
  w_conns :: "nat \<Rightarrow> conn"
  w_kernel :: 'k

type_synonym ('k, 'a) io = "'k world \<Rightarrow> (io_error + 'a) \<times> 'k world"
type_synonym ('k, 'a) io_loop = "'k world \<Rightarrow> ((io_error + 'a) \<times> 'k world) option"

text \<open>
  \<open>o_watch\<close>: the event queue's registration of a descriptor.  \<open>o_suspend\<close>: the time between the
  suspension of the task and its resumption, with how its wait ended.  \<open>o_budget\<close>:
  \<^verbatim>\<open>consume_budget\<close>, which may yield to other tasks.
\<close>

record 'k outside =
  o_watch :: "nat \<Rightarrow> bool \<Rightarrow> ('k, unit) io"
  o_suspend :: "nat \<Rightarrow> bool \<Rightarrow> deadline \<Rightarrow> 'k world \<Rightarrow> woke \<times> 'k world"
  o_budget :: "'k world \<Rightarrow> 'k world"

definition upd_conn :: "nat \<Rightarrow> (conn \<Rightarrow> conn) \<Rightarrow> 'k world \<Rightarrow> 'k world" where
  "upd_conn c f w = w\<lparr>w_conns := (w_conns w)(c := f (w_conns w c))\<rparr>"

lemma upd_conn_simps [simp]:
  "w_now (upd_conn c f w) = w_now w"
  "w_kernel (upd_conn c f w) = w_kernel w"
  "w_conns (upd_conn c f w) c = f (w_conns w c)"
  "d \<noteq> c \<Longrightarrow> w_conns (upd_conn c f w) d = w_conns w d"
  by (simp_all add: upd_conn_def)

text \<open>\<^verbatim>\<open>wait_io\<close>, in a task.\<close>

definition wait_io :: "'k outside \<Rightarrow> nat \<Rightarrow> bool \<Rightarrow> deadline \<Rightarrow> ('k, unit) io" where
  "wait_io out c writable d w =
     (if passed (w_now w) d then (Inl timed_out, w)
      else if c_reg_closed (w_conns w c) then (Inr (), w)
      else case o_watch out c writable w of
             (Inl err, w1) \<Rightarrow> (Inl err, w1)
           | (Inr _, w1) \<Rightarrow>
               (case o_suspend out c writable d w1 of
                  (WReady, w2) \<Rightarrow> (Inr (), w2)
                | (WTimedOut, w2) \<Rightarrow> (Inl timed_out, w2)
                | (WCancelled, w2) \<Rightarrow> (Inl CancelledError, w2)))"

section \<open>Connections\<close>

definition conn_new :: "nat \<Rightarrow> conn" where
  "conn_new fd = \<lparr>c_fd = fd, c_read_ms = 0, c_write_ms = 0, c_closed = False, c_reg_closed = False\<rparr>"

text \<open>
  \<^verbatim>\<open>close_now\<close>.  The system calls are parameters: \<open>mk\<close> makes the placeholder socket, \<open>dup2\<close> points
  the descriptor at it, \<open>fix\<close> closes the placeholder and sets the descriptor's flags.
\<close>

definition close_now ::
  "('k, nat) io \<Rightarrow> (nat \<Rightarrow> nat \<Rightarrow> ('k, unit) io) \<Rightarrow> (nat \<Rightarrow> nat \<Rightarrow> 'k world \<Rightarrow> 'k world) \<Rightarrow> nat \<Rightarrow> ('k, unit) io" where
  "close_now mk dup2 fix c w =
     (if c_closed (w_conns w c) then (Inr (), w)
      else case mk w of
             (Inl err, w1) \<Rightarrow> (Inl err, w1)
           | (Inr placeholder, w1) \<Rightarrow>
               (case dup2 placeholder (c_fd (w_conns w c)) w1 of
                  (r, w2) \<Rightarrow>
                    let w3 = fix placeholder (c_fd (w_conns w c)) w2
                    in case r of
                         Inl err \<Rightarrow> (Inl err, w3)
                       | Inr _ \<Rightarrow> (Inr (), upd_conn c (\<lambda>k. k\<lparr>c_closed := True, c_reg_closed := True\<rparr>) w3)))"

definition is_closed :: "nat \<Rightarrow> 'k world \<Rightarrow> bool" where
  "is_closed c w = c_closed (w_conns w c)"

definition set_read_timeout_ms :: "u64 \<Rightarrow> conn \<Rightarrow> conn" where
  "set_read_timeout_ms ms k = k\<lparr>c_read_ms := ms\<rparr>"

definition set_write_timeout_ms :: "u64 \<Rightarrow> conn \<Rightarrow> conn" where
  "set_write_timeout_ms ms k = k\<lparr>c_write_ms := ms\<rparr>"

record server_timeouts =
  idle_ms :: u64
  write_ms :: u64

definition timeouts :: "conn \<Rightarrow> server_timeouts" where
  "timeouts k = \<lparr>idle_ms = c_read_ms k, write_ms = c_write_ms k\<rparr>"

definition apply_timeouts :: "server_timeouts \<Rightarrow> conn \<Rightarrow> conn" where
  "apply_timeouts t k = set_write_timeout_ms (write_ms t) (set_read_timeout_ms (idle_ms t) k)"

text \<open>The sooner of two deadlines.  The order of \<open>deadline\<close> makes it the minimum.\<close>

fun earliest :: "deadline \<Rightarrow> deadline \<Rightarrow> deadline" where
  "earliest (At a) (At b) = At (min a b)"
| "earliest Never b = b"
| "earliest (At a) Never = At a"

lemma earliest_min: "earliest a b = min a b"
  by (cases a; cases b) (auto simp: min_def)

definition deadline_after :: "u64 \<Rightarrow> instant \<Rightarrow> deadline" where
  "deadline_after ms now = (if ms = 0 then Never else checked_add now (unat ms * 1000000))"

definition read_deadline :: "nat \<Rightarrow> 'k world \<Rightarrow> deadline" where
  "read_deadline c w = deadline_after (c_read_ms (w_conns w c)) (w_now w)"

definition write_deadline :: "nat \<Rightarrow> 'k world \<Rightarrow> deadline" where
  "write_deadline c w = deadline_after (c_write_ms (w_conns w c)) (w_now w)"

definition socket_closed :: io_error where
  "socket_closed = CustomError NotConnected (lit ''the socket is closed'')"

partial_function (option) retry ::
  "'k outside \<Rightarrow> nat \<Rightarrow> bool \<Rightarrow> deadline \<Rightarrow> ('k, 'r) io \<Rightarrow> ('k, 'r) io_loop" where
  [code]: "retry out c writable d operation w =
     (case operation w of
        (Inl err, w1) \<Rightarrow>
          if err_kind err = WouldBlock
          then (case wait_io out c writable d w1 of
                  (Inl err, w2) \<Rightarrow> Some (Inl err, w2)
                | (Inr _, w2) \<Rightarrow>
                    if is_closed c w2 then Some (Inl socket_closed, w2)
                    else retry out c writable d operation w2)
          else if err_kind err = Interrupted then retry out c writable d operation w1
          else Some (Inl err, w1)
      | (Inr r, w1) \<Rightarrow> Some (Inr r, o_budget out w1))"

definition read_with :: "'k outside \<Rightarrow> nat \<Rightarrow> ('k, 'r) io \<Rightarrow> ('k, 'r) io_loop" where
  "read_with out c operation w = retry out c False (read_deadline c w) operation w"

partial_function (option) write_all_with ::
  "'k outside \<Rightarrow> nat \<Rightarrow> (bytes \<Rightarrow> ('k, nat) io) \<Rightarrow> bytes \<Rightarrow> ('k, unit) io_loop" where
  [code]: "write_all_with out c write data w =
     (if data = [] then Some (Inr (), w)
      else case retry out c True (write_deadline c w) (write data) w of
             None \<Rightarrow> None
           | Some (Inl err, w1) \<Rightarrow> Some (Inl err, w1)
           | Some (Inr written, w1) \<Rightarrow>
               if written = 0 then Some (Inl (SimpleError WriteZero), w1)
               else write_all_with out c write (drop written data) w1)"

text \<open>\<^verbatim>\<open>abort\<close>: \<open>linger\<close> sets a zero linger time, \<open>disconnect\<close> resets, \<open>shutdown\<close> ends both directions.\<close>

definition abort_conn ::
  "(nat \<Rightarrow> 'k world \<Rightarrow> 'k world) \<Rightarrow> (nat \<Rightarrow> 'k world \<Rightarrow> bool \<times> 'k world) \<Rightarrow> (nat \<Rightarrow> 'k world \<Rightarrow> 'k world) \<Rightarrow>
   nat \<Rightarrow> 'k world \<Rightarrow> 'k world" where
  "abort_conn linger disconnect shutdown c w =
     (let fd = c_fd (w_conns w c); w1 = linger fd w
      in case disconnect fd w1 of (ok, w2) \<Rightarrow> if ok then w2 else shutdown fd w2)"

text \<open>\<^verbatim>\<open>wait_readable\<close>: \<open>peek\<close> is the \<^verbatim>\<open>recv\<close> with \<^verbatim>\<open>MSG_PEEK\<close>.\<close>

definition wait_readable :: "'k outside \<Rightarrow> ('k, unit) io \<Rightarrow> nat \<Rightarrow> deadline \<Rightarrow> ('k, unit) io_loop" where
  "wait_readable out peek c by_time w = retry out c False (earliest (read_deadline c w) by_time) peek w"

definition wait_writable :: "'k outside \<Rightarrow> nat \<Rightarrow> deadline \<Rightarrow> ('k, unit) io" where
  "wait_writable out c d = wait_io out c True d"

text \<open>\<^verbatim>\<open>readable_now\<close>, on what \<^verbatim>\<open>poll\<close> returned and the events it reported.\<close>

definition readable_now :: "int \<Rightarrow> u16 \<Rightarrow> bool" where
  "readable_now n revents \<longleftrightarrow> 0 < n \<and> revents AND (1 OR 16 OR 8) \<noteq> 0"

text \<open>\<^verbatim>\<open>with_scratch\<close>: the thread's buffer, at least \<open>len\<close> long, and the part the caller gets.\<close>

definition with_scratch :: "nat \<Rightarrow> bytes \<Rightarrow> bytes \<times> bytes" where
  "with_scratch len scratch =
     (let grown = (if length scratch < len then scratch @ replicate (len - length scratch) 0 else scratch)
      in (take len grown, grown))"

section \<open>Waiting\<close>

lemma deadline_after_zero [simp]: "deadline_after 0 now = Never"
  by (simp add: deadline_after_def)

lemma deadline_after_future: "\<not> passed now (deadline_after ms now)"
  using checked_add_future [of "unat ms * 1000000" now] by (auto simp: deadline_after_def unat_gt_0)

lemma with_scratch_length: "with_scratch len scratch = (buf, grown) \<Longrightarrow> length buf = len \<and> len \<le> length grown \<and> length scratch \<le> length grown"
  by (auto simp: with_scratch_def Let_def split: if_splits)

text \<open>
  What an invariant of worlds has to survive for a retried operation to keep it: a failed attempt,
  the registration, the suspension and the yield.
\<close>

definition outside_keeps :: "'k outside \<Rightarrow> ('k world \<Rightarrow> bool) \<Rightarrow> bool" where
  "outside_keeps out I \<longleftrightarrow>
     (\<forall>c wr w. I w \<longrightarrow> I (snd (o_watch out c wr w))) \<and>
     (\<forall>c wr d w. I w \<longrightarrow> I (snd (o_suspend out c wr d w))) \<and>
     (\<forall>w. I w \<longrightarrow> I (o_budget out w))"

lemma outside_keepsD:
  assumes "outside_keeps out I" "I w"
  shows "I (snd (o_watch out c wr w))" "I (snd (o_suspend out c wr d w))" "I (o_budget out w)"
  using assms by (auto simp: outside_keeps_def)

lemma wait_io_keeps:
  assumes "outside_keeps out I" "I w" "wait_io out c wr d w = (r, w')"
  shows "I w'"
proof (cases "passed (w_now w) d \<or> c_reg_closed (w_conns w c)")
  case True
  then show ?thesis using assms(2,3) by (auto simp: wait_io_def split: if_splits)
next
  case False
  obtain r1 w1 where 1: "o_watch out c wr w = (r1, w1)" by (cases "o_watch out c wr w")
  obtain k w2 where 2: "o_suspend out c wr d w1 = (k, w2)" by (cases "o_suspend out c wr d w1")
  have "I w1" using outside_keepsD(1) [OF assms(1,2), of c wr] 1 by simp
  then have "I w2" using outside_keepsD(2) [OF assms(1), of w1 c wr d] 2 by simp
  then show ?thesis using assms(3) False 1 2 \<open>I w1\<close>
    by (auto simp: wait_io_def split: sum.splits woke.splits)
qed

text \<open>How a wait can fail.\<close>

definition wait_error :: "'k outside \<Rightarrow> nat \<Rightarrow> bool \<Rightarrow> io_error \<Rightarrow> bool" where
  "wait_error out c wr err \<longleftrightarrow>
     err = timed_out \<or> err = CancelledError \<or> (\<exists>w w1. o_watch out c wr w = (Inl err, w1))"

lemma wait_io_error: "wait_io out c wr d w = (Inl err, w') \<Longrightarrow> wait_error out c wr err"
  by (auto simp: wait_io_def wait_error_def split: if_splits sum.splits prod.splits woke.splits)

text \<open>A failed attempt that will be retried keeps the invariant.\<close>

definition again :: "io_error \<Rightarrow> bool" where
  "again err \<longleftrightarrow> err_kind err = WouldBlock \<or> err_kind err = Interrupted"

definition blocked_keeps :: "('k, 'r) io \<Rightarrow> ('k world \<Rightarrow> bool) \<Rightarrow> bool" where
  "blocked_keeps operation I \<longleftrightarrow> (\<forall>w err w1. I w \<longrightarrow> operation w = (Inl err, w1) \<longrightarrow> again err \<longrightarrow> I w1)"

lemma blocked_keepsD: "blocked_keeps operation I \<Longrightarrow> I w \<Longrightarrow> operation w = (Inl err, w1) \<Longrightarrow> again err \<Longrightarrow> I w1"
  unfolding blocked_keeps_def by blast

text \<open>
  How a retried operation ends: with its result, with an error of its own that is not one to
  retry, with a failed wait, or because the socket was closed meanwhile.
\<close>

definition retry_end ::
  "'k outside \<Rightarrow> nat \<Rightarrow> bool \<Rightarrow> ('k, 'r) io \<Rightarrow> ('k world \<Rightarrow> bool) \<Rightarrow> (io_error + 'r) \<times> 'k world \<Rightarrow> bool" where
  "retry_end out c wr operation I = (\<lambda>(r, w').
     (\<exists>w0 w1 x. I w0 \<and> operation w0 = (Inr x, w1) \<and> r = Inr x \<and> w' = o_budget out w1) \<or>
     (\<exists>w0 err. I w0 \<and> operation w0 = (Inl err, w') \<and> r = Inl err \<and> \<not> again err) \<or>
     (\<exists>err. I w' \<and> r = Inl err \<and> (wait_error out c wr err \<or> err = socket_closed \<and> is_closed c w')))"

lemma retry_endI:
  "I w0 \<Longrightarrow> operation w0 = (Inr x, w1) \<Longrightarrow> retry_end out c wr operation I (Inr x, o_budget out w1)"
  "I w0 \<Longrightarrow> operation w0 = (Inl err, w1) \<Longrightarrow> \<not> again err \<Longrightarrow> retry_end out c wr operation I (Inl err, w1)"
  "I w1 \<Longrightarrow> wait_error out c wr err \<Longrightarrow> retry_end out c wr operation I (Inl err, w1)"
  "I w1 \<Longrightarrow> is_closed c w1 \<Longrightarrow> retry_end out c wr operation I (Inl socket_closed, w1)"
  unfolding retry_end_def by blast+

lemma retry_ends:
  fixes operation :: "('k, 'r) io"
  assumes "retry out c wr d operation w = Some y"
  shows "outside_keeps out I \<longrightarrow> blocked_keeps operation I \<longrightarrow> I w \<longrightarrow> retry_end out c wr operation I y"
  using assms
proof (rule retry.raw_induct [rotated], intro impI)
  fix self out c wr d w y and operation :: "('k, 'r) io"
  assume IH: "\<And>out c wr d operation w y. self out c wr d operation w = Some y \<Longrightarrow>
      outside_keeps out I \<longrightarrow> blocked_keeps operation I \<longrightarrow> I w \<longrightarrow> retry_end out c wr operation I y"
    and run: "(case operation w of
        (Inl err, w1) \<Rightarrow>
          if err_kind err = WouldBlock
          then (case wait_io out c wr d w1 of
                  (Inl err, w2) \<Rightarrow> Some (Inl err, w2)
                | (Inr _, w2) \<Rightarrow> if is_closed c w2 then Some (Inl socket_closed, w2) else self out c wr d operation w2)
          else if err_kind err = Interrupted then self out c wr d operation w1
          else Some (Inl err, w1)
      | (Inr r, w1) \<Rightarrow> Some (Inr r, o_budget out w1)) = Some y"
    and keeps: "outside_keeps out I" "blocked_keeps operation I" "I w"
  show "retry_end out c wr operation I y"
  proof (cases "operation w")
    case (Pair r w1)
    show ?thesis
    proof (cases r)
      case (Inr x)
      then show ?thesis using run Pair keeps(3) retry_endI(1) by force
    next
      case (Inl err)
      have op: "operation w = (Inl err, w1)" using Pair Inl by simp
      consider (block) "err_kind err = WouldBlock" | (intr) "err_kind err = Interrupted" | (other) "\<not> again err"
        by (auto simp: again_def)
      then show ?thesis
      proof cases
        case block
        obtain v w2 where wt: "wait_io out c wr d w1 = (v, w2)" by (cases "wait_io out c wr d w1")
        have "I w1" using blocked_keepsD [OF keeps(2,3) op] block by (simp add: again_def)
        then have I2: "I w2" using wait_io_keeps [OF keeps(1) _ wt] by blast
        show ?thesis
        proof (cases v)
          case (Inl e2)
          then have "y = (Inl e2, w2)" using run op block wt by simp
          then show ?thesis using retry_endI(3) [of I w2, OF I2 wait_io_error [OF wt [unfolded Inl]]] by simp
        next
          case (Inr u)
          show ?thesis
          proof (cases "is_closed c w2")
            case True
            then have "y = (Inl socket_closed, w2)" using run op block wt Inr by simp
            then show ?thesis using retry_endI(4) [of I, OF I2 True] by simp
          next
            case False
            then have "self out c wr d operation w2 = Some y" using run op block wt Inr by simp
            then show ?thesis using IH keeps(1,2) I2 by blast
          qed
        qed
      next
        case intr
        have "self out c wr d operation w1 = Some y" using run op intr by simp
        moreover have "I w1" using blocked_keepsD [OF keeps(2,3) op] intr by (simp add: again_def)
        ultimately show ?thesis using IH keeps(1,2) by blast
      next
        case other
        then have "y = (Inl err, w1)" using run op by (auto simp: again_def)
        then show ?thesis using retry_endI(2) [where I = I and operation = operation, OF keeps(3) op other] by simp
      qed
    qed
  qed
qed

text \<open>
  Retrying ends when every attempt that is retried uses something up, such as the interruptions
  to come and the spurious wake-ups before the socket is ready.
\<close>

definition settles :: "'k outside \<Rightarrow> nat \<Rightarrow> bool \<Rightarrow> ('k world \<Rightarrow> nat) \<Rightarrow> ('k, 'r) io \<Rightarrow> bool" where
  "settles out c wr m operation \<longleftrightarrow> (\<forall>w err w1. operation w = (Inl err, w1) \<longrightarrow>
     (err_kind err = Interrupted \<longrightarrow> m w1 < m w) \<and>
     (err_kind err = WouldBlock \<longrightarrow> (\<forall>d w2. wait_io out c wr d w1 = (Inr (), w2) \<longrightarrow> m w2 < m w)))"

lemma settlesD:
  assumes "settles out c wr m operation" "operation w = (Inl err, w1)"
  shows "err_kind err = Interrupted \<Longrightarrow> m w1 < m w"
    "err_kind err = WouldBlock \<Longrightarrow> wait_io out c wr d w1 = (Inr (), w2) \<Longrightarrow> m w2 < m w"
  using assms unfolding settles_def by blast+

lemma retry_settles:
  assumes "settles out c wr m operation"
  shows "\<exists>y. retry out c wr d operation w = Some y"
proof (induction w rule: measure_induct_rule [where f = m])
  case (less w)
  obtain r w1 where op: "operation w = (r, w1)" by (cases "operation w")
  show ?case
  proof (cases r)
    case (Inr x)
    then show ?thesis by (subst retry.simps) (simp add: op)
  next
    case (Inl err)
    obtain v w2 where wt: "wait_io out c wr d w1 = (v, w2)" by (cases "wait_io out c wr d w1")
    have "err_kind err = WouldBlock \<Longrightarrow> v = Inr u \<Longrightarrow> \<exists>y. retry out c wr d operation w2 = Some y" for u
      using less settlesD(2) [OF assms op [unfolded Inl]] wt by simp
    moreover have "err_kind err = Interrupted \<Longrightarrow> \<exists>y. retry out c wr d operation w1 = Some y"
      using less settlesD(1) [OF assms op [unfolded Inl]] by simp
    ultimately show ?thesis
      by (subst retry.simps) (auto simp: op Inl wt split: sum.splits)
  qed
qed

section \<open>Writing everything\<close>

text \<open>
  \<^verbatim>\<open>write\<close> as the kernel documents it, on a connection whose accepted bytes are \<open>sent\<close>: it accepts a
  prefix of what it is given and says how long, or fails and accepts nothing.
\<close>

definition sink_write :: "('k world \<Rightarrow> bytes) \<Rightarrow> (bytes \<Rightarrow> ('k, nat) io) \<Rightarrow> bool" where
  "sink_write sent write \<longleftrightarrow> (\<forall>data w r w1. write data w = (r, w1) \<longrightarrow>
     (case r of Inl _ \<Rightarrow> sent w1 = sent w | Inr n \<Rightarrow> n \<le> length data \<and> sent w1 = sent w @ take n data))"

text \<open>While the task waits nobody else writes to the connection.\<close>

definition undisturbed :: "'k outside \<Rightarrow> ('k world \<Rightarrow> 'a) \<Rightarrow> bool" where
  "undisturbed out view \<longleftrightarrow> (\<forall>x. outside_keeps out (\<lambda>w. view w = x))"

lemma undisturbed_budget: "undisturbed out view \<Longrightarrow> view (o_budget out w) = view w"
  unfolding undisturbed_def outside_keeps_def by blast

lemma sink_writeD:
  assumes "sink_write sent write"
  shows "write data w = (Inl err, w1) \<Longrightarrow> sent w1 = sent w"
    "write data w = (Inr n, w1) \<Longrightarrow> n \<le> length data \<and> sent w1 = sent w @ take n data"
  using assms unfolding sink_write_def by fastforce+

lemma retry_write:
  assumes "sink_write sent write" "undisturbed out sent" "retry out c wr d (write data) w = Some (r, w')"
  shows "case r of Inl _ \<Rightarrow> sent w' = sent w | Inr n \<Rightarrow> n \<le> length data \<and> sent w' = sent w @ take n data"
proof -
  let ?I = "\<lambda>v. sent v = sent w"
  have "blocked_keeps (write data) ?I"
    unfolding blocked_keeps_def using sink_writeD(1) [OF assms(1)] by metis
  moreover have "outside_keeps out ?I" using assms(2) unfolding undisturbed_def by blast
  ultimately have e: "retry_end out c wr (write data) ?I (r, w')"
    using retry_ends [OF assms(3), of ?I] by blast
  show ?thesis
  proof (cases r)
    case (Inl err)
    then show ?thesis using e sink_writeD(1) [OF assms(1)] unfolding retry_end_def by auto
  next
    case (Inr n)
    then show ?thesis using e sink_writeD(2) [OF assms(1)] undisturbed_budget [OF assms(2)]
      unfolding retry_end_def by auto
  qed
qed

lemma write_all_sends:
  assumes "write_all_with out c write data w = Some (r, w')"
  shows "sink_write sent write \<longrightarrow> undisturbed out sent \<longrightarrow>
    (\<exists>n \<le> length data. sent w' = sent w @ take n data \<and> (r = Inr () \<longleftrightarrow> n = length data))"
proof -
  let ?P = "\<lambda>out write data w y. sink_write sent write \<longrightarrow> undisturbed out sent \<longrightarrow>
    (\<exists>n \<le> length data. sent (snd y) = sent w @ take n data \<and> (fst y = Inr () \<longleftrightarrow> n = length data))"
  have "?P out write data w (r, w')" using assms
  proof (rule write_all_with.raw_induct [rotated], intro impI)
    fix self out c "write" data w y
    assume IH: "\<And>out c write data w y. self out c write data w = Some y \<Longrightarrow> ?P out write data w y"
      and run: "(if data = [] then Some (Inr (), w)
        else case retry out c True (write_deadline c w) (write data) w of
               None \<Rightarrow> None
             | Some (Inl err, w1) \<Rightarrow> Some (Inl err, w1)
             | Some (Inr written, w1) \<Rightarrow>
                 if written = 0 then Some (Inl (SimpleError WriteZero), w1)
                 else self out c write (drop written data) w1) = Some y"
      and h: "sink_write sent write" "undisturbed out sent"
    show "\<exists>n \<le> length data. sent (snd y) = sent w @ take n data \<and> (fst y = Inr () \<longleftrightarrow> n = length data)"
    proof (cases "data = []")
      case True
      then show ?thesis using run by auto
    next
      case False
      then obtain r1 w1 where rt: "retry out c True (write_deadline c w) (write data) w = Some (r1, w1)"
        using run by (cases "retry out c True (write_deadline c w) (write data) w") auto
      note sent1 = retry_write [OF h rt]
      show ?thesis
      proof (cases r1)
        case (Inl err)
        then have "y = (Inl err, w1)" using run rt False by simp
        then show ?thesis using sent1 Inl False by (auto intro!: exI [of _ 0])
      next
        case (Inr n)
        show ?thesis
        proof (cases "n = 0")
          case True
          then have "y = (Inl (SimpleError WriteZero), w1)" using run rt False Inr by simp
          then show ?thesis using sent1 Inr True False by (auto intro!: exI [of _ 0])
        next
          case n: False
          then have "self out c write (drop n data) w1 = Some y" using run rt False Inr by simp
          with IH h obtain k where k: "k \<le> length (drop n data)" "sent (snd y) = sent w1 @ take k (drop n data)"
            "fst y = Inr () \<longleftrightarrow> k = length (drop n data)" by blast
          have "sent (snd y) = sent w @ take (n + k) data"
            using k(2) sent1 Inr by (simp add: take_add)
          then show ?thesis using k sent1 Inr by (auto intro!: exI [of _ "n + k"])
        qed
      qed
    qed
  qed
  then show ?thesis by simp
qed

lemma write_all_settles:
  assumes "\<And>data. settles out c True m (write data)"
  shows "\<exists>y. write_all_with out c write data w = Some y"
proof (induction data arbitrary: w rule: length_induct)
  case (1 data)
  obtain r w1 where rt: "data \<noteq> [] \<longrightarrow> retry out c True (write_deadline c w) (write data) w = Some (r, w1)"
    using retry_settles [OF assms, of "write_deadline c w" data w] by (metis surj_pair)
  show ?case
  proof (cases "data = []")
    case True
    then show ?thesis by (subst write_all_with.simps) simp
  next
    case False
    have "0 < n \<Longrightarrow> \<exists>y. write_all_with out c write (drop n data) w1 = Some y" for n
      using 1 False by simp
    then show ?thesis using False rt
      by (subst write_all_with.simps) (cases r; auto)
  qed
qed

section \<open>Properties\<close>

text \<open>
  C29. Writing everything writes exactly that: given a \<^verbatim>\<open>write\<close> that accepts prefixes, blocks and is
  interrupted as it likes but in the end makes progress, \<^verbatim>\<open>write_all_with\<close> returns; what the
  connection accepted is a prefix of the data, in order, and the whole of it exactly when it
  returned success.
\<close>

theorem write_all_exact:
  assumes "sink_write sent write" "undisturbed out sent" "\<And>data. settles out c True m (write data)"
  shows "\<exists>r w'. write_all_with out c write data w = Some (r, w') \<and>
    (\<exists>n \<le> length data. sent w' = sent w @ take n data \<and> (r = Inr () \<longleftrightarrow> n = length data))"
proof -
  obtain y where y: "write_all_with out c write data w = Some y"
    using write_all_settles [of out c m "write" data w] assms(3) by blast
  then have "write_all_with out c write data w = Some (fst y, snd y)" by simp
  then show ?thesis using write_all_sends [of out c "write" data w "fst y" "snd y" sent] assms(1,2) by blast
qed

text \<open>
  A kernel for examples: what a connection accepted, and what its next calls do, 0 for
  \<^verbatim>\<open>WouldBlock\<close>, \<open>n\<close> for accepting up to \<open>n\<close> bytes.
\<close>

definition demo_write :: "bytes \<Rightarrow> (bytes \<times> nat list, nat) io" where
  "demo_write data w =
     (case w_kernel w of
        (sent, []) \<Rightarrow> (Inr (length data), w\<lparr>w_kernel := (sent @ data, [])\<rparr>)
      | (sent, n # ns) \<Rightarrow>
          if n = 0 then (Inl (OsError 11 WouldBlock), w\<lparr>w_kernel := (sent, ns)\<rparr>)
          else (Inr (min n (length data)), w\<lparr>w_kernel := (sent @ take n data, ns)\<rparr>))"

definition demo_out :: "'k outside" where
  "demo_out = \<lparr>o_watch = (\<lambda>c wr w. (Inr (), w)), o_suspend = (\<lambda>c wr d w. (WReady, w\<lparr>w_now := w_now w + 1\<rparr>)), o_budget = id\<rparr>"

definition demo_world :: "'k \<Rightarrow> 'k world" where
  "demo_world k = \<lparr>w_now = 0, w_conns = (\<lambda>c. conn_new c), w_kernel = k\<rparr>"

lemma demo_sink: "sink_write (\<lambda>w. fst (w_kernel w)) demo_write"
  by (auto simp: sink_write_def demo_write_def min_def split: prod.splits list.splits if_splits)

lemma demo_undisturbed: "(\<And>w t. view (w\<lparr>w_now := t\<rparr>) = view w) \<Longrightarrow> undisturbed demo_out view"
  by (simp add: undisturbed_def outside_keeps_def demo_out_def)

lemma demo_settles: "settles demo_out c True (\<lambda>w. length (snd (w_kernel w))) (demo_write data)"
  by (auto simp: settles_def demo_write_def demo_out_def wait_io_def split: prod.splits list.splits if_splits)

theorem write_all_exact_witness:
  "\<exists>r w'. write_all_with demo_out 0 demo_write [1, 2, 3, 4] (demo_world ([9], [0, 1, 0, 0, 2])) = Some (r, w') \<and>
    (\<exists>n \<le> 4. fst (w_kernel w') = [9] @ take n [1, 2, 3, 4] \<and> (r = Inr () \<longleftrightarrow> n = 4))"
  using write_all_exact [OF demo_sink demo_undisturbed demo_settles, of 0 "[1, 2, 3, 4]" "demo_world ([9], [0, 1, 0, 0, 2])"]
  by (simp add: demo_world_def numeral_eq_Suc)

text \<open>
  Closing a listener ends its waits for good: once \<^verbatim>\<open>close_now\<close> has succeeded, an operation without
  a deadline that finds nothing to do returns the error for a closed socket, without registering
  with the event queue or suspending, whatever the rest of the system does.
\<close>

lemma closed_socket_never_waits:
  assumes "c_closed (w_conns w c) \<longrightarrow> c_reg_closed (w_conns w c)" "close_now mk dup2 fx c w = (Inr (), w1)"
    and "operation w1 = (Inl err, w2)" "err_kind err = WouldBlock" "w_conns w2 c = w_conns w1 c"
  shows "retry out c wr Never operation w1 = Some (Inl socket_closed, w2)"
proof -
  have "c_closed (w_conns w1 c) \<and> c_reg_closed (w_conns w1 c)"
    using assms(1,2) by (auto simp: close_now_def Let_def split: if_splits sum.splits prod.splits)
  then show ?thesis
    using assms(3-5) by (subst retry.simps) (simp add: wait_io_def is_closed_def)
qed

lemma closed_socket_never_waits_example:
  "retry demo_out 0 False Never (\<lambda>w. (Inl (OsError 11 WouldBlock) :: io_error + unit, w))
     (snd (close_now (\<lambda>w. (Inr 7, w)) (\<lambda>a b w. (Inr (), w)) (\<lambda>a b w. w) 0 (demo_world ()))) =
   Some (Inl socket_closed, snd (close_now (\<lambda>w. (Inr 7, w)) (\<lambda>a b w. (Inr (), w)) (\<lambda>a b w. w) 0 (demo_world ())))"
proof (rule closed_socket_never_waits)
  show "c_closed (w_conns (demo_world ()) 0) \<longrightarrow> c_reg_closed (w_conns (demo_world ()) 0)"
    by (simp add: demo_world_def conn_new_def)
  show "close_now (\<lambda>w. (Inr 7, w)) (\<lambda>a b w. (Inr (), w)) (\<lambda>a b w. w) 0 (demo_world ()) =
    (Inr (), snd (close_now (\<lambda>w. (Inr 7, w)) (\<lambda>a b w. (Inr (), w)) (\<lambda>a b w. w) 0 (demo_world ())))"
    by (simp add: close_now_def demo_world_def conn_new_def)
  show "err_kind (OsError 11 WouldBlock) = WouldBlock" by simp
qed (rule refl)+

end
