(* ===== verification/Noise.thy ===== *)
theory Noise
  imports Sockets "HOL-Library.Sublist"
begin

text \<open>
  Noise transport streams (\<^verbatim>\<open>src/noise.rs\<close>): cipher states and their nonces, the receive buffer that
  turns ciphertext into plaintext, and the stream over a connection.

  The AEAD library is three parameters: \<open>bind_key\<close> makes a key, \<open>seal\<close> encrypts and appends the tag,
  \<open>opn\<close> checks and decrypts.  The read lock is held for the whole of a read and the write lock for
  the whole of a write, so the receive state and the sending cipher state are passed along
  explicitly, while everything else in the world may change during a wait.
\<close>

section \<open>Cipher states\<close>

abbreviation MAX_PLAINTEXT :: nat where "MAX_PLAINTEXT \<equiv> 65519"
abbreviation READ_CHUNK :: nat where "READ_CHUNK \<equiv> 65537"

datatype aead_alg = CHACHA20_POLY1305 | AES_256_GCM

record 'key cipher_state =
  cs_key :: 'key
  cs_cipher :: u8
  cs_nonce :: u64

definition cipher_new :: "(aead_alg \<Rightarrow> bytes \<Rightarrow> 'key option) \<Rightarrow> u8 \<Rightarrow> bytes \<Rightarrow> u64 \<Rightarrow> 'key cipher_state option" where
  "cipher_new bind_key cipher key nonce =
     (if cipher = 0 then map_option (\<lambda>k. \<lparr>cs_key = k, cs_cipher = cipher, cs_nonce = nonce\<rparr>) (bind_key CHACHA20_POLY1305 key)
      else if cipher = 1 then map_option (\<lambda>k. \<lparr>cs_key = k, cs_cipher = cipher, cs_nonce = nonce\<rparr>) (bind_key AES_256_GCM key)
      else None)"

definition nonce_bytes :: "u8 \<Rightarrow> u64 \<Rightarrow> bytes" where
  "nonce_bytes cipher n = replicate 4 0 @ (if cipher = 0 then u64_le n else u64_be n)"

definition nonces_used_up :: io_error where
  "nonces_used_up = CustomError OtherError (lit ''Noise: this stream has used up its nonces'')"

definition next_nonce :: "'key cipher_state \<Rightarrow> (io_error + bytes) \<times> 'key cipher_state" where
  "next_nonce cs =
     (if cs_nonce cs = - 1 then (Inl nonces_used_up, cs)
      else (Inr (nonce_bytes (cs_cipher cs) (cs_nonce cs)), cs\<lparr>cs_nonce := cs_nonce cs + 1\<rparr>))"

section \<open>Receiving\<close>

record 'key received =
  r_cipher :: "'key cipher_state"
  r_plain :: bytes
  r_taken :: nat
  r_ciphertext :: bytes
  r_ended :: bool
  r_failed :: bool

definition not_authentic :: io_error where
  "not_authentic = CustomError InvalidData (lit ''Noise: a message failed to authenticate'')"

definition cut_short :: io_error where
  "cut_short = CustomError UnexpectedEof (lit ''Noise: the stream ended partway through a message'')"

definition take_plain :: "nat \<Rightarrow> 'key received \<Rightarrow> bytes option \<times> 'key received" where
  "take_plain most r =
     (if length (r_plain r) \<le> r_taken r then (None, r)
      else let start = r_taken r; end = min (start + most) (length (r_plain r))
           in (Some (take (end - start) (drop start (r_plain r))), r\<lparr>r_taken := end\<rparr>))"

definition whole_message :: "'key received \<Rightarrow> nat option" where
  "whole_message r =
     (case r_ciphertext r of
        a # b # rest \<Rightarrow>
          (let len = unat (u16_from_be a b) in if 2 + len \<le> length (r_ciphertext r) then Some len else None)
      | _ \<Rightarrow> None)"

definition readable :: "'key received \<Rightarrow> bool" where
  "readable r \<longleftrightarrow> r_taken r < length (r_plain r) \<or> whole_message r \<noteq> None \<or> r_ended r \<or> r_failed r"

text \<open>The loop of \<^verbatim>\<open>Received::next\<close>; each round takes a whole message off the ciphertext.\<close>

function next_loop ::
  "('key \<Rightarrow> bytes \<Rightarrow> bytes \<Rightarrow> bytes option) \<Rightarrow> nat \<Rightarrow> 'key received \<Rightarrow> (io_error + bytes option) \<times> 'key received" where
  "next_loop opn most r =
     (case take_plain most r of
        (Some bytes, r1) \<Rightarrow> (Inr (Some bytes), r1)
      | (None, _) \<Rightarrow>
          (case whole_message r of
             None \<Rightarrow>
               if \<not> r_ended r then (Inr None, r)
               else if r_ciphertext r = [] then (Inr (Some []), r)
               else (Inl cut_short, r)
           | Some len \<Rightarrow>
               (let message = take len (drop 2 (r_ciphertext r));
                    r1 = r\<lparr>r_ciphertext := drop (2 + len) (r_ciphertext r)\<rparr>
                in case next_nonce (r_cipher r1) of
                     (Inl err, cs) \<Rightarrow> (Inl err, r1\<lparr>r_cipher := cs\<rparr>)
                   | (Inr nonce, cs) \<Rightarrow>
                       (case opn (cs_key cs) nonce message of
                          None \<Rightarrow> (Inl not_authentic, r1\<lparr>r_cipher := cs, r_failed := True\<rparr>)
                        | Some plain \<Rightarrow>
                            next_loop opn most (r1\<lparr>r_cipher := cs, r_plain := plain, r_taken := 0\<rparr>)))))"
  by pat_completeness auto
termination
  by (relation "measure (\<lambda>(opn, most, r). length (r_ciphertext r))")
    (auto simp: whole_message_def Let_def split: list.splits if_splits)

declare next_loop.simps [simp del]

definition noise_next ::
  "('key \<Rightarrow> bytes \<Rightarrow> bytes \<Rightarrow> bytes option) \<Rightarrow> nat \<Rightarrow> 'key received \<Rightarrow> (io_error + bytes option) \<times> 'key received" where
  "noise_next opn most r = (if r_failed r then (Inl not_authentic, r) else next_loop opn most r)"

definition arrived :: "bytes \<Rightarrow> 'key received \<Rightarrow> 'key received" where
  "arrived got r = r\<lparr>r_ciphertext := r_ciphertext r @ got, r_ended := (r_ended r \<or> length got = 0)\<rparr>"

section \<open>The stream\<close>

definition received_new :: "'key cipher_state \<Rightarrow> 'key received" where
  "received_new cs = \<lparr>r_cipher = cs, r_plain = [], r_taken = 0, r_ciphertext = [], r_ended = False, r_failed = False\<rparr>"

definition bad_key :: io_error where
  "bad_key = CustomError InvalidInput (lit ''Noise: a cipher state's key isn't 32 bytes'')"

text \<open>\<^verbatim>\<open>NoiseStream::new\<close>: the sending cipher state and the receive state.\<close>

definition noise_new ::
  "(aead_alg \<Rightarrow> bytes \<Rightarrow> 'key option) \<Rightarrow> u8 \<Rightarrow> bytes \<times> u64 \<Rightarrow> bytes \<times> u64 \<Rightarrow> io_error + 'key cipher_state \<times> 'key received" where
  "noise_new bind_key cipher send receive =
     (case cipher_new bind_key cipher (fst send) (snd send) of
        None \<Rightarrow> Inl bad_key
      | Some s \<Rightarrow>
          (case cipher_new bind_key cipher (fst receive) (snd receive) of
             None \<Rightarrow> Inl bad_key
           | Some r \<Rightarrow> Inr (s, received_new r)))"

text \<open>
  \<^verbatim>\<open>Wire::read_by\<close> and \<^verbatim>\<open>Wire::read_now\<close>, over the \<^verbatim>\<open>read\<close> system call \<open>sys_read\<close>, which returns the bytes
  it got.  TCP and Unix connections differ only in that call.
\<close>

definition read_by ::
  "'k outside \<Rightarrow> (nat \<Rightarrow> ('k, bytes) io) \<Rightarrow> nat \<Rightarrow> deadline \<Rightarrow> ('k, bytes) io_loop" where
  "read_by out sys_read c d w = retry out c False (earliest (read_deadline c w) d) (sys_read READ_CHUNK) w"

partial_function (option) read_now :: "(nat \<Rightarrow> ('k, bytes) io) \<Rightarrow> ('k, bytes option) io_loop" where
  [code]: "read_now sys_read w =
     (case sys_read READ_CHUNK w of
        (Inr got, w1) \<Rightarrow> Some (Inr (Some got), w1)
      | (Inl err, w1) \<Rightarrow>
          if err_kind err = WouldBlock then Some (Inr None, w1)
          else if err_kind err = Interrupted then read_now sys_read w1
          else Some (Inl err, w1))"

definition receive_more ::
  "'k outside \<Rightarrow> (nat \<Rightarrow> ('k, bytes) io) \<Rightarrow> nat \<Rightarrow> deadline \<Rightarrow> 'key received \<Rightarrow> 'k world \<Rightarrow>
   ((io_error + unit) \<times> 'key received \<times> 'k world) option" where
  "receive_more out sys_read c d r w =
     (case read_by out sys_read c d w of
        None \<Rightarrow> None
      | Some (Inl err, w1) \<Rightarrow> Some (Inl err, r, w1)
      | Some (Inr got, w1) \<Rightarrow> Some (Inr (), arrived got r, w1))"

partial_function (option) noise_read ::
  "('key \<Rightarrow> bytes \<Rightarrow> bytes \<Rightarrow> bytes option) \<Rightarrow> 'k outside \<Rightarrow> (nat \<Rightarrow> ('k, bytes) io) \<Rightarrow> nat \<Rightarrow> nat \<Rightarrow>
   'key received \<Rightarrow> 'k world \<Rightarrow> ((io_error + bytes) \<times> 'key received \<times> 'k world) option" where
  [code]: "noise_read opn out sys_read c most r w =
     (case noise_next opn most r of
        (Inl err, r1) \<Rightarrow> Some (Inl err, r1, w)
      | (Inr (Some bytes), r1) \<Rightarrow> Some (Inr bytes, r1, w)
      | (Inr None, r1) \<Rightarrow>
          (case receive_more out sys_read c Never r1 w of
             None \<Rightarrow> None
           | Some (Inl err, r2, w2) \<Rightarrow> Some (Inl err, r2, w2)
           | Some (Inr _, r2, w2) \<Rightarrow> noise_read opn out sys_read c most r2 w2))"

text \<open>\<^verbatim>\<open>try_read\<close> with the read lock taken; also whether the hold was idle.\<close>

partial_function (option) noise_try_read ::
  "('key \<Rightarrow> bytes \<Rightarrow> bytes \<Rightarrow> bytes option) \<Rightarrow> (nat \<Rightarrow> ('k, bytes) io) \<Rightarrow> nat \<Rightarrow>
   'key received \<Rightarrow> 'k world \<Rightarrow> ((io_error + bytes option) \<times> bool \<times> 'key received \<times> 'k world) option" where
  [code]: "noise_try_read opn sys_read most r w =
     (case noise_next opn most r of
        (Inl err, r1) \<Rightarrow> Some (Inl err, False, r1, w)
      | (Inr (Some bytes), r1) \<Rightarrow> Some (Inr (Some bytes), False, r1, w)
      | (Inr None, r1) \<Rightarrow>
          (case read_now sys_read w of
             None \<Rightarrow> None
           | Some (Inl err, w1) \<Rightarrow> Some (Inl err, False, r1, w1)
           | Some (Inr None, w1) \<Rightarrow> Some (Inr None, True, r1, w1)
           | Some (Inr (Some got), w1) \<Rightarrow> noise_try_read opn sys_read most (arrived got r1) w1))"

partial_function (option) noise_fill_by ::
  "'k outside \<Rightarrow> (nat \<Rightarrow> ('k, bytes) io) \<Rightarrow> nat \<Rightarrow> deadline \<Rightarrow>
   'key received \<Rightarrow> 'k world \<Rightarrow> ((io_error + unit) \<times> 'key received \<times> 'k world) option" where
  [code]: "noise_fill_by out sys_read c d r w =
     (if readable r then Some (Inr (), r, w)
      else case receive_more out sys_read c d r w of
             None \<Rightarrow> None
           | Some (Inl err, r1, w1) \<Rightarrow> Some (Inl err, r1, w1)
           | Some (Inr _, r1, w1) \<Rightarrow> noise_fill_by out sys_read c d r1 w1)"

definition encrypting_failed :: io_error where
  "encrypting_failed = CustomError OtherError (lit ''Noise: encrypting failed'')"

definition frame :: "bytes \<Rightarrow> bytes" where
  "frame sealed = u16_be (of_nat (length sealed)) @ sealed"

text \<open>\<^verbatim>\<open>write_all\<close>: the loop over the chunks.\<close>

fun write_chunks ::
  "('key \<Rightarrow> bytes \<Rightarrow> bytes \<Rightarrow> bytes option) \<Rightarrow> 'k outside \<Rightarrow> (bytes \<Rightarrow> ('k, nat) io) \<Rightarrow> nat \<Rightarrow> bytes list \<Rightarrow>
   'key cipher_state \<Rightarrow> 'k world \<Rightarrow> ((io_error + unit) \<times> 'key cipher_state \<times> 'k world) option" where
  "write_chunks seal out sys_write c [] cs w = Some (Inr (), cs, w)"
| "write_chunks seal out sys_write c (chunk # rest) cs w =
     (case next_nonce cs of
        (Inl err, cs1) \<Rightarrow> Some (Inl err, cs1, w)
      | (Inr nonce, cs1) \<Rightarrow>
          (case seal (cs_key cs1) nonce chunk of
             None \<Rightarrow> Some (Inl encrypting_failed, cs1, w)
           | Some sealed \<Rightarrow>
               (case write_all_with out c sys_write (frame sealed) w of
                  None \<Rightarrow> None
                | Some (Inl err, w1) \<Rightarrow> Some (Inl err, cs1, w1)
                | Some (Inr _, w1) \<Rightarrow> write_chunks seal out sys_write c rest cs1 w1)))"

definition noise_write_all ::
  "('key \<Rightarrow> bytes \<Rightarrow> bytes \<Rightarrow> bytes option) \<Rightarrow> 'k outside \<Rightarrow> (bytes \<Rightarrow> ('k, nat) io) \<Rightarrow> nat \<Rightarrow> bytes \<Rightarrow>
   'key cipher_state \<Rightarrow> 'k world \<Rightarrow> ((io_error + unit) \<times> 'key cipher_state \<times> 'k world) option" where
  "noise_write_all seal out sys_write c data = write_chunks seal out sys_write c (chunks MAX_PLAINTEXT data)"

text \<open>
  \<^verbatim>\<open>Reading::drop\<close>, once the lock is released, and \<^verbatim>\<open>watch\<close>: \<open>locked\<close> is whether the read lock is
  held, \<open>polled\<close> whether the socket has something to read.
\<close>

definition reading_dropped :: "nat option \<Rightarrow> bool \<Rightarrow> nat \<Rightarrow> waiters \<Rightarrow> sched \<Rightarrow> waiters \<times> sched" where
  "reading_dropped me idle first ws s = (if idle then wake_from me first ws s else wake_all me ws s)"

datatype noise_watch = WatchReady | WatchWaiting nat

definition watch_noise :: "task_waker \<Rightarrow> bool \<Rightarrow> bool \<Rightarrow> 'key received \<Rightarrow> waiters \<Rightarrow> noise_watch \<times> waiters" where
  "watch_noise waker locked polled r ws =
     (let (id, ws1) = add_waker waker ws
      in if locked then (WatchWaiting id, ws1)
         else if readable r \<or> polled then (WatchReady, remove_waiter id ws1)
         else (WatchWaiting id, ws1))"

section \<open>Nonces\<close>

lemma nonce_bytes_inject [simp]: "nonce_bytes cipher m = nonce_bytes cipher n \<longleftrightarrow> m = n"
  by (auto simp: nonce_bytes_def)

lemma next_nonce_Inr:
  "next_nonce cs = (Inr nonce, cs') \<longleftrightarrow>
    cs_nonce cs \<noteq> - 1 \<and> nonce = nonce_bytes (cs_cipher cs) (cs_nonce cs) \<and> cs' = cs\<lparr>cs_nonce := cs_nonce cs + 1\<rparr>"
  by (auto simp: next_nonce_def)

lemma not_max_iff: "(n :: u64) \<noteq> - 1 \<longleftrightarrow> unat n < u64_max"
proof -
  have "unat (- 1 :: u64) = u64_max" by (simp add: unsigned_minus_1_eq_mask mask_eq_exp_minus_1)
  then show ?thesis using unat_u64_bound [of n] by (metis le_neq_implies_less nat_neq_iff word_unat_eq_iff)
qed

lemma unat_next: "(n :: u64) \<noteq> - 1 \<Longrightarrow> unat (n + 1) = unat n + 1"
  unfolding not_max_iff by (subst unat_add_lem [THEN iffD1]) simp_all

text \<open>A cipher state after \<open>k\<close> more messages.\<close>

primrec after_messages :: "nat \<Rightarrow> 'key cipher_state \<Rightarrow> 'key cipher_state" where
  "after_messages 0 cs = cs"
| "after_messages (Suc k) cs = snd (next_nonce (after_messages k cs))"

lemma after_messages_nonce:
  "unat (cs_nonce (after_messages k cs)) = min (unat (cs_nonce cs) + k) u64_max \<and>
   cs_cipher (after_messages k cs) = cs_cipher cs \<and> cs_key (after_messages k cs) = cs_key cs"
proof (induction k)
  case 0
  then show ?case using unat_u64_bound [of "cs_nonce cs"] by simp
next
  case (Suc k)
  show ?case
  proof (cases "cs_nonce (after_messages k cs) = - 1")
    case True
    then show ?thesis using Suc not_max_iff [of "cs_nonce (after_messages k cs)"] by (simp add: next_nonce_def)
  next
    case False
    then have "unat (cs_nonce (after_messages k cs)) < u64_max" by (simp only: not_max_iff)
    moreover have "after_messages (Suc k) cs = (after_messages k cs)\<lparr>cs_nonce := cs_nonce (after_messages k cs) + 1\<rparr>"
      using False by (simp add: next_nonce_def)
    ultimately show ?thesis using Suc unat_next [OF False] by simp
  qed
qed

section \<open>What an attacker can make a stream deliver\<close>

text \<open>A receive state over time: bytes arrive (none at all is the end of the connection), reads take plaintext.\<close>

datatype rx_event = Arrive bytes | ReadUpTo nat

fun bytes_got :: "io_error + bytes option \<Rightarrow> bytes" where
  "bytes_got (Inr (Some got)) = got"
| "bytes_got _ = []"

fun rx :: "('key \<Rightarrow> bytes \<Rightarrow> bytes \<Rightarrow> bytes option) \<Rightarrow> rx_event \<Rightarrow> 'key received \<times> bytes \<Rightarrow> 'key received \<times> bytes" where
  "rx opn (Arrive got) (r, del) = (arrived got r, del)"
| "rx opn (ReadUpTo n) (r, del) = (case noise_next opn n r of (res, r1) \<Rightarrow> (r1, del @ bytes_got res))"

text \<open>
  An authentic cipher: whatever opens under the nonce of the \<open>i\<close>-th message is the \<open>i\<close>-th message the
  peer sealed.
\<close>

definition only_sent :: "('key \<Rightarrow> bytes \<Rightarrow> bytes \<Rightarrow> bytes option) \<Rightarrow> 'key cipher_state \<Rightarrow> bytes list \<Rightarrow> bool" where
  "only_sent opn cs msgs \<longleftrightarrow> (\<forall>n m p. opn (cs_key cs) (nonce_bytes (cs_cipher cs) n) m = Some p \<longrightarrow>
     (\<exists>i < length msgs. unat n = unat (cs_nonce cs) + i \<and> p = msgs ! i))"

definition rx_inv :: "'key cipher_state \<Rightarrow> bytes list \<Rightarrow> 'key received \<Rightarrow> bytes \<Rightarrow> bool" where
  "rx_inv cs msgs r del \<longleftrightarrow>
     cs_key (r_cipher r) = cs_key cs \<and> cs_cipher (r_cipher r) = cs_cipher cs \<and>
     (\<exists>i \<le> length msgs. del @ drop (r_taken r) (r_plain r) = concat (take i msgs) \<and>
        (\<not> r_failed r \<longrightarrow> unat (cs_nonce (r_cipher r)) = unat (cs_nonce cs) + i))"

lemma take_plain_Some:
  assumes "take_plain most r = (Some got, r')"
  shows "got @ drop (r_taken r') (r_plain r') = drop (r_taken r) (r_plain r)" "r' = r\<lparr>r_taken := r_taken r'\<rparr>"
    "0 < most \<Longrightarrow> got \<noteq> []"
proof -
  let ?s = "r_taken r" and ?p = "r_plain r"
  have lt: "?s < length ?p" using assms by (auto simp: take_plain_def split: if_splits)
  have r': "r' = r\<lparr>r_taken := min (?s + most) (length ?p)\<rparr>"
    and got: "got = take (min (?s + most) (length ?p) - ?s) (drop ?s ?p)"
    using assms lt by (auto simp: take_plain_def Let_def split: if_splits)
  show "got @ drop (r_taken r') (r_plain r') = drop ?s ?p"
  proof -
    let ?e = "min (?s + most) (length ?p)"
    have "?e - ?s + ?s = ?e" using lt by simp
    then have e: "drop ?e ?p = drop (?e - ?s) (drop ?s ?p)" by (simp only: drop_drop)
    have "got @ drop (r_taken r') (r_plain r') = take (?e - ?s) (drop ?s ?p) @ drop ?e ?p" by (simp add: r' got)
    also have "\<dots> = drop ?s ?p" unfolding e by (rule append_take_drop_id)
    finally show ?thesis .
  qed
  show "r' = r\<lparr>r_taken := r_taken r'\<rparr>" by (simp add: r')
  show "got \<noteq> []" if "0 < most" using that lt by (simp add: got)
qed

lemma take_plain_None: "take_plain most r = (None, r') \<Longrightarrow> r' = r \<and> drop (r_taken r) (r_plain r) = []"
  by (auto simp: take_plain_def Let_def split: if_splits)

text \<open>The ways one round of the loop can go, as an induction rule.\<close>

lemma next_loop_rule:
  assumes got: "\<And>r bs r'. take_plain most r = (Some bs, r') \<Longrightarrow> P r (Inr (Some bs), r')"
    and wait: "\<And>r. drop (r_taken r) (r_plain r) = [] \<Longrightarrow> whole_message r = None \<Longrightarrow> \<not> r_ended r \<Longrightarrow> P r (Inr None, r)"
    and fin: "\<And>r. drop (r_taken r) (r_plain r) = [] \<Longrightarrow> whole_message r = None \<Longrightarrow> r_ended r \<Longrightarrow> r_ciphertext r = [] \<Longrightarrow> P r (Inr (Some []), r)"
    and cut: "\<And>r. drop (r_taken r) (r_plain r) = [] \<Longrightarrow> whole_message r = None \<Longrightarrow> r_ended r \<Longrightarrow> r_ciphertext r \<noteq> [] \<Longrightarrow> P r (Inl cut_short, r)"
    and out: "\<And>r len r1. drop (r_taken r) (r_plain r) = [] \<Longrightarrow> whole_message r = Some len \<Longrightarrow>
      r1 = r\<lparr>r_ciphertext := drop (2 + len) (r_ciphertext r)\<rparr> \<Longrightarrow> cs_nonce (r_cipher r) = - 1 \<Longrightarrow> P r (Inl nonces_used_up, r1)"
    and bad: "\<And>r len cs r1. drop (r_taken r) (r_plain r) = [] \<Longrightarrow> whole_message r = Some len \<Longrightarrow>
      cs_nonce (r_cipher r) \<noteq> - 1 \<Longrightarrow> cs = (r_cipher r)\<lparr>cs_nonce := cs_nonce (r_cipher r) + 1\<rparr> \<Longrightarrow>
      opn (cs_key cs) (nonce_bytes (cs_cipher cs) (cs_nonce (r_cipher r))) (take len (drop 2 (r_ciphertext r))) = None \<Longrightarrow>
      r1 = r\<lparr>r_ciphertext := drop (2 + len) (r_ciphertext r), r_cipher := cs, r_failed := True\<rparr> \<Longrightarrow>
      P r (Inl not_authentic, r1)"
    and more: "\<And>r len cs r1 plain. drop (r_taken r) (r_plain r) = [] \<Longrightarrow> whole_message r = Some len \<Longrightarrow>
      cs_nonce (r_cipher r) \<noteq> - 1 \<Longrightarrow> cs = (r_cipher r)\<lparr>cs_nonce := cs_nonce (r_cipher r) + 1\<rparr> \<Longrightarrow>
      opn (cs_key cs) (nonce_bytes (cs_cipher cs) (cs_nonce (r_cipher r))) (take len (drop 2 (r_ciphertext r))) = Some plain \<Longrightarrow>
      r1 = r\<lparr>r_ciphertext := drop (2 + len) (r_ciphertext r), r_cipher := cs, r_plain := plain, r_taken := 0\<rparr> \<Longrightarrow>
      P r1 (next_loop opn most r1) \<Longrightarrow> P r (next_loop opn most r1)"
  shows "P r (next_loop opn most r)"
proof (induction r rule: measure_induct_rule [where f = "\<lambda>r. length (r_ciphertext r)"])
  case (less r)
  show ?case
  proof (cases "take_plain most r")
    case (Pair opt r1)
    show ?thesis
    proof (cases opt)
      case (Some bs)
      then show ?thesis using Pair got by (subst next_loop.simps) simp
    next
      case None
      with Pair have tk: "take_plain most r = (None, r1)" and nil: "drop (r_taken r) (r_plain r) = []"
        using take_plain_None [of most r r1] by auto
      show ?thesis
      proof (cases "whole_message r")
        case no: None
        then show ?thesis using tk nil wait fin cut by (subst next_loop.simps) auto
      next
        case (Some len)
        show ?thesis
        proof (cases "cs_nonce (r_cipher r) = - 1")
          case True
          then show ?thesis using tk Some out [OF nil Some refl True] by (subst next_loop.simps) (simp add: next_nonce_def)
        next
          case False
          define cs where "cs = (r_cipher r)\<lparr>cs_nonce := cs_nonce (r_cipher r) + 1\<rparr>"
          let ?m = "take len (drop 2 (r_ciphertext r))"
          have nn: "next_nonce (r_cipher r) = (Inr (nonce_bytes (cs_cipher cs) (cs_nonce (r_cipher r))), cs)"
            using False by (simp add: next_nonce_def cs_def)
          have shorter: "length (drop (2 + len) (r_ciphertext r)) < length (r_ciphertext r)"
            using Some by (auto simp: whole_message_def split: list.splits)
          show ?thesis
          proof (cases "opn (cs_key cs) (nonce_bytes (cs_cipher cs) (cs_nonce (r_cipher r))) ?m")
            case no: None
            then show ?thesis using tk Some nn bad [OF nil Some False cs_def no refl]
              by (subst next_loop.simps) simp
          next
            case op: (Some plain)
            define r2 where "r2 = r\<lparr>r_ciphertext := drop (2 + len) (r_ciphertext r), r_cipher := cs, r_plain := plain, r_taken := 0\<rparr>"
            have "P r2 (next_loop opn most r2)" using less [of r2] shorter by (simp add: r2_def)
            then have "P r (next_loop opn most r2)" by (rule more [OF nil Some False cs_def op r2_def])
            moreover have "next_loop opn most r = next_loop opn most r2"
              using tk Some nn op by (subst next_loop.simps) (simp add: r2_def)
            ultimately show ?thesis by simp
          qed
        qed
      qed
    qed
  qed
qed

lemma next_loop_inv:
  assumes "only_sent opn cs msgs"
  shows "\<not> r_failed r \<longrightarrow> rx_inv cs msgs r del \<longrightarrow>
    rx_inv cs msgs (snd (next_loop opn most r)) (del @ bytes_got (fst (next_loop opn most r)))"
proof (rule next_loop_rule [where P = "\<lambda>r y. \<not> r_failed r \<longrightarrow> rx_inv cs msgs r del \<longrightarrow>
    rx_inv cs msgs (snd y) (del @ bytes_got (fst y))" and opn = opn and most = most], goal_cases)
  case (1 r bs r')
  obtain t where r': "r' = r\<lparr>r_taken := t\<rparr>" using take_plain_Some(2) [OF 1] by blast
  have "del @ bs @ drop t (r_plain r) = del @ drop (r_taken r) (r_plain r)"
    using take_plain_Some(1) [OF 1] by (simp add: r')
  then show ?case by (simp add: rx_inv_def r')
next
  case (6 r len cs' r1)
  then show ?case by (auto simp: rx_inv_def)
next
  case (7 r len cs' r1 plain)
  show ?case
  proof (intro impI)
    assume nf: "\<not> r_failed r" and inv: "rx_inv cs msgs r del"
    obtain i where i: "i \<le> length msgs" "del = concat (take i msgs)" "unat (cs_nonce (r_cipher r)) = unat (cs_nonce cs) + i"
      and kc: "cs_key (r_cipher r) = cs_key cs" "cs_cipher (r_cipher r) = cs_cipher cs"
      using inv nf 7(1) unfolding rx_inv_def by auto
    have "opn (cs_key cs) (nonce_bytes (cs_cipher cs) (cs_nonce (r_cipher r))) (take len (drop 2 (r_ciphertext r))) = Some plain"
      using 7(4,5) kc by simp
    then obtain j where "j < length msgs" "unat (cs_nonce (r_cipher r)) = unat (cs_nonce cs) + j" "plain = msgs ! j"
      using assms unfolding only_sent_def by blast
    with i have ij: "i < length msgs" "plain = msgs ! i" by auto
    have "rx_inv cs msgs r1 del"
      using ij i kc unat_next [OF 7(3)] unfolding 7(4,6) rx_inv_def
      by (auto simp: take_Suc_conv_app_nth intro!: exI [of _ "Suc i"])
    moreover have "\<not> r_failed r1" using nf unfolding 7(6) by simp
    ultimately show "rx_inv cs msgs (snd (next_loop opn most r1)) (del @ bytes_got (fst (next_loop opn most r1)))"
      using 7(7) by blast
  qed
qed (auto simp: rx_inv_def)

lemma rx_keeps:
  assumes "only_sent opn cs msgs" "rx_inv cs msgs r del" "rx opn e (r, del) = (r', del')"
  shows "rx_inv cs msgs r' del'"
proof (cases e)
  case (Arrive got)
  then show ?thesis using assms(2,3) by (auto simp: rx_inv_def arrived_def)
next
  case (ReadUpTo n)
  show ?thesis
  proof (cases "r_failed r")
    case True
    then show ?thesis using assms(2,3) ReadUpTo by (simp add: noise_next_def)
  next
    case False
    then show ?thesis using next_loop_inv [OF assms(1), of r del n] assms(2,3) ReadUpTo
      by (auto simp: noise_next_def split: prod.splits)
  qed
qed

lemma rx_fold_keeps:
  assumes "only_sent opn cs msgs"
  shows "rx_inv cs msgs (fst y) (snd y) \<Longrightarrow> rx_inv cs msgs (fst (fold (rx opn) es y)) (snd (fold (rx opn) es y))"
proof (induction es arbitrary: y)
  case (Cons e es)
  have "rx_inv cs msgs (fst (rx opn e y)) (snd (rx opn e y))"
    using rx_keeps [OF assms Cons.prems, of e "fst (rx opn e y)" "snd (rx opn e y)"] by simp
  then show ?case using Cons.IH by simp
qed simp

lemma rx_failed_stays: "r_failed (fst y) \<Longrightarrow> r_failed (fst (fold (rx opn) es y)) \<and> snd (fold (rx opn) es y) = snd y"
proof (induction es arbitrary: y)
  case (Cons e es)
  have "r_failed (fst (rx opn e y)) \<and> snd (rx opn e y) = snd y"
    using Cons.prems by (cases y; cases e) (simp_all add: arrived_def noise_next_def)
  then show ?case using Cons.IH [of "rx opn e y"] by simp
qed simp

section \<open>Delivery\<close>

text \<open>The cipher as documented: sealing appends a 16-byte tag and opening gives the plaintext back.\<close>

definition aead_ok ::
  "('key \<Rightarrow> bytes \<Rightarrow> bytes \<Rightarrow> bytes option) \<Rightarrow> ('key \<Rightarrow> bytes \<Rightarrow> bytes \<Rightarrow> bytes option) \<Rightarrow> bool" where
  "aead_ok seal opn \<longleftrightarrow> (\<forall>k n p s. seal k n p = Some s \<longrightarrow> length s = length p + 16 \<and> opn k n s = Some p)"

lemma aead_okD: "aead_ok seal opn \<Longrightarrow> seal k n p = Some s \<Longrightarrow> length s = length p + 16 \<and> opn k n s = Some p"
  unfolding aead_ok_def by blast

text \<open>The bytes that carry messages: each sealed under the next nonce, in a frame; \<open>None\<close> if one cannot be sealed.\<close>

fun frames ::
  "('key \<Rightarrow> bytes \<Rightarrow> bytes \<Rightarrow> bytes option) \<Rightarrow> 'key cipher_state \<Rightarrow> bytes list \<Rightarrow> bytes option" where
  "frames seal cs [] = Some []"
| "frames seal cs (m # ms) =
     (case next_nonce cs of
        (Inl err, _) \<Rightarrow> None
      | (Inr nonce, cs1) \<Rightarrow>
          (case seal (cs_key cs1) nonce m of
             None \<Rightarrow> None
           | Some s \<Rightarrow> map_option (\<lambda>rest. frame s @ rest) (frames seal cs1 ms)))"

lemma frames_Cons:
  assumes "frames seal cs (m # ms) = Some fs"
  obtains s rest where "cs_nonce cs \<noteq> - 1" "seal (cs_key cs) (nonce_bytes (cs_cipher cs) (cs_nonce cs)) m = Some s"
    "frames seal (cs\<lparr>cs_nonce := cs_nonce cs + 1\<rparr>) ms = Some rest" "fs = frame s @ rest"
  using assms by (auto simp: next_nonce_def split: if_splits option.splits)

lemma write_chunks_sends:
  assumes "sink_write sent sys_write" "undisturbed out sent"
  shows "write_chunks seal out sys_write c ms cs w = Some (Inr (), cs', w') \<Longrightarrow>
    \<exists>fs. frames seal cs ms = Some fs \<and> sent w' = sent w @ fs"
proof (induction ms arbitrary: cs w)
  case (Cons m ms)
  obtain nonce cs1 s w1 where 1: "next_nonce cs = (Inr nonce, cs1)" "seal (cs_key cs1) nonce m = Some s"
    "write_all_with out c sys_write (frame s) w = Some (Inr (), w1)"
    "write_chunks seal out sys_write c ms cs1 w1 = Some (Inr (), cs', w')"
    using Cons.prems by (auto split: prod.splits sum.splits option.splits)
  have "sent w1 = sent w @ frame s" using write_all_sends [OF 1(3), of sent] assms by auto
  moreover obtain fs where "frames seal cs1 ms = Some fs" "sent w' = sent w1 @ fs" using Cons.IH [OF 1(4)] by blast
  ultimately show ?case using 1(1,2) by simp
qed simp

text \<open>
  The connection carries \<open>wire\<close> in pieces of any size and then ends; reads of any size happen in between.
  \<open>got\<close> is what has arrived so far and \<open>del\<close> what the reads returned.
\<close>

inductive noise_run ::
  "('key \<Rightarrow> bytes \<Rightarrow> bytes \<Rightarrow> bytes option) \<Rightarrow> 'key cipher_state \<Rightarrow> bytes \<Rightarrow> 'key received \<Rightarrow> bytes \<Rightarrow> bytes \<Rightarrow> bool"
  for opn cs wire where
  start: "noise_run opn cs wire (received_new cs) [] []"
| piece: "noise_run opn cs wire r got del \<Longrightarrow> piece \<noteq> [] \<Longrightarrow> prefix (got @ piece) wire \<Longrightarrow>
    noise_run opn cs wire (arrived piece r) (got @ piece) del"
| ends: "noise_run opn cs wire r wire del \<Longrightarrow> noise_run opn cs wire (arrived [] r) wire del"
| reads: "noise_run opn cs wire r got del \<Longrightarrow> noise_next opn n r = (res, r') \<Longrightarrow>
    noise_run opn cs wire r' got (del @ bytes_got res)"

definition rx_good ::
  "('key \<Rightarrow> bytes \<Rightarrow> bytes \<Rightarrow> bytes option) \<Rightarrow> bytes \<Rightarrow> bytes list \<Rightarrow> bytes \<Rightarrow> 'key received \<Rightarrow> bytes \<Rightarrow> bool" where
  "rx_good seal data ms rest r del \<longleftrightarrow>
     \<not> r_failed r \<and> (r_ended r \<longrightarrow> rest = []) \<and> frames seal (r_cipher r) ms = Some (r_ciphertext r @ rest) \<and>
     (\<forall>m \<in> set ms. length m \<le> MAX_PLAINTEXT) \<and> del @ drop (r_taken r) (r_plain r) @ concat ms = data"

lemma u16_be_len: "n \<le> 65535 \<Longrightarrow> u16_be (of_nat n) = [a, b] \<Longrightarrow> unat (u16_from_be a b) = n"
  by (simp add: u16_from_be_u16_be [of "of_nat n" a b] unat_of_nat)

text \<open>The message at the front of the ciphertext is the frame the peer made, once all of it has arrived.\<close>

lemma whole_message_frame:
  assumes "r_ciphertext r @ rest = frame s @ others" "length s \<le> 65535"
  shows "whole_message r = (if length s + 2 \<le> length (r_ciphertext r) then Some (length s) else None)"
proof -
  obtain a b where ab: "u16_be (of_nat (length s)) = [a, b]" by (simp add: u16_be_def)
  have len: "unat (u16_from_be a b) = length s" using u16_be_len [OF assms(2) ab] .
  show ?thesis
  proof (cases "r_ciphertext r")
    case Nil
    then show ?thesis by (simp add: whole_message_def)
  next
    case (Cons x xs)
    show ?thesis
    proof (cases xs)
      case Nil
      then show ?thesis using Cons by (simp add: whole_message_def)
    next
      case (Cons y ys)
      then have "x = a \<and> y = b" using assms(1) \<open>r_ciphertext r = x # xs\<close> ab by (simp add: frame_def)
      then show ?thesis using \<open>r_ciphertext r = x # xs\<close> Cons len by (simp add: whole_message_def)
    qed
  qed
qed

lemma whole_message_none: "r_ciphertext r = [] \<Longrightarrow> whole_message r = None"
  by (simp add: whole_message_def)

definition good_read ::
  "('key \<Rightarrow> bytes \<Rightarrow> bytes \<Rightarrow> bytes option) \<Rightarrow> bytes \<Rightarrow> bytes \<Rightarrow> nat \<Rightarrow> bytes \<Rightarrow> 'key received \<Rightarrow>
   (io_error + bytes option) \<times> 'key received \<Rightarrow> bool" where
  "good_read seal data rest most del r = (\<lambda>(res, r'). \<exists>opt ms. res = Inr opt \<and> rx_good seal data ms rest r' (del @ bytes_got res) \<and>
     (opt = None \<longrightarrow> \<not> r_ended r \<and> (rest = [] \<longrightarrow> del = data)) \<and>
     (opt = Some [] \<and> 0 < most \<longrightarrow> r_ended r \<and> del = data))"

lemma frames_nonempty: "frames seal cs ms = Some [] \<longleftrightarrow> ms = []"
proof (cases ms)
  case (Cons m ms')
  have "frames seal cs ms \<noteq> Some []"
  proof
    assume "frames seal cs ms = Some []"
    then obtain s rest where "frame s @ rest = []" unfolding Cons by (elim frames_Cons) metis
    then show False by (simp add: frame_def u16_be_def)
  qed
  then show ?thesis by (simp add: Cons)
qed simp

text \<open>A good state without plaintext left has either nothing more to open, or a frame at the front.\<close>

lemma rx_good_cases:
  assumes "aead_ok seal opn" "rx_good seal data ms rest r del" "drop (r_taken r) (r_plain r) = []"
  obtains (nothing) "ms = []" "r_ciphertext r = []" "rest = []" "del = data"
  | (frame) m ms' s others where "ms = m # ms'" "cs_nonce (r_cipher r) \<noteq> - 1"
      "seal (cs_key (r_cipher r)) (nonce_bytes (cs_cipher (r_cipher r)) (cs_nonce (r_cipher r))) m = Some s"
      "frames seal ((r_cipher r)\<lparr>cs_nonce := cs_nonce (r_cipher r) + 1\<rparr>) ms' = Some others"
      "r_ciphertext r @ rest = frame s @ others" "length s \<le> 65535"
proof (cases ms)
  case Nil
  then have "r_ciphertext r = []" "rest = []" "del = data" using assms(2,3) by (auto simp: rx_good_def)
  then show thesis using that(1) Nil by blast
next
  case (Cons m ms')
  have f: "frames seal (r_cipher r) (m # ms') = Some (r_ciphertext r @ rest)" "length m \<le> MAX_PLAINTEXT"
    using assms(2) Cons by (auto simp: rx_good_def)
  obtain s others where s: "cs_nonce (r_cipher r) \<noteq> - 1"
      "seal (cs_key (r_cipher r)) (nonce_bytes (cs_cipher (r_cipher r)) (cs_nonce (r_cipher r))) m = Some s"
      "frames seal ((r_cipher r)\<lparr>cs_nonce := cs_nonce (r_cipher r) + 1\<rparr>) ms' = Some others"
      "r_ciphertext r @ rest = frame s @ others"
    using frames_Cons [OF f(1)] by blast
  moreover have "length s \<le> 65535" using aead_okD [OF assms(1) s(2)] f(2) by simp
  ultimately show thesis using that(2) Cons by blast
qed

lemma next_loop_good:
  assumes aead: "aead_ok seal opn"
  shows "\<forall>ms. rx_good seal data ms rest r del \<longrightarrow> good_read seal data rest most del r (next_loop opn most r)"
proof (rule next_loop_rule [where P = "\<lambda>r y. \<forall>ms. rx_good seal data ms rest r del \<longrightarrow> good_read seal data rest most del r y"
      and opn = opn and most = most], goal_cases)
  case (1 r bs r')
  obtain t where r': "r' = r\<lparr>r_taken := t\<rparr>" using take_plain_Some(2) [OF 1] by blast
  have e: "bs @ drop t (r_plain r) = drop (r_taken r) (r_plain r)" using take_plain_Some(1) [OF 1] by (simp add: r')
  have "rx_good seal data ms rest r del \<Longrightarrow> rx_good seal data ms rest r' (del @ bs)" for ms
    using e [symmetric] by (simp add: rx_good_def r')
  then show ?case using take_plain_Some(3) [OF 1] unfolding good_read_def by auto
next
  case (2 r)
  show ?case
  proof (intro allI impI)
    fix ms assume g: "rx_good seal data ms rest r del"
    have "rest = [] \<longrightarrow> del = data"
    proof
      assume rest: "rest = []"
      show "del = data"
      using aead g 2(1)
      proof (cases rule: rx_good_cases)
        case (frame m ms' s others)
        then have "length s + 2 \<le> length (r_ciphertext r)"
          using rest by (simp add: frame_def u16_be_def)
        then show ?thesis using whole_message_frame [OF frame(5,6)] 2(2) by simp
      qed
    qed
    then show "good_read seal data rest most del r (Inr None, r)" using g 2(3) by (auto simp: good_read_def)
  qed
next
  case (3 r)
  show ?case
  proof (intro allI impI)
    fix ms assume g: "rx_good seal data ms rest r del"
    then have "rest = []" using 3(3) by (simp add: rx_good_def)
    then have "del = data" using rx_good_cases [OF aead g 3(1)] 3(4) by cases (auto simp: frame_def u16_be_def)
    then show "good_read seal data rest most del r (Inr (Some []), r)" using g 3(3) by (auto simp: good_read_def)
  qed
next
  case (4 r)
  show ?case
  proof (intro allI impI)
    fix ms assume g: "rx_good seal data ms rest r del"
    then have rest: "rest = []" using 4(3) by (simp add: rx_good_def)
    show "good_read seal data rest most del r (Inl cut_short, r)"
    using aead g 4(1)
    proof (cases rule: rx_good_cases)
      case (frame m ms' s others)
      then have "length s + 2 \<le> length (r_ciphertext r)" using rest by (simp add: frame_def u16_be_def)
      then show ?thesis using whole_message_frame [OF frame(5,6)] 4(2) by simp
    qed (use 4(4) in simp)
  qed
next
  case (5 r len r1)
  show ?case
  proof (intro allI impI)
    fix ms assume g: "rx_good seal data ms rest r del"
    show "good_read seal data rest most del r (Inl nonces_used_up, r1)"
      using rx_good_cases [OF aead g 5(1)] 5(2,4) by cases (simp_all add: whole_message_none)
  qed
next
  case (6 r len cs r1)
  show ?case
  proof (intro allI impI)
    fix ms assume g: "rx_good seal data ms rest r del"
    show "good_read seal data rest most del r (Inl not_authentic, r1)"
    using aead g 6(1)
    proof (cases rule: rx_good_cases)
      case (frame m ms' s others)
      have wm: "len = length s" "length s + 2 \<le> length (r_ciphertext r)"
        using whole_message_frame [OF frame(5,6)] 6(2) by (auto split: if_splits)
      have "take (length s) (drop 2 (r_ciphertext r @ rest)) = s" unfolding frame(5) by (simp add: frame_def u16_be_def)
      then have "take len (drop 2 (r_ciphertext r)) = s" using wm by simp
      then show ?thesis using 6(4,5) aead_okD [OF aead frame(3)] by simp
    qed (use 6(2) in \<open>simp add: whole_message_none\<close>)
  qed
next
  case (7 r len cs r1 plain)
  show ?case
  proof (intro allI impI)
    fix ms assume g: "rx_good seal data ms rest r del"
    show "good_read seal data rest most del r (next_loop opn most r1)"
    using aead g 7(1)
    proof (cases rule: rx_good_cases)
      case (frame m ms' s others)
      have wm: "len = length s" "length s + 2 \<le> length (r_ciphertext r)"
        using whole_message_frame [OF frame(5,6)] 7(2) by (auto split: if_splits)
      have fs: "take (length s) (drop 2 (r_ciphertext r @ rest)) = s" "drop (2 + length s) (r_ciphertext r @ rest) = others"
        unfolding frame(5) by (simp_all add: frame_def u16_be_def)
      then have "take len (drop 2 (r_ciphertext r)) = s" using wm by simp
      then have plain: "plain = m" using 7(4,5) aead_okD [OF aead frame(3)] by simp
      have "drop (2 + len) (r_ciphertext r) @ rest = others" using fs(2) wm by simp
      then have "rx_good seal data ms' rest r1 del"
        using g frame(1,4) plain 7(1) unfolding 7(4,6) rx_good_def by auto
      then have "good_read seal data rest most del r1 (next_loop opn most r1)" using 7(7) by blast
      moreover have "r_ended r1 = r_ended r" unfolding 7(6) by simp
      ultimately show ?thesis by (simp add: good_read_def)
    qed (use 7(2) in \<open>simp add: whole_message_none\<close>)
  qed
qed

lemma noise_next_good:
  "aead_ok seal opn \<Longrightarrow> rx_good seal data ms rest r del \<Longrightarrow> good_read seal data rest most del r (noise_next opn most r)"
  using next_loop_good [of seal opn data rest r del most] by (auto simp: noise_next_def rx_good_def)

lemma noise_run_good:
  assumes "noise_run opn cs wire r got del" "aead_ok seal opn" "frames seal cs ms = Some wire"
    and "\<forall>m \<in> set ms. length m \<le> MAX_PLAINTEXT"
  shows "\<exists>ms' rest. wire = got @ rest \<and> rx_good seal (concat ms) ms' rest r del"
  using assms(1)
proof induction
  case start
  then show ?case using assms(3,4) by (auto simp: rx_good_def received_new_def intro!: exI [of _ ms])
next
  case (piece r got del piece)
  then obtain ms' rest where r: "wire = got @ rest" "rx_good seal (concat ms) ms' rest r del" by blast
  then obtain rest' where "rest = piece @ rest'" using piece.hyps(3) by (auto simp: prefix_def)
  then show ?case using r piece.hyps(2) by (auto simp: rx_good_def arrived_def intro!: exI [of _ ms'])
next
  case (ends r del)
  then show ?case by (auto simp: rx_good_def arrived_def)
next
  case (reads r got del n res r')
  then obtain ms' rest where r: "wire = got @ rest" "rx_good seal (concat ms) ms' rest r del" by blast
  have "good_read seal (concat ms) rest n del r (noise_next opn n r)" using noise_next_good [OF assms(2) r(2)] .
  then show ?case using reads.hyps(2) r(1) by (auto simp: good_read_def)
qed

section \<open>Properties\<close>

text \<open>
  C30. Whatever an attacker does to the bytes, a Noise stream delivers only what the peer sent, in
  order: after any sequence of arriving bytes and reads, what the reads returned is a prefix of the
  messages the peer sealed; and once a message has failed to authenticate nothing more is delivered.
\<close>

theorem noise_only_what_was_sent:
  assumes "only_sent opn cs msgs" "fold (rx opn) es (received_new cs, []) = (r, del)"
  shows "prefix del (concat msgs) \<and> (r_failed r \<longrightarrow> snd (fold (rx opn) later (r, del)) = del)"
proof
  have "rx_inv cs msgs (received_new cs) []" by (auto simp: rx_inv_def received_new_def)
  then have "rx_inv cs msgs r del" using rx_fold_keeps [OF assms(1), of "(received_new cs, [])" es] assms(2) by simp
  then obtain i where "del @ drop (r_taken r) (r_plain r) = concat (take i msgs)" by (auto simp: rx_inv_def)
  then have "concat msgs = del @ drop (r_taken r) (r_plain r) @ concat (drop i msgs)"
    by (metis append_assoc append_take_drop_id concat_append)
  then show "prefix del (concat msgs)" by simp
  show "r_failed r \<longrightarrow> snd (fold (rx opn) later (r, del)) = del" using rx_failed_stays [of "(r, del)" opn later] by simp
qed

definition demo_cs :: "unit cipher_state" where
  "demo_cs = \<lparr>cs_key = (), cs_cipher = 0, cs_nonce = 0\<rparr>"

definition demo_opn :: "unit \<Rightarrow> bytes \<Rightarrow> bytes \<Rightarrow> bytes option" where
  "demo_opn k n m =
     (if n = nonce_bytes 0 0 \<and> m = [7] then Some [1] else if n = nonce_bytes 0 1 \<and> m = [8] then Some [2, 3] else None)"

theorem noise_only_what_was_sent_witness:
  "\<exists>r. fold (rx demo_opn) [Arrive [0, 1, 7, 0, 1, 9], ReadUpTo 5, ReadUpTo 5, Arrive [0, 1, 8], ReadUpTo 5] (received_new demo_cs, []) =
      (r, [1]) \<and> r_failed r \<and> prefix [1 :: u8] (concat [[1], [2, 3]]) \<and> snd (fold (rx demo_opn) [Arrive [0, 1, 8], ReadUpTo 5] (r, [1])) = [1]"
proof -
  have o: "only_sent demo_opn demo_cs [[1], [2, 3]]"
    unfolding only_sent_def by (auto simp: demo_opn_def demo_cs_def split: if_splits intro: exI [of _ 0] exI [of _ 1])
  let ?y = "fold (rx demo_opn) [Arrive [0, 1, 7, 0, 1, 9], ReadUpTo 5, ReadUpTo 5, Arrive [0, 1, 8], ReadUpTo 5] (received_new demo_cs, [])"
  have "?y = (fst ?y, [1]) \<and> r_failed (fst ?y)" by code_simp
  then show ?thesis using noise_only_what_was_sent [OF o, of _ "fst ?y" "[1]"] by blast
qed

text \<open>
  C31. A Noise stream delivers what was written: when the writer's \<^verbatim>\<open>write_all\<close> returned success, the
  bytes it put on the connection, arriving in pieces of any size with reads of any size in between,
  give back a prefix of the data; and once they have all arrived every read returns more of it until
  all of it has been read, and the end of the stream only then.
\<close>

theorem noise_delivers:
  assumes "aead_ok seal opn" "sink_write sent sys_write" "undisturbed out sent"
    and "noise_write_all seal out sys_write c data cs w = Some (Inr (), cs', w')" "sent w' = sent w @ wire"
    and "noise_run opn cs wire r got del"
  shows "prefix del data \<and> (got = wire \<and> 0 < n \<longrightarrow> (\<exists>res r'. noise_next opn n r = (Inr res, r') \<and>
    (case res of
       None \<Rightarrow> \<not> r_ended r \<and> del = data
     | Some bs \<Rightarrow> prefix (del @ bs) data \<and> (bs = [] \<longrightarrow> r_ended r \<and> del = data))))"
proof -
  let ?ms = "chunks MAX_PLAINTEXT data"
  have fs: "frames seal cs ?ms = Some wire"
    using write_chunks_sends [OF assms(2,3) assms(4) [unfolded noise_write_all_def]] assms(5) by auto
  have data: "concat ?ms = data" by (rule concat_chunks) simp
  have "\<forall>m \<in> set ?ms. length m \<le> MAX_PLAINTEXT" using chunks_bounds by blast
  then obtain ms rest where g: "wire = got @ rest" "rx_good seal data ms rest r del"
    using noise_run_good [OF assms(6,1) fs] data by auto
  have "prefix del data" using g(2) by (auto simp: rx_good_def)
  moreover have "\<exists>res r'. noise_next opn n r = (Inr res, r') \<and>
    (case res of None \<Rightarrow> \<not> r_ended r \<and> del = data
     | Some bs \<Rightarrow> prefix (del @ bs) data \<and> (bs = [] \<longrightarrow> r_ended r \<and> del = data))" if full: "got = wire" and pos: "0 < n"
  proof -
    have "rest = []" using g(1) full by simp
    then have "good_read seal data [] n del r (noise_next opn n r)" using noise_next_good [OF assms(1) g(2), of n] by simp
    then obtain opt ms' r' where "noise_next opn n r = (Inr opt, r')" "rx_good seal data ms' [] r' (del @ bytes_got (Inr opt))"
      "opt = None \<longrightarrow> \<not> r_ended r \<and> del = data" "opt = Some [] \<longrightarrow> r_ended r \<and> del = data"
      using pos by (auto simp: good_read_def)
    then show ?thesis by (cases opt) (auto simp: rx_good_def)
  qed
  ultimately show ?thesis by blast
qed

definition demo_seal :: "unit \<Rightarrow> bytes \<Rightarrow> bytes \<Rightarrow> bytes option" where
  "demo_seal k n p = Some (p @ replicate 16 (nth n 4))"

definition demo_unseal :: "unit \<Rightarrow> bytes \<Rightarrow> bytes \<Rightarrow> bytes option" where
  "demo_unseal k n c =
     (if 16 \<le> length c \<and> drop (length c - 16) c = replicate 16 (nth n 4) then Some (take (length c - 16) c) else None)"

lemma demo_aead: "aead_ok demo_seal demo_unseal"
  by (auto simp: aead_ok_def demo_seal_def demo_unseal_def)

definition demo_wire :: bytes where
  "demo_wire = [0, 19, 1, 2, 3, 0, 0, 0, 0, 0, 0, 0, 0, 0, 0, 0, 0, 0, 0, 0, 0]"

theorem noise_delivers_witness:
  "\<exists>cs' w'. noise_write_all demo_seal demo_out demo_write 0 [1, 2, 3] demo_cs (demo_world ([], [0, 2])) = Some (Inr (), cs', w') \<and>
    (\<exists>r. noise_run demo_unseal demo_cs demo_wire r demo_wire [1, 2] \<and> prefix [1, 2 :: u8] [1, 2, 3] \<and>
      (\<exists>res r'. noise_next demo_unseal 9 r = (Inr res, r')))"
proof -
  let ?y = "noise_write_all demo_seal demo_out demo_write 0 [1, 2, 3] demo_cs (demo_world ([], [0, 2]))"
  have "chunks MAX_PLAINTEXT [1, 2, 3 :: u8] = [[1, 2, 3]]" by (simp add: chunks.simps)
  then have "?y = write_chunks demo_seal demo_out demo_write 0 [[1, 2, 3]] demo_cs (demo_world ([], [0, 2]))"
    by (simp only: noise_write_all_def)
  moreover have "map_option (\<lambda>(r, _, w). (r, fst (w_kernel w)))
      (write_chunks demo_seal demo_out demo_write 0 [[1, 2, 3]] demo_cs (demo_world ([], [0, 2]))) = Some (Inr (), demo_wire)"
    by code_simp
  ultimately have "map_option (\<lambda>(r, _, w). (r, fst (w_kernel w))) ?y = Some (Inr (), demo_wire)" by simp
  then obtain cs' w' where y: "?y = Some (Inr (), cs', w')" and sent: "fst (w_kernel w') = demo_wire" by auto
  let ?r = "arrived demo_wire (received_new demo_cs)"
  let ?x = "noise_next demo_unseal 2 ?r"
  have x: "bytes_got (fst ?x) = [1, 2]" by code_simp
  have "noise_run demo_unseal demo_cs demo_wire ?r ([] @ demo_wire) []"
    by (rule noise_run.piece [OF noise_run.start]) (simp_all add: demo_wire_def)
  then have "noise_run demo_unseal demo_cs demo_wire (snd ?x) demo_wire ([] @ bytes_got (fst ?x))"
    by (intro noise_run.reads [where n = 2]) simp_all
  then have run: "noise_run demo_unseal demo_cs demo_wire (snd ?x) demo_wire [1, 2]" by (simp only: x append_Nil)
  have u: "undisturbed demo_out (\<lambda>w. fst (w_kernel w))" by (rule demo_undisturbed) simp
  have "prefix [1, 2] [1, 2, 3 :: u8] \<and> (demo_wire = demo_wire \<and> 0 < (9 :: nat) \<longrightarrow>
      (\<exists>res r'. noise_next demo_unseal 9 (snd ?x) = (Inr res, r') \<and> (case res of
       None \<Rightarrow> \<not> r_ended (snd ?x) \<and> [1, 2] = [1, 2, 3 :: u8]
     | Some bs \<Rightarrow> prefix ([1, 2] @ bs) [1, 2, 3] \<and> (bs = [] \<longrightarrow> r_ended (snd ?x) \<and> [1, 2] = [1, 2, 3 :: u8]))))"
    by (rule noise_delivers [OF demo_aead demo_sink u y _ run]) (simp add: demo_world_def sent)
  then have "prefix [1, 2 :: u8] [1, 2, 3] \<and> (\<exists>res r'. noise_next demo_unseal 9 (snd ?x) = (Inr res, r'))"
    using zero_less_numeral by blast
  then show ?thesis using y run by blast
qed

text \<open>
  C32. No two messages of a stream are sealed under the same nonce, and the reserved last value is
  never used: of the messages sent from a cipher state, those with different numbers get different
  nonces, and the counter stops instead of wrapping.
\<close>

theorem nonces_never_repeat:
  assumes "fst (next_nonce (after_messages i cs)) = Inr a" "fst (next_nonce (after_messages j cs)) = Inr b" "i \<noteq> j"
  shows "a \<noteq> b \<and> a \<noteq> nonce_bytes (cs_cipher cs) (- 1) \<and> unat (cs_nonce cs) + i < u64_max"
proof -
  have n: "x = nonce_bytes (cs_cipher cs) (cs_nonce (after_messages k cs)) \<and> cs_nonce (after_messages k cs) \<noteq> - 1 \<and>
      unat (cs_nonce (after_messages k cs)) = unat (cs_nonce cs) + k \<and> unat (cs_nonce cs) + k < u64_max"
    if "fst (next_nonce (after_messages k cs)) = Inr x" for k x
  proof -
    have m: "cs_nonce (after_messages k cs) \<noteq> - 1" using that by (auto simp: next_nonce_def)
    then have "unat (cs_nonce (after_messages k cs)) < u64_max" by (simp only: not_max_iff)
    then show ?thesis using that m after_messages_nonce [of k cs] by (auto simp: next_nonce_def)
  qed
  have "unat (cs_nonce (after_messages i cs)) \<noteq> unat (cs_nonce (after_messages j cs))"
    using n [OF assms(1)] n [OF assms(2)] assms(3) by simp
  then have "cs_nonce (after_messages i cs) \<noteq> cs_nonce (after_messages j cs)" by metis
  then show ?thesis using n [OF assms(1)] n [OF assms(2)] by simp
qed

theorem nonces_never_repeat_witness:
  "nonce_bytes 0 0 \<noteq> nonce_bytes 0 (1 :: u64) \<and> nonce_bytes 0 0 \<noteq> nonce_bytes (cs_cipher demo_cs) (- 1) \<and> unat (cs_nonce demo_cs) + 0 < u64_max"
  by (rule nonces_never_repeat [of 0 demo_cs _ "Suc 0"]) (simp_all add: demo_cs_def next_nonce_def)

end
