(* ===== verification/Stdin.thy ===== *)
theory Stdin
  imports Sched "HOL-Library.Sublist"
begin

text \<open>
  Standard input (\<^verbatim>\<open>src/stdin.rs\<close>): reading a line with a limit on its length, the queue of lines read
  and not yet taken, and the reader thread that fills it on demand.

  The standard library's buffered reader is a buffer and the results of the reads to come; no more
  results is the end of the input.  The mutex around the state makes each operation one step.
\<close>

section \<open>Reading a line\<close>

definition is_scalar :: "nat \<Rightarrow> bool" where
  "is_scalar c \<longleftrightarrow> c < 55296 \<or> 57344 \<le> c \<and> c < 1114112"

text \<open>
  \<^verbatim>\<open>String::from_utf8\<close>: the first byte says how many bytes a character takes; they must be exactly the
  encoding of the scalar value they spell.
\<close>

definition char_width :: "nat \<Rightarrow> nat" where
  "char_width b = (if b < 128 then 1 else if b < 224 then 2 else if b < 240 then 3 else 4)"

definition char_value :: "nat list \<Rightarrow> nat" where
  "char_value bs =
     (case bs of
        [a] \<Rightarrow> a
      | [a, b] \<Rightarrow> (a - 192) * 64 + (b - 128)
      | [a, b, c] \<Rightarrow> (a - 224) * 4096 + (b - 128) * 64 + (c - 128)
      | [a, b, c, d] \<Rightarrow> (a - 240) * 262144 + (b - 128) * 4096 + (c - 128) * 64 + (d - 128)
      | _ \<Rightarrow> 1114112)"

definition first_char :: "nat list \<Rightarrow> nat option" where
  "first_char bs =
     (let ch = take (char_width (hd bs)) bs
      in if is_scalar (char_value ch) \<and> utf8_char (char_value ch) = ch then Some (char_value ch) else None)"

function from_utf8 :: "nat list \<Rightarrow> str option" where
  "from_utf8 [] = Some []"
| "from_utf8 (b # bs) =
     (case first_char (b # bs) of
        None \<Rightarrow> None
      | Some c \<Rightarrow> map_option (Cons c) (from_utf8 (drop (char_width b) (b # bs))))"
  by pat_completeness auto
termination
  by (relation "measure length") (auto simp: char_width_def split: if_splits)

record buf_reader =
  br_buf :: bytes
  br_reads :: "(io_error + bytes) list"

fun fill_buf :: "buf_reader \<Rightarrow> (io_error + bytes) \<times> buf_reader" where
  "fill_buf br =
     (if br_buf br \<noteq> [] then (Inr (br_buf br), br)
      else case br_reads br of
             [] \<Rightarrow> (Inr [], br)
           | Inl err # rs \<Rightarrow> (Inl err, br\<lparr>br_reads := rs\<rparr>)
           | Inr got # rs \<Rightarrow> (Inr got, br\<lparr>br_buf := got, br_reads := rs\<rparr>))"

definition consume :: "nat \<Rightarrow> buf_reader \<Rightarrow> buf_reader" where
  "consume n br = br\<lparr>br_buf := drop n (br_buf br)\<rparr>"

abbreviation MAX_STDIN_LINE :: nat where "MAX_STDIN_LINE \<equiv> 1048576"

datatype stdin_line = Text str | TooLong | End | Failed io_error

definition bad_utf8 :: io_error where
  "bad_utf8 = CustomError InvalidData (lit ''stream did not contain valid UTF-8'')"

text \<open>\<^verbatim>\<open>read_line\<close> after the loop.\<close>

definition line_read :: "bytes \<Rightarrow> bool \<Rightarrow> stdin_line" where
  "line_read line too_long =
     (let line1 = (if line \<noteq> [] \<and> last line = 13 then butlast line else line)
      in if too_long \<or> MAX_STDIN_LINE < length line1 then TooLong
         else case from_utf8 (map unat line1) of Some text \<Rightarrow> Text text | None \<Rightarrow> Failed bad_utf8)"

text \<open>The loop of \<^verbatim>\<open>read_line\<close>: the line so far and whether it is past the limit.\<close>

function line_loop :: "bytes \<Rightarrow> bool \<Rightarrow> buf_reader \<Rightarrow> stdin_line \<times> buf_reader" where
  "line_loop line too_long br =
     (case fill_buf br of
        (Inl err, br1) \<Rightarrow> if err_kind err = Interrupted then line_loop line too_long br1 else (Failed err, br1)
      | (Inr buf, br1) \<Rightarrow>
          if buf = [] then
            (if line = [] \<and> \<not> too_long then (End, br1) else (line_read line too_long, br1))
          else
            (let (part, found_end) =
                   (case position (\<lambda>b. b = 10) buf of Some at \<Rightarrow> (take at buf, True) | None \<Rightarrow> (buf, False));
                 (line1, too_long1) =
                   (if too_long then (line, True)
                    else if MAX_STDIN_LINE + 1 < length line + length part then ([], True)
                    else (line @ part, False));
                 br2 = consume (length part + (if found_end then 1 else 0)) br1
             in if found_end then (line_read line1 too_long1, br2) else line_loop line1 too_long1 br2))"
  by pat_completeness auto
termination
  by (relation "measures [\<lambda>(_, _, br). length (br_reads br), \<lambda>(_, _, br). length (br_buf br)]")
    (auto simp: consume_def split: if_splits list.splits sum.splits option.splits)

declare line_loop.simps [simp del]

definition read_line :: "buf_reader \<Rightarrow> stdin_line \<times> buf_reader" where
  "read_line br = line_loop [] False br"

section \<open>The queue of lines\<close>

record stdin_state =
  si_queue :: "stdin_line list"
  si_wanted :: bool
  si_started :: bool
  si_ended :: bool
  si_watchers :: waiters

definition stdin_new :: stdin_state where
  "stdin_new = \<lparr>si_queue = [], si_wanted = False, si_started = False, si_ended = False, si_watchers = waiters_new\<rparr>"

text \<open>\<^verbatim>\<open>want\<close>: \<open>spawn\<close> is what starting the reader thread gives, an error or nothing.\<close>

definition want :: "io_error option \<Rightarrow> stdin_state \<Rightarrow> stdin_state" where
  "want spawned s =
     (if si_wanted s then s
      else let s1 = s\<lparr>si_wanted := True\<rparr>
           in if \<not> si_started s1 then
                (case spawned of
                   None \<Rightarrow> s1\<lparr>si_started := True\<rparr>
                 | Some err \<Rightarrow> s1\<lparr>si_wanted := False, si_started := False, si_queue := si_queue s1 @ [Failed err]\<rparr>)
              else s1)"

definition try_line :: "io_error option \<Rightarrow> stdin_state \<Rightarrow> stdin_line option \<times> stdin_state" where
  "try_line spawned s =
     (case pop_front (si_queue s) of
        Some (line, q) \<Rightarrow> (Some line, s\<lparr>si_queue := q\<rparr>)
      | None \<Rightarrow> if si_ended s then (Some End, s) else (None, want spawned s))"

datatype stdin_watch = StdinReady | StdinWaiting nat

definition watch_stdin :: "io_error option \<Rightarrow> task_waker \<Rightarrow> stdin_state \<Rightarrow> stdin_watch \<times> stdin_state" where
  "watch_stdin spawned waker s =
     (if si_queue s \<noteq> [] \<or> si_ended s then (StdinReady, s)
      else let s1 = want spawned s; (i, ws) = add_waker waker (si_watchers s1)
           in (StdinWaiting i, s1\<lparr>si_watchers := ws\<rparr>))"

definition unwatch_stdin :: "nat \<Rightarrow> stdin_state \<Rightarrow> stdin_state" where
  "unwatch_stdin i s = s\<lparr>si_watchers := remove_waiter i (si_watchers s)\<rparr>"

text \<open>The reader thread's critical section once it has read a line: the line is queued and everyone waiting woken.\<close>

definition line_queued :: "nat option \<Rightarrow> stdin_line \<Rightarrow> stdin_state \<Rightarrow> sched \<Rightarrow> stdin_state \<times> sched" where
  "line_queued me line s sc =
     (let (ws, sc1) = wake_all me (si_watchers s) sc
      in (s\<lparr>si_wanted := False, si_queue := si_queue s @ [line], si_ended := (si_ended s \<or> line = End), si_watchers := ws\<rparr>, sc1))"

section \<open>UTF-8\<close>

lemma char_width_pos: "0 < char_width b"
  by (simp add: char_width_def)

lemma first_char_Some:
  "first_char bs = Some c \<Longrightarrow> utf8_char c = take (char_width (hd bs)) bs \<and> is_scalar c"
  by (auto simp: first_char_def Let_def split: if_splits)

text \<open>A decoded string encodes to the bytes it was decoded from.\<close>

lemma from_utf8_sound: "from_utf8 bs = Some s \<Longrightarrow> concat (map utf8_char s) = bs \<and> (\<forall>c \<in> set s. is_scalar c)"
proof (induction bs arbitrary: s rule: from_utf8.induct)
  case (2 b bs)
  then obtain c t where c: "first_char (b # bs) = Some c" "from_utf8 (drop (char_width b) (b # bs)) = Some t" "s = c # t"
    by (auto split: option.splits)
  have "concat (map utf8_char t) = drop (char_width b) (b # bs) \<and> (\<forall>c \<in> set t. is_scalar c)" using 2 c by blast
  moreover have "utf8_char c = take (char_width b) (b # bs) \<and> is_scalar c" using first_char_Some [OF c(1)] by simp
  ultimately show ?case using c(3) by (simp del: take_Suc_Cons drop_Suc_Cons)
qed simp

section \<open>Lines do not depend on how the input arrives\<close>

text \<open>An input that only blocks and is interrupted, and the bytes it holds.\<close>

definition quiet :: "buf_reader \<Rightarrow> bool" where
  "quiet br \<longleftrightarrow> (\<forall>r \<in> set (br_reads br). case r of Inl err \<Rightarrow> err_kind err = Interrupted | Inr got \<Rightarrow> got \<noteq> [])"

fun read_bytes :: "(io_error + bytes) list \<Rightarrow> bytes" where
  "read_bytes [] = []"
| "read_bytes (Inl err # rs) = read_bytes rs"
| "read_bytes (Inr got # rs) = got @ read_bytes rs"

definition content :: "buf_reader \<Rightarrow> bytes" where
  "content br = br_buf br @ read_bytes (br_reads br)"

definition not_newline :: "u8 \<Rightarrow> bool" where
  "not_newline b \<longleftrightarrow> b \<noteq> 10"

text \<open>What the loop must return: the line so far and the rest of it up to the newline, judged together.\<close>

definition line_result :: "bytes \<Rightarrow> bool \<Rightarrow> bytes \<Rightarrow> stdin_line" where
  "line_result line too_long rest =
     (if rest = [] \<and> line = [] \<and> \<not> too_long then End
      else if too_long \<or> MAX_STDIN_LINE + 1 < length (line @ takeWhile not_newline rest) then TooLong
      else line_read (line @ takeWhile not_newline rest) False)"

lemma fill_buf_quiet:
  assumes "quiet br" "fill_buf br = (r, br1)"
  shows "case r of
      Inl err \<Rightarrow> err_kind err = Interrupted \<and> content br1 = content br \<and> quiet br1
    | Inr buf \<Rightarrow> br_buf br1 = buf \<and> content br1 = content br \<and> quiet br1 \<and> (buf = [] \<longrightarrow> content br = [])"
  using assms by (auto simp: quiet_def content_def split: if_splits list.splits sum.splits)

lemma position_newline_None: "position (\<lambda>b. b = 10) buf = None \<Longrightarrow> takeWhile not_newline (buf @ rest) = buf @ takeWhile not_newline rest"
  by (subst takeWhile_append2) (auto simp: position_None not_newline_def)

lemma position_newline_Some:
  assumes "position (\<lambda>b. b = 10) buf = Some k"
  shows "takeWhile not_newline (buf @ rest) = take k buf" "k < length buf"
proof -
  have k: "k < length buf" "buf ! k = 10" "\<forall>j < k. buf ! j \<noteq> 10" using position_Some [OF assms] by auto
  have tw: "takeWhile not_newline (take k buf @ buf ! k # drop (Suc k) buf @ rest) = take k buf"
    using k by (subst takeWhile_append2) (auto simp: not_newline_def in_set_conv_nth)
  have "buf @ rest = (take k buf @ buf ! k # drop (Suc k) buf) @ rest"
    by (rule arg_cong [OF id_take_nth_drop [OF k(1)]])
  then show "takeWhile not_newline (buf @ rest) = take k buf" using tw by (simp only: append_assoc append_Cons)
  show "k < length buf" by (rule k(1))
qed

lemma line_read_too_long: "line_read line True = TooLong"
  by (simp add: line_read_def Let_def)

lemma line_read_long: "MAX_STDIN_LINE + 1 < length line \<Longrightarrow> line_read line False = TooLong"
  by (auto simp: line_read_def Let_def)

lemma line_loop_result:
  "quiet br \<Longrightarrow> (too_long \<longrightarrow> line = []) \<Longrightarrow> length line \<le> MAX_STDIN_LINE + 1 \<Longrightarrow> line_loop line too_long br = (res, br') \<Longrightarrow>
    res = line_result line too_long (content br) \<and>
    content br' = drop (Suc (length (takeWhile not_newline (content br)))) (content br) \<and> quiet br'"
proof (induction line too_long br arbitrary: res br' rule: line_loop.induct)
  case (1 line too_long br)
  obtain r br1 where fb: "fill_buf br = (r, br1)" by (cases "fill_buf br")
  note q = fill_buf_quiet [OF 1(3) fb]
  show ?case
  proof (cases r)
    case (Inl err)
    then have "line_loop line too_long br1 = (res, br')" "err_kind err = Interrupted" "content br1 = content br" "quiet br1"
      using 1(6) q fb by (auto simp: line_loop.simps [of line too_long br])
    then show ?thesis using 1(1) [OF fb [symmetric] Inl, of res br'] 1(4,5) by simp
  next
    case (Inr buf)
    show ?thesis
    proof (cases "buf = []")
      case True
      then show ?thesis using 1(5,6) q fb Inr
        by (auto simp: line_loop.simps [of line too_long br] line_result_def line_read_too_long)
    next
      case nonempty: False
      define rest where "rest = read_bytes (br_reads br1)"
      have c1: "content br = buf @ rest" "br_buf br1 = buf" using q Inr by (auto simp: content_def rest_def)
      define line1 where "line1 part = (if too_long then line else if MAX_STDIN_LINE + 1 < length line + length part then [] else line @ part)" for part
      define long1 where "long1 part = (too_long \<or> MAX_STDIN_LINE + 1 < length line + length part)" for part :: bytes
      have two: "(if too_long then (line, True) else if MAX_STDIN_LINE + 1 < length line + length part then ([], True) else (line @ part, False))
          = (line1 part, long1 part)" for part by (simp add: line1_def long1_def)
      have ok1: "long1 part \<longrightarrow> line1 part = []" "length (line1 part) \<le> MAX_STDIN_LINE + 1" for part
        using 1(4,5) by (auto simp: line1_def long1_def)
      show ?thesis
      proof (cases "position (\<lambda>b. b = 10) buf")
        case (Some k)
        let ?br2 = "consume (k + 1) br1"
        have k: "takeWhile not_newline (content br) = take k buf" "k < length buf"
          using position_newline_Some [OF Some] c1(1) by auto
        have "res = line_read (line1 (take k buf)) (long1 (take k buf)) \<and> br' = ?br2"
          using 1(6) fb Inr nonempty Some k(2) two [of "take k buf"] by (simp add: line_loop.simps [of line too_long br])
        moreover have "content ?br2 = drop (Suc k) (content br)"
          using c1 k(2) by (simp add: consume_def content_def rest_def)
        moreover have "quiet ?br2" using q Inr by (simp add: quiet_def consume_def)
        ultimately show ?thesis using k nonempty c1(1) 1(4)
          by (auto simp: line_result_def line1_def long1_def line_read_too_long)
      next
        case None
        let ?br2 = "consume (length buf) br1"
        have tw: "takeWhile not_newline (content br) = buf @ takeWhile not_newline rest"
          using position_newline_None [OF None] c1(1) by simp
        have run: "line_loop (line1 buf) (long1 buf) ?br2 = (res, br')"
          using 1(6) fb Inr nonempty None two [of buf] by (simp add: line_loop.simps [of line too_long br])
        have c2: "content ?br2 = rest" using c1 by (simp add: consume_def content_def rest_def)
        have q2: "quiet ?br2" using q Inr by (simp add: quiet_def consume_def)
        have ih: "res = line_result (line1 buf) (long1 buf) rest" "quiet br'"
            "content br' = drop (Suc (length (takeWhile not_newline rest))) rest"
          using 1(2) [OF fb [symmetric] Inr nonempty, of "(buf, False)" buf False "(line1 buf, long1 buf)" "line1 buf" "long1 buf" ?br2]
            run None c2 q2 ok1 [of buf] two [of buf] by auto
        have "res = line_result line too_long (content br)"
          unfolding ih(1) using tw c1(1) nonempty 1(4)
          by (auto simp: line_result_def line1_def long1_def)
        then show ?thesis using ih(2,3) tw c1(1) by simp
      qed
    qed
  qed
qed

section \<open>The queue in use\<close>

text \<open>
  Tasks take, watch and unwatch, with any outcome of starting the reader thread; the reader thread,
  while a line is wanted, queues the next one.  \<open>sy_read\<close> is every line ever queued and \<open>sy_taken\<close> every line
  taken from the queue.
\<close>

record stdin_sys =
  sy_state :: stdin_state
  sy_sched :: sched
  sy_read :: "stdin_line list"
  sy_taken :: "stdin_line list"

definition failed_start :: "stdin_state \<Rightarrow> stdin_state \<Rightarrow> stdin_line list" where
  "failed_start s s' = drop (length (si_queue s)) (si_queue s')"

inductive stdin_step :: "stdin_sys \<Rightarrow> stdin_sys \<Rightarrow> bool" where
  takes: "si_queue (sy_state y) \<noteq> [] \<Longrightarrow> try_line sp (sy_state y) = (Some l, s') \<Longrightarrow>
    stdin_step y (y\<lparr>sy_state := s', sy_taken := sy_taken y @ [l]\<rparr>)"
| asks: "si_queue (sy_state y) = [] \<Longrightarrow> try_line sp (sy_state y) = (opt, s') \<Longrightarrow>
    stdin_step y (y\<lparr>sy_state := s', sy_read := sy_read y @ failed_start (sy_state y) s'\<rparr>)"
| watches: "watch_stdin sp wk (sy_state y) = (res, s') \<Longrightarrow>
    stdin_step y (y\<lparr>sy_state := s', sy_read := sy_read y @ failed_start (sy_state y) s'\<rparr>)"
| unwatches: "stdin_step y (y\<lparr>sy_state := unwatch_stdin i (sy_state y)\<rparr>)"
| queues: "si_wanted (sy_state y) \<Longrightarrow> si_started (sy_state y) \<Longrightarrow> \<not> si_ended (sy_state y) \<Longrightarrow>
    line_queued me l (sy_state y) (sy_sched y) = (s', sc') \<Longrightarrow>
    stdin_step y (y\<lparr>sy_state := s', sy_sched := sc', sy_read := sy_read y @ [l]\<rparr>)"
| others: "stdin_step y (y\<lparr>sy_sched := sc'\<rparr>)"

definition stdin_start :: "sched \<Rightarrow> stdin_sys" where
  "stdin_start sc = \<lparr>sy_state = stdin_new, sy_sched = sc, sy_read = [], sy_taken = []\<rparr>"

text \<open>
  A task on the list of watchers has the reader thread at work for it and nothing queued; or the thread
  is not running, because it could not be started, and only that failure can be queued.
\<close>

definition watched_served :: "stdin_state \<Rightarrow> bool" where
  "watched_served s \<longleftrightarrow> (wl_list (si_watchers s) \<noteq> [] \<longrightarrow> \<not> si_ended s \<and>
     (if si_started s then si_queue s = [] \<and> si_wanted s else \<forall>l \<in> set (si_queue s). \<exists>err. l = Failed err))"

definition stdin_inv :: "stdin_sys \<Rightarrow> bool" where
  "stdin_inv y \<longleftrightarrow> sy_read y = sy_taken y @ si_queue (sy_state y) \<and> watched_served (sy_state y) \<and>
     (si_wanted (sy_state y) \<longrightarrow> si_started (sy_state y))"

lemma want_queue: "si_queue (want sp s) = si_queue s @ failed_start s (want sp s)"
  by (auto simp: want_def failed_start_def Let_def split: option.splits)

lemma want_served:
  "watched_served s \<Longrightarrow> si_wanted s \<longrightarrow> si_started s \<Longrightarrow> si_queue s = [] \<Longrightarrow> \<not> si_ended s \<Longrightarrow>
    watched_served ((want sp s)\<lparr>si_watchers := ws\<rparr>) \<and> (si_wanted (want sp s) \<longrightarrow> si_started (want sp s))"
  by (auto simp: want_def watched_served_def Let_def split: option.splits)

lemma want_watchers [simp]: "si_watchers (want sp s) = si_watchers s"
  by (simp add: want_def Let_def split: option.splits)

lemma stdin_step_inv:
  assumes "stdin_step y y'" "stdin_inv y"
  shows "stdin_inv y'"
  using assms
proof cases
  case (takes sp l s')
  obtain q where q: "si_queue (sy_state y) = l # q" "s' = (sy_state y)\<lparr>si_queue := q\<rparr>"
    using takes by (cases "si_queue (sy_state y)") (auto simp: try_line_def)
  have "watched_served s'" using assms(2) unfolding stdin_inv_def watched_served_def q by (simp split: if_splits)
  then show ?thesis using takes(1) assms(2) q by (simp add: stdin_inv_def)
next
  case (asks sp opt s')
  show ?thesis
  proof (cases "si_ended (sy_state y)")
    case True
    then show ?thesis using asks assms(2) by (auto simp: stdin_inv_def failed_start_def try_line_def)
  next
    case False
    then have w: "s' = want sp (sy_state y)" using asks by (simp add: try_line_def)
    have e: "(want sp (sy_state y))\<lparr>si_watchers := si_watchers (sy_state y)\<rparr> = want sp (sy_state y)"
      using want_watchers [of sp "sy_state y"] by (metis stdin_state.surjective stdin_state.update_convs(5))
    have i: "watched_served (sy_state y)" "si_wanted (sy_state y) \<longrightarrow> si_started (sy_state y)" "sy_read y = sy_taken y @ si_queue (sy_state y)"
      using assms(2) by (simp_all add: stdin_inv_def)
    note want_served [OF i(1,2) asks(2) False, where sp = sp and ws = "si_watchers (sy_state y)", unfolded e]
    then show ?thesis using want_queue [of sp "sy_state y"] i(3) unfolding asks(1) w stdin_inv_def by simp
  qed
next
  case (watches sp wk res s')
  show ?thesis
  proof (cases "si_queue (sy_state y) \<noteq> [] \<or> si_ended (sy_state y)")
    case True
    then show ?thesis using watches assms(2) by (simp add: watch_stdin_def stdin_inv_def failed_start_def)
  next
    case False
    obtain i ws where add: "add_waker wk (si_watchers (want sp (sy_state y))) = (i, ws)" by (cases "add_waker wk (si_watchers (want sp (sy_state y)))")
    have s': "s' = (want sp (sy_state y))\<lparr>si_watchers := ws\<rparr>" using watches False add by (simp add: watch_stdin_def Let_def)
    have fs: "failed_start (sy_state y) s' = failed_start (sy_state y) (want sp (sy_state y))" by (simp add: failed_start_def s')
    show ?thesis
      using watches(1) assms(2) False want_served [of "sy_state y" ws sp] want_queue [of sp "sy_state y"] fs by (simp add: stdin_inv_def s')
  qed
next
  case (unwatches i)
  then show ?thesis using assms(2) by (auto simp: stdin_inv_def watched_served_def unwatch_stdin_def remove_waiter_def split: if_splits)
next
  case (queues me l s' sc')
  then show ?thesis using assms(2)
    by (auto simp: stdin_inv_def watched_served_def line_queued_def wake_all_def Let_def)
next
  case (others sc')
  then show ?thesis using assms(2) by (simp add: stdin_inv_def)
qed

lemma stdin_reachable: "stdin_step\<^sup>*\<^sup>* (stdin_start sc) y \<Longrightarrow> stdin_inv y"
proof (induction rule: rtranclp_induct)
  case base
  show ?case by (simp add: stdin_inv_def stdin_start_def stdin_new_def watched_served_def waiters_new_def)
qed (rule stdin_step_inv)

text \<open>
  When the reader thread cannot be started, the failure is queued and the watcher registered in the
  same call, which reports that it must wait: nothing is left that would wake it.
\<close>

lemma watch_misses_failed_start:
  "watch_stdin (Some err) wk stdin_new = (StdinWaiting 1, s) \<longleftrightarrow>
    s = stdin_new\<lparr>si_queue := [Failed err], si_watchers := \<lparr>wl_list = [(1, wk)], wl_next = 1\<rparr>\<rparr>"
  by (auto simp: watch_stdin_def stdin_new_def want_def add_waker_def waiters_new_def Let_def)

section \<open>Properties\<close>

text \<open>
  C33. A line read from standard input depends only on the bytes typed, not on how they arrive: for
  every splitting of the input into reads, with interruptions anywhere, \<^verbatim>\<open>read_line\<close> returns the end
  when there is nothing left and otherwise the verdict on the bytes up to the first newline (its
  text without a trailing carriage return, too long, or not UTF-8), leaves exactly the bytes after
  that newline, and the text it returns encodes to the bytes of the line.
\<close>

theorem read_line_exact:
  assumes "quiet br" "read_line br = (res, br')"
  defines "line \<equiv> takeWhile (\<lambda>b. b \<noteq> 10) (content br)"
  shows "res = (if content br = [] then End else line_read line False) \<and>
    content br' = drop (Suc (length line)) (content br) \<and>
    (\<forall>t. res = Text t \<longrightarrow> length (concat (map utf8_char t)) \<le> MAX_STDIN_LINE \<and>
       concat (map utf8_char t) = map unat (if line \<noteq> [] \<and> last line = 13 then butlast line else line))"
proof -
  have l: "line = takeWhile not_newline (content br)" unfolding line_def by (rule arg_cong [of _ _ "\<lambda>p. takeWhile p _"]) (simp add: not_newline_def fun_eq_iff)
  have r: "res = line_result [] False (content br)" "content br' = drop (Suc (length line)) (content br)"
    using line_loop_result [OF assms(1) _ _ assms(2) [unfolded read_line_def]] by (auto simp: l)
  have res: "res = (if content br = [] then End else line_read line False)"
    using line_read_long by (simp add: r(1) line_result_def l)
  moreover have "length (concat (map utf8_char t)) \<le> MAX_STDIN_LINE \<and>
      concat (map utf8_char t) = map unat (if line \<noteq> [] \<and> last line = 13 then butlast line else line)"
    if "res = Text t" for t
    using that from_utf8_sound res by (fastforce simp: line_read_def Let_def split: if_splits option.splits)
  ultimately show ?thesis using r(2) by blast
qed

definition demo_input :: buf_reader where
  "demo_input = \<lparr>br_buf = [104], br_reads = [Inl (SimpleError Interrupted), Inr [105, 13], Inr [10, 33]]\<rparr>"

theorem read_line_exact_witness:
  "fst (read_line demo_input) = Text [104, 105] \<and> content (snd (read_line demo_input)) = [33]"
proof -
  have q: "quiet demo_input" by (simp add: quiet_def demo_input_def)
  have c: "content demo_input = [104, 105, 13, 10, 33]" by (simp add: content_def demo_input_def)
  have "line_read [104, 105, 13] False = Text [104, 105]"
    by (simp add: line_read_def Let_def first_char_def char_width_def char_value_def is_scalar_def)
  then show ?thesis using read_line_exact [OF q, of "fst (read_line demo_input)" "snd (read_line demo_input)"]
    by (simp add: c)
qed

text \<open>
  C34. No line of standard input is lost, repeated or reordered: the lines taken and the lines queued
  are together exactly the lines read, in order.  While the reader thread runs, a task registered to
  wait for a line has the thread at work for it and nothing queued that it could have taken.  When the thread
  could not be started, such a task can be asleep with no thread at work, but the only thing then queued
  beside it is that failure.
\<close>

theorem stdin_lines_exact:
  assumes "stdin_step\<^sup>*\<^sup>* (stdin_start sc) y"
  shows "sy_read y = sy_taken y @ si_queue (sy_state y) \<and>
    (wl_list (si_watchers (sy_state y)) \<noteq> [] \<longrightarrow> \<not> si_ended (sy_state y) \<and>
      (if si_started (sy_state y) then si_queue (sy_state y) = [] \<and> si_wanted (sy_state y)
       else \<forall>l \<in> set (si_queue (sy_state y)). \<exists>err. l = Failed err))"
  using stdin_reachable [OF assms] by (simp add: stdin_inv_def watched_served_def)

theorem stdin_lines_exact_witness:
  "\<exists>y. stdin_step\<^sup>*\<^sup>* (stdin_start (run_main_start 1 0 (\<lambda>_. Started) 0)) y \<and> wl_list (si_watchers (sy_state y)) \<noteq> [] \<and>
    si_started (sy_state y) \<and> si_queue (sy_state y) = [] \<and> si_wanted (sy_state y)"
proof -
  let ?sc = "run_main_start 1 0 (\<lambda>_. Started) 0"
  let ?w = "watch_stdin None (ThreadWaker 3) stdin_new"
  let ?y = "(stdin_start ?sc)\<lparr>sy_state := snd ?w, sy_read := sy_read (stdin_start ?sc) @ failed_start (sy_state (stdin_start ?sc)) (snd ?w)\<rparr>"
  have "stdin_step (stdin_start ?sc) ?y"
    by (rule stdin_step.watches [where res = "fst ?w" and wk = "ThreadWaker 3" and sp = None]) (simp_all add: stdin_start_def)
  then have r: "stdin_step\<^sup>*\<^sup>* (stdin_start ?sc) ?y" by (rule r_into_rtranclp)
  have "wl_list (si_watchers (sy_state ?y)) \<noteq> []" "si_started (sy_state ?y)"
    by (simp_all add: watch_stdin_def stdin_new_def want_def add_waker_def Let_def stdin_start_def)
  then show ?thesis using r stdin_lines_exact [OF r] by auto
qed

end
