(* ===== verification/Signals.thy ===== *)
theory Signals
  imports Sched
begin

text \<open>
  Caught signals (\<^verbatim>\<open>src/signals.rs\<close>): the handler that marks a signal as pending and writes to a pipe, the
  helper thread that moves pending signals to a queue, and the tasks that take them.

  A handler runs on any thread at any time, so its two effects are two steps.  The helper thread's
  turn is three: the read, the swap of the pending bits, and the critical section.  Signal numbers
  are Linux's.
\<close>

section \<open>Operations\<close>

definition SIGNALS :: "nat list" where
  "SIGNALS = [2, 15, 1, 10, 12]"

record sig_state =
  sg_queue :: "nat list"
  sg_caught :: u32
  sg_started :: bool
  sg_watchers :: waiters
  sg_pending :: u32
  sg_pipe_write :: "nat option"
  sg_pipe :: nat

definition signals_new :: sig_state where
  "signals_new = \<lparr>sg_queue = [], sg_caught = 0, sg_started = False, sg_watchers = waiters_new,
     sg_pending = 0, sg_pipe_write = None, sg_pipe = 0\<rparr>"

text \<open>\<^verbatim>\<open>handler\<close>: the bit, then the byte.  The pipe holds at most \<open>cap\<close> bytes; a full one takes no more.\<close>

definition handler_mark :: "nat \<Rightarrow> sig_state \<Rightarrow> sig_state" where
  "handler_mark signal s =
     (case position (\<lambda>g. g = signal) SIGNALS of
        None \<Rightarrow> s
      | Some code \<Rightarrow> s\<lparr>sg_pending := sg_pending s OR push_bit code 1\<rparr>)"

definition handler_write :: "nat \<Rightarrow> nat \<Rightarrow> sig_state \<Rightarrow> sig_state" where
  "handler_write cap signal s =
     (case position (\<lambda>g. g = signal) SIGNALS of
        None \<Rightarrow> s
      | Some code \<Rightarrow> (case sg_pipe_write s of None \<Rightarrow> s | Some fd \<Rightarrow> s\<lparr>sg_pipe := min cap (sg_pipe s + 1)\<rparr>))"

text \<open>
  \<^verbatim>\<open>catch\<close>.  \<open>mk_pipe\<close> is what \<^verbatim>\<open>pipe\<close> gives (the write end), \<open>spawned\<close> what starting the thread gives and
  \<open>sigaction\<close> what installing a handler gives.
\<close>

fun install :: "(nat \<Rightarrow> io_error option) \<Rightarrow> nat list \<Rightarrow> sig_state \<Rightarrow> (io_error + unit) \<times> sig_state" where
  "install sigaction [] s = (Inr (), s)"
| "install sigaction (code # codes) s =
     (if length SIGNALS \<le> code then install sigaction codes s
      else if sg_caught s AND push_bit code 1 \<noteq> 0 then install sigaction codes s
      else case sigaction (SIGNALS ! code) of
             Some err \<Rightarrow> (Inl err, s)
           | None \<Rightarrow> install sigaction codes (s\<lparr>sg_caught := sg_caught s OR push_bit code 1\<rparr>))"

definition catch ::
  "io_error + nat \<Rightarrow> io_error option \<Rightarrow> (nat \<Rightarrow> io_error option) \<Rightarrow> nat list \<Rightarrow> sig_state \<Rightarrow> (io_error + unit) \<times> sig_state" where
  "catch mk_pipe spawned sigaction codes s =
     (if sg_started s then install sigaction codes s
      else case mk_pipe of
             Inl err \<Rightarrow> (Inl err, s)
           | Inr fd \<Rightarrow>
               (case spawned of
                  Some err \<Rightarrow> (Inl err, s)
                | None \<Rightarrow> install sigaction codes (s\<lparr>sg_pipe_write := Some fd, sg_started := True\<rparr>)))"

text \<open>\<^verbatim>\<open>read_signals\<close>: the read of up to 64 bytes, the swap, and the critical section.\<close>

definition pipe_read :: "sig_state \<Rightarrow> sig_state" where
  "pipe_read s = s\<lparr>sg_pipe := sg_pipe s - 64\<rparr>"

definition take_pending :: "sig_state \<Rightarrow> u32 \<times> sig_state" where
  "take_pending s = (sg_pending s, s\<lparr>sg_pending := 0\<rparr>)"

fun queue_codes :: "u32 \<Rightarrow> nat list \<Rightarrow> nat list \<Rightarrow> nat list" where
  "queue_codes pending [] q = q"
| "queue_codes pending (code # codes) q =
     queue_codes pending codes (if pending AND push_bit code 1 \<noteq> 0 \<and> code \<notin> set q then q @ [code] else q)"

definition queue_signals :: "nat option \<Rightarrow> u32 \<Rightarrow> sig_state \<Rightarrow> sched \<Rightarrow> sig_state \<times> sched" where
  "queue_signals me pending s sc =
     (let (ws, sc1) = wake_all me (sg_watchers s) sc
      in (s\<lparr>sg_queue := queue_codes pending [0..<length SIGNALS] (sg_queue s), sg_watchers := ws\<rparr>, sc1))"

definition try_next :: "sig_state \<Rightarrow> nat option \<times> sig_state" where
  "try_next s = (case pop_front (sg_queue s) of None \<Rightarrow> (None, s) | Some (code, q) \<Rightarrow> (Some code, s\<lparr>sg_queue := q\<rparr>))"

datatype sig_watch = SigReady | SigWaiting nat

definition watch_signals :: "task_waker \<Rightarrow> sig_state \<Rightarrow> sig_watch \<times> sig_state" where
  "watch_signals waker s =
     (if sg_queue s \<noteq> [] then (SigReady, s)
      else let (i, ws) = add_waker waker (sg_watchers s) in (SigWaiting i, s\<lparr>sg_watchers := ws\<rparr>))"

definition unwatch_signals :: "nat \<Rightarrow> sig_state \<Rightarrow> sig_state" where
  "unwatch_signals i s = s\<lparr>sg_watchers := remove_waiter i (sg_watchers s)\<rparr>"

section \<open>The signals in use\<close>

text \<open>
  Where the helper thread is: about to read, back from the read, holding the bits it swapped out, or gone,
  after a read that failed.
\<close>

datatype sig_phase = AboutToRead | HasRead | Holds u32 | Gone

record sig_sys =
  ss_state :: sig_state
  ss_sched :: sched
  ss_phase :: sig_phase
  ss_writing :: "nat list"

text \<open>The helper thread's own steps: it gets on from a read only with a byte.\<close>

inductive reader_step :: "sig_sys \<Rightarrow> sig_sys \<Rightarrow> bool" where
  reads: "ss_phase y = AboutToRead \<Longrightarrow> sg_started (ss_state y) \<Longrightarrow> 0 < sg_pipe (ss_state y) \<Longrightarrow>
    reader_step y (y\<lparr>ss_state := pipe_read (ss_state y), ss_phase := HasRead\<rparr>)"
| swaps: "ss_phase y = HasRead \<Longrightarrow> take_pending (ss_state y) = (p, s') \<Longrightarrow>
    reader_step y (y\<lparr>ss_state := s', ss_phase := (if p = 0 then AboutToRead else Holds p)\<rparr>)"
| queues: "ss_phase y = Holds p \<Longrightarrow> queue_signals me p (ss_state y) (ss_sched y) = (s', sc') \<Longrightarrow>
    reader_step y (y\<lparr>ss_state := s', ss_sched := sc', ss_phase := AboutToRead\<rparr>)"

text \<open>A read may also be interrupted, or fail.\<close>

inductive sig_step :: "nat \<Rightarrow> sig_sys \<Rightarrow> sig_sys \<Rightarrow> bool" for cap where
  reader: "reader_step y y' \<Longrightarrow> sig_step cap y y'"
| interrupted: "ss_phase y = AboutToRead \<Longrightarrow> sg_started (ss_state y) \<Longrightarrow> sig_step cap y (y\<lparr>ss_phase := HasRead\<rparr>)"
| fails: "ss_phase y = AboutToRead \<Longrightarrow> sg_started (ss_state y) \<Longrightarrow> sig_step cap y (y\<lparr>ss_phase := Gone\<rparr>)"
| marks: "code < length SIGNALS \<Longrightarrow> bit (sg_caught (ss_state y)) code \<Longrightarrow>
    sig_step cap y (y\<lparr>ss_state := handler_mark (SIGNALS ! code) (ss_state y), ss_writing := SIGNALS ! code # ss_writing y\<rparr>)"
| writes: "g \<in> set (ss_writing y) \<Longrightarrow>
    sig_step cap y (y\<lparr>ss_state := handler_write cap g (ss_state y), ss_writing := remove1 g (ss_writing y)\<rparr>)"
| catches: "catch mk sp sa codes (ss_state y) = (r, s') \<Longrightarrow> sig_step cap y (y\<lparr>ss_state := s'\<rparr>)"
| takes: "try_next (ss_state y) = (opt, s') \<Longrightarrow> sig_step cap y (y\<lparr>ss_state := s'\<rparr>)"
| watches: "watch_signals wk (ss_state y) = (res, s') \<Longrightarrow> sig_step cap y (y\<lparr>ss_state := s'\<rparr>)"
| unwatches: "sig_step cap y (y\<lparr>ss_state := unwatch_signals i (ss_state y)\<rparr>)"
| others: "sig_step cap y (y\<lparr>ss_sched := sc'\<rparr>)"

definition sig_start :: "sched \<Rightarrow> sig_sys" where
  "sig_start sc = \<lparr>ss_state = signals_new, ss_sched = sc, ss_phase = AboutToRead, ss_writing = []\<rparr>"

text \<open>
  A pending signal has a wake-up on its way: a byte in the pipe, a helper thread that has read and
  not swapped yet, or a handler that has not written yet.
\<close>

definition sig_inv :: "sig_sys \<Rightarrow> bool" where
  "sig_inv y \<longleftrightarrow>
     (sg_pending (ss_state y) \<noteq> 0 \<longrightarrow> 0 < sg_pipe (ss_state y) \<or> ss_phase y = HasRead \<or> ss_writing y \<noteq> []) \<and>
     (wl_list (sg_watchers (ss_state y)) \<noteq> [] \<longrightarrow> sg_queue (ss_state y) = []) \<and>
     distinct (sg_queue (ss_state y)) \<and> set (sg_queue (ss_state y)) \<subseteq> {..<length SIGNALS} \<and>
     (sg_caught (ss_state y) \<noteq> 0 \<longrightarrow> sg_started (ss_state y)) \<and>
     (sg_started (ss_state y) \<longrightarrow> sg_pipe_write (ss_state y) \<noteq> None) \<and>
     (sg_pending (ss_state y) \<noteq> 0 \<or> ss_writing y \<noteq> [] \<or> ss_phase y \<noteq> AboutToRead \<longrightarrow> sg_started (ss_state y)) \<and>
     set (ss_writing y) \<subseteq> set SIGNALS"

lemma signals_length [simp]: "length SIGNALS = 5"
  by (simp add: SIGNALS_def)

lemma position_signal: "code < 5 \<Longrightarrow> position (\<lambda>g. g = SIGNALS ! code) SIGNALS = Some code"
  by (auto simp: SIGNALS_def less_Suc_eq numeral_eq_Suc)

lemma position_signal_in: "g \<in> set SIGNALS \<Longrightarrow> \<exists>code. position (\<lambda>h. h = g) SIGNALS = Some code"
  by (auto simp: SIGNALS_def)

lemma bit_mask_iff: "(w :: u32) AND 2 ^ code \<noteq> 0 \<longleftrightarrow> bit w code"
  by (simp add: and_exp_eq_0_iff_not_bit)

lemma queue_codes_set: "set codes \<subseteq> {..<5} \<Longrightarrow> set (queue_codes p codes q) = set q \<union> {c \<in> set codes. bit p c}"
proof (induction codes arbitrary: q)
  case (Cons c codes)
  then have "c < 5" by auto
  then show ?case using Cons by (auto simp: bit_mask_iff)
qed simp

lemma queue_codes_all: "set (queue_codes p [0..<5] q) = set q \<union> {c. c < 5 \<and> bit p c}"
  by (subst queue_codes_set) auto

lemma queue_codes_distinct: "distinct q \<Longrightarrow> distinct (queue_codes p codes q)"
  by (induction codes arbitrary: q) auto

lemma install_frame:
  "install sa codes s = (r, s') \<Longrightarrow> s' = s\<lparr>sg_caught := sg_caught s'\<rparr> \<and> (sg_caught s' \<noteq> 0 \<longrightarrow> sg_caught s \<noteq> 0 \<or> codes \<noteq> [])"
proof (induction codes arbitrary: s)
  case (Cons c codes)
  then show ?case by (fastforce split: if_splits option.splits)
qed simp

lemma catch_frame:
  assumes "catch mk sp sa codes s = (r, s')"
  shows "sg_queue s' = sg_queue s \<and> sg_watchers s' = sg_watchers s \<and> sg_pending s' = sg_pending s \<and> sg_pipe s' = sg_pipe s \<and>
    (sg_started s \<longrightarrow> sg_started s' \<and> sg_pipe_write s' = sg_pipe_write s) \<and>
    (sg_started s' \<longrightarrow> sg_started s \<or> sg_pipe_write s' \<noteq> None) \<and> (sg_caught s' \<noteq> 0 \<longrightarrow> sg_caught s \<noteq> 0 \<or> sg_started s')"
proof -
  have i: "install sa codes t = (r, s') \<Longrightarrow> sg_started t \<Longrightarrow> sg_queue s' = sg_queue t \<and> sg_watchers s' = sg_watchers t \<and>
      sg_pending s' = sg_pending t \<and> sg_pipe s' = sg_pipe t \<and> sg_started s' \<and> sg_pipe_write s' = sg_pipe_write t" for t
    using install_frame [of sa codes t r s'] by (metis sig_state.select_convs(1,3-7) sig_state.surjective sig_state.update_convs(2))
  show ?thesis using assms i by (auto simp: catch_def split: if_splits sum.splits option.splits dest!: i)
qed

lemma handler_mark_frame: "handler_mark g s = s\<lparr>sg_pending := sg_pending (handler_mark g s)\<rparr>"
  by (simp add: handler_mark_def split: option.splits)

lemma queue_signals_state:
  "queue_signals me p s sc = (s', sc') \<Longrightarrow>
    s' = s\<lparr>sg_queue := queue_codes p [0..<5] (sg_queue s), sg_watchers := (sg_watchers s)\<lparr>wl_list := []\<rparr>\<rparr>"
  by (simp add: queue_signals_def wake_all_def Let_def split: prod.splits)

lemma reader_inv: "reader_step y y' \<Longrightarrow> sig_inv y \<Longrightarrow> sig_inv y'"
proof (induction rule: reader_step.induct)
  case (queues y p me s' sc')
  note s' = queue_signals_state [OF queues(2)]
  have i: "set (sg_queue (ss_state y)) \<subseteq> {..<5}" "distinct (sg_queue (ss_state y))" using queues(3) by (simp_all add: sig_inv_def)
  have "set (queue_codes p [0..<5] (sg_queue (ss_state y))) \<subseteq> {..<5}" unfolding queue_codes_all using i(1) by blast
  then show ?case using queues(1,3) queue_codes_distinct [OF i(2)] unfolding s' sig_inv_def by simp
qed (simp_all add: sig_inv_def pipe_read_def take_pending_def)

lemma mark_inv:
  assumes "bit (sg_caught (ss_state y)) code" "code < 5" "sig_inv y"
  shows "sig_inv (y\<lparr>ss_state := handler_mark (SIGNALS ! code) (ss_state y), ss_writing := SIGNALS ! code # ss_writing y\<rparr>)"
proof -
  have "sg_caught (ss_state y) \<noteq> 0" using assms(1) by auto
  then show ?thesis using assms(2,3) by (simp add: sig_inv_def handler_mark_def position_signal)
qed

lemma write_inv:
  assumes "g \<in> set (ss_writing y)" "sig_inv y" "0 < cap"
  shows "sig_inv (y\<lparr>ss_state := handler_write cap g (ss_state y), ss_writing := remove1 g (ss_writing y)\<rparr>)"
proof -
  have w: "set (ss_writing y) \<subseteq> set SIGNALS" "sg_started (ss_state y)" "sg_pipe_write (ss_state y) \<noteq> None"
    using assms(1,2) unfolding sig_inv_def by auto
  then obtain code fd where "position (\<lambda>h. h = g) SIGNALS = Some code" "sg_pipe_write (ss_state y) = Some fd"
    using assms(1) position_signal_in [of g] by blast
  then have "handler_write cap g (ss_state y) = (ss_state y)\<lparr>sg_pipe := min cap (sg_pipe (ss_state y) + 1)\<rparr>"
    by (simp add: handler_write_def)
  moreover have "set (remove1 g (ss_writing y)) \<subseteq> set SIGNALS" using w(1) set_remove1_subset by fast
  ultimately show ?thesis using assms(2,3) w(2) unfolding sig_inv_def by simp
qed

lemma catch_inv:
  assumes "catch mk sp sa codes (ss_state y) = (r, s')" "sig_inv y"
  shows "sig_inv (y\<lparr>ss_state := s'\<rparr>)"
  using catch_frame [OF assms(1)] assms(2) unfolding sig_inv_def by simp (metis option.distinct(1))

lemma sig_step_inv:
  assumes "sig_step cap y y'" "sig_inv y" "0 < cap"
  shows "sig_inv y'"
  using assms(1)
proof cases
  case reader
  then show ?thesis using reader_inv assms(2) by blast
next
  case interrupted
  then show ?thesis using assms(2) by (simp add: sig_inv_def)
next
  case fails
  then show ?thesis using assms(2) by (simp add: sig_inv_def)
next
  case (marks code)
  then show ?thesis using mark_inv [OF marks(3) _ assms(2)] by simp
next
  case (writes g)
  then show ?thesis using write_inv assms(2,3) by blast
next
  case (catches mk sp sa codes r s')
  then show ?thesis using catch_inv assms(2) by blast
next
  case (takes opt s')
  then obtain q where s': "s' = (ss_state y)\<lparr>sg_queue := q\<rparr>" "q = sg_queue (ss_state y) \<or> (\<exists>c. sg_queue (ss_state y) = c # q)"
    by (cases "sg_queue (ss_state y)") (auto simp: try_next_def)
  have "distinct q" "set q \<subseteq> {..<5}" "wl_list (sg_watchers (ss_state y)) \<noteq> [] \<longrightarrow> q = []"
    using s'(2) assms(2) unfolding sig_inv_def by auto
  then show ?thesis using assms(2) unfolding takes(1) s'(1) sig_inv_def by simp
next
  case (watches wk res s')
  then obtain ws where "s' = ss_state y \<or> sg_queue (ss_state y) = [] \<and> s' = (ss_state y)\<lparr>sg_watchers := ws\<rparr>"
    by (auto simp: watch_signals_def Let_def split: if_splits prod.splits)
  then show ?thesis using assms(2) unfolding watches(1) sig_inv_def by (elim disjE conjE) simp_all
next
  case (unwatches i)
  have "wl_list (remove_waiter i (sg_watchers (ss_state y))) \<noteq> [] \<longrightarrow> wl_list (sg_watchers (ss_state y)) \<noteq> []"
    by (auto simp: remove_waiter_def)
  then show ?thesis using assms(2) unfolding unwatches sig_inv_def unwatch_signals_def by simp
next
  case (others sc')
  then show ?thesis using assms(2) by (simp add: sig_inv_def)
qed

lemma sig_reachable: "(sig_step cap)\<^sup>*\<^sup>* (sig_start sc) y \<Longrightarrow> 0 < cap \<Longrightarrow> sig_inv y"
proof (induction rule: rtranclp_induct)
  case base
  show ?case by (simp add: sig_inv_def sig_start_def signals_new_def waiters_new_def)
qed (rule sig_step_inv)

section \<open>Properties\<close>

text \<open>The signals of \<open>q\<close> are still pending, held by the helper thread, or queued.\<close>

definition on_the_way :: "u32 \<Rightarrow> sig_sys \<Rightarrow> bool" where
  "on_the_way q y \<longleftrightarrow> (\<forall>code < 5. bit q code \<longrightarrow> bit (sg_pending (ss_state y)) code \<or>
     (case ss_phase y of Holds p \<Rightarrow> bit p code | _ \<Rightarrow> False) \<or> code \<in> set (sg_queue (ss_state y)))"

fun reads_left :: "sig_phase \<Rightarrow> nat" where
  "reads_left HasRead = 2"
| "reads_left (Holds p) = 1"
| "reads_left _ = 0"

lemma reader_progress:
  assumes "reader_step y y'" "on_the_way q y"
  shows "on_the_way q y'" "ss_writing y' = ss_writing y" "ss_phase y' \<noteq> Gone"
    "3 * sg_pipe (ss_state y') + reads_left (ss_phase y') < 3 * sg_pipe (ss_state y) + reads_left (ss_phase y)"
proof -
  from assms(1) have "on_the_way q y' \<and> ss_writing y' = ss_writing y \<and> ss_phase y' \<noteq> Gone \<and>
    3 * sg_pipe (ss_state y') + reads_left (ss_phase y') < 3 * sg_pipe (ss_state y) + reads_left (ss_phase y)"
  proof cases
    case reads
    then show ?thesis using assms(2) by (auto simp: on_the_way_def pipe_read_def)
  next
    case (swaps p s')
    then show ?thesis using assms(2) by (auto simp: on_the_way_def take_pending_def)
  next
    case (queues p me s' sc')
    note s' = queue_signals_state [OF queues(3)]
    then show ?thesis using assms(2) queues(1,2) by (auto simp: on_the_way_def queue_codes_all s')
  qed
  then show "on_the_way q y'" "ss_writing y' = ss_writing y" "ss_phase y' \<noteq> Gone"
    "3 * sg_pipe (ss_state y') + reads_left (ss_phase y') < 3 * sg_pipe (ss_state y) + reads_left (ss_phase y)" by blast+
qed

lemma reader_moves:
  assumes "ss_phase y \<noteq> Gone" "ss_phase y = AboutToRead \<Longrightarrow> sg_started (ss_state y) \<and> 0 < sg_pipe (ss_state y)"
  shows "\<exists>y'. reader_step y y'"
proof (cases "ss_phase y")
  case AboutToRead
  then show ?thesis using assms(2) reader_step.reads by blast
next
  case HasRead
  then show ?thesis using reader_step.swaps [OF HasRead] by (metis surj_pair)
next
  case (Holds p)
  then show ?thesis using reader_step.queues [OF Holds] by (metis surj_pair)
qed (use assms(1) in simp)

text \<open>
  C35. A caught signal is never lost: from any point of any run at which no handler is half way and the helper
  thread has not ended (its read failed otherwise than by being interrupted), every run of the
  thread's own steps, which get past a read only with a byte in the pipe, comes to a state with nothing
  pending in which every signal that was pending is queued.
\<close>

theorem signals_reach_the_queue:
  assumes "(sig_step cap)\<^sup>*\<^sup>* (sig_start sc) y" "0 < cap" "ss_writing y = []" "ss_phase y \<noteq> Gone"
  shows "inevitable reader_step
    (\<lambda>y'. sg_pending (ss_state y') = 0 \<and> (\<forall>code < 5. bit (sg_pending (ss_state y)) code \<longrightarrow> code \<in> set (sg_queue (ss_state y')))) y"
proof (rule inevitable_measure [where m = "\<lambda>y. 3 * sg_pipe (ss_state y) + reads_left (ss_phase y)"
      and I = "\<lambda>y'. sig_inv y' \<and> ss_writing y' = [] \<and> ss_phase y' \<noteq> Gone \<and> on_the_way (sg_pending (ss_state y)) y'"])
  show "sig_inv y \<and> ss_writing y = [] \<and> ss_phase y \<noteq> Gone \<and> on_the_way (sg_pending (ss_state y)) y"
    using sig_reachable [OF assms(1,2)] assms(3,4) by (simp add: on_the_way_def)
next
  fix x z
  assume x: "sig_inv x \<and> ss_writing x = [] \<and> ss_phase x \<noteq> Gone \<and> on_the_way (sg_pending (ss_state y)) x" and z: "reader_step x z"
  then show "(sig_inv z \<and> ss_writing z = [] \<and> ss_phase z \<noteq> Gone \<and> on_the_way (sg_pending (ss_state y)) z) \<and>
      3 * sg_pipe (ss_state z) + reads_left (ss_phase z) < 3 * sg_pipe (ss_state x) + reads_left (ss_phase x)"
    using reader_progress [OF z] reader_inv [OF z] by metis
next
  fix x
  assume x: "sig_inv x \<and> ss_writing x = [] \<and> ss_phase x \<noteq> Gone \<and> on_the_way (sg_pending (ss_state y)) x"
    and n: "\<not> (sg_pending (ss_state x) = 0 \<and> (\<forall>code < 5. bit (sg_pending (ss_state y)) code \<longrightarrow> code \<in> set (sg_queue (ss_state x))))"
  have "sg_pending (ss_state x) \<noteq> 0" if "ss_phase x = AboutToRead" using n x that by (auto simp: on_the_way_def)
  then show "\<exists>z. reader_step x z" using x by (intro reader_moves) (auto simp: sig_inv_def)
qed

text \<open>
  C36. At most one of each signal is queued, only signals that can be caught are, and no task sleeps
  registered for a signal while one is queued.
\<close>

theorem signal_queue_exact:
  assumes "(sig_step cap)\<^sup>*\<^sup>* (sig_start sc) y" "0 < cap"
  shows "distinct (sg_queue (ss_state y)) \<and> length (sg_queue (ss_state y)) \<le> 5 \<and> set (sg_queue (ss_state y)) \<subseteq> {..<length SIGNALS} \<and>
    (sg_queue (ss_state y) \<noteq> [] \<longrightarrow> wl_list (sg_watchers (ss_state y)) = [])"
proof -
  have inv: "sig_inv y" using sig_reachable [OF assms] .
  then have "card (set (sg_queue (ss_state y))) \<le> 5"
    using card_mono [of "{..<5}" "set (sg_queue (ss_state y))"] by (simp add: sig_inv_def)
  then show ?thesis using inv distinct_card [of "sg_queue (ss_state y)"] by (auto simp: sig_inv_def)
qed

definition demo_caught :: sig_sys where
  "demo_caught = (sig_start (run_main_start 1 0 (\<lambda>_. Started) 0))\<lparr>ss_state := snd (catch (Inr 4) None (\<lambda>_. None) [1] signals_new)\<rparr>"

definition demo_signalled :: sig_sys where
  "demo_signalled = demo_caught\<lparr>ss_state := handler_write 8 15 (handler_mark 15 (ss_state demo_caught)), ss_writing := []\<rparr>"

lemma demo_signalled_reachable:
  "(sig_step 8)\<^sup>*\<^sup>* (sig_start (run_main_start 1 0 (\<lambda>_. Started) 0)) demo_signalled"
proof -
  have sig: "SIGNALS ! Suc 0 = 15" by (simp add: SIGNALS_def)
  have 1: "sig_step 8 (sig_start (run_main_start 1 0 (\<lambda>_. Started) 0)) demo_caught"
    unfolding demo_caught_def
    by (rule sig_step.catches [where mk = "Inr 4" and sp = None and sa = "\<lambda>_. None" and codes = "[1]"
          and r = "fst (catch (Inr 4) None (\<lambda>_. None) [1] signals_new)"]) (simp add: sig_start_def)
  let ?m = "demo_caught\<lparr>ss_state := handler_mark (SIGNALS ! 1) (ss_state demo_caught), ss_writing := SIGNALS ! 1 # ss_writing demo_caught\<rparr>"
  have c: "sg_caught (ss_state demo_caught) = 2"
    by (simp add: demo_caught_def catch_def signals_new_def SIGNALS_def)
  have 2: "sig_step 8 demo_caught ?m" by (rule sig_step.marks) (simp_all add: c)
  have "sig_step 8 ?m (?m\<lparr>ss_state := handler_write 8 15 (ss_state ?m), ss_writing := remove1 15 (ss_writing ?m)\<rparr>)"
    by (rule sig_step.writes) (simp add: sig)
  then have 3: "sig_step 8 ?m demo_signalled" by (simp add: demo_signalled_def sig demo_caught_def sig_start_def)
  show ?thesis using 1 2 3 by (meson rtranclp.rtrancl_refl rtranclp.rtrancl_into_rtrancl)
qed

theorem signals_reach_the_queue_witness:
  "bit (sg_pending (ss_state demo_signalled)) 1 \<and> inevitable reader_step
     (\<lambda>y'. sg_pending (ss_state y') = 0 \<and> (\<forall>code < 5. bit (sg_pending (ss_state demo_signalled)) code \<longrightarrow> code \<in> set (sg_queue (ss_state y'))))
     demo_signalled"
proof
  have "ss_writing demo_signalled = []" "ss_phase demo_signalled \<noteq> Gone" by (simp_all add: demo_signalled_def demo_caught_def sig_start_def)
  then show "inevitable reader_step
     (\<lambda>y'. sg_pending (ss_state y') = 0 \<and> (\<forall>code < 5. bit (sg_pending (ss_state demo_signalled)) code \<longrightarrow> code \<in> set (sg_queue (ss_state y'))))
     demo_signalled"
    by (intro signals_reach_the_queue [OF demo_signalled_reachable]) simp_all
  show "bit (sg_pending (ss_state demo_signalled)) 1"
    by (simp add: demo_signalled_def demo_caught_def handler_write_def handler_mark_def SIGNALS_def catch_def signals_new_def)
qed

theorem signal_queue_exact_witness:
  "\<exists>y. (sig_step 8)\<^sup>*\<^sup>* (sig_start (run_main_start 1 0 (\<lambda>_. Started) 0)) y \<and> sg_pending (ss_state y) \<noteq> 0 \<and>
    distinct (sg_queue (ss_state y)) \<and> length (sg_queue (ss_state y)) \<le> 5 \<and> set (sg_queue (ss_state y)) \<subseteq> {..<length SIGNALS}"
proof -
  have "sg_pending (ss_state demo_signalled) \<noteq> 0"
    by (simp add: demo_signalled_def demo_caught_def handler_write_def handler_mark_def SIGNALS_def catch_def signals_new_def)
  then show ?thesis using signal_queue_exact [OF demo_signalled_reachable] demo_signalled_reachable by (meson zero_less_numeral)
qed

end
