(* ===== verification/Select.thy ===== *)
theory Select
  imports Channels Tasks Noise Stdin Signals
begin

text \<open>
  Waiting on several sources at once (\<^verbatim>\<open>src/select.rs\<close>, \<^verbatim>\<open>MultiWait\<close> and \<^verbatim>\<open>watch_io\<close> of \<^verbatim>\<open>src/sched.rs\<close>, and the
  watches of \<^verbatim>\<open>src/channels.rs\<close> and \<^verbatim>\<open>src/tls.rs\<close>): the sources of a \<^verbatim>\<open>Select\<close> are watched one after the
  other under one wait, the task is suspended, and everything that was registered is taken back.

  The sources' own watches are the operations of the theories of channels, tasks, standard input, signals
  and Noise.  The event queue (\<^verbatim>\<open>mio\<close>) and what happens while the task is suspended are parameters.
\<close>

section \<open>Sockets in the event queue\<close>

record io_waiter =
  iw_task :: nat
  iw_wait :: nat
  iw_writable :: bool

record io_state =
  io_fd :: nat
  io_closed :: bool
  io_owner :: nat
  io_waiters :: "io_waiter list"

record 'e event_queue =
  eq_register :: "nat \<Rightarrow> nat \<Rightarrow> 'e \<Rightarrow> io_error option \<times> 'e"
  eq_reregister :: "nat \<Rightarrow> nat \<Rightarrow> 'e \<Rightarrow> io_error option \<times> 'e"
  eq_deregister :: "nat \<Rightarrow> nat \<Rightarrow> 'e \<Rightarrow> io_error option \<times> 'e"

text \<open>\<^verbatim>\<open>watch_io\<close> on worker \<open>me\<close>: \<open>up\<close> is which workers have been started.\<close>

definition forget_wait :: "nat \<Rightarrow> io_state \<Rightarrow> io_state" where
  "forget_wait wait ios = ios\<lparr>io_waiters := filter (\<lambda>x. iw_wait x \<noteq> wait) (io_waiters ios)\<rparr>"

definition watch_io ::
  "'e event_queue \<Rightarrow> (nat \<Rightarrow> bool) \<Rightarrow> nat \<Rightarrow> nat \<Rightarrow> nat \<Rightarrow> bool \<Rightarrow> io_state \<Rightarrow> 'e \<Rightarrow> (io_error + bool) \<times> io_state \<times> 'e" where
  "watch_io Q up me t wait writable ios e =
     (if io_closed ios then (Inr False, ios, e)
      else let owner = io_owner ios; mine = me + 1;
               other = (if 0 < owner \<and> up (owner - 1) then Some (owner - 1) else None);
               ios1 = ios\<lparr>io_waiters := io_waiters ios @ [\<lparr>iw_task = t, iw_wait = wait, iw_writable = writable\<rparr>]\<rparr>
           in if owner = mine then (Inr True, ios1, e)
              else case (if owner \<noteq> 0 \<and> 1 < length (io_waiters ios1) then other else None) of
                Some w \<Rightarrow>
                  (case eq_reregister Q w (io_fd ios) e of
                     (None, e1) \<Rightarrow> (Inr True, ios1, e1)
                   | (Some err, e1) \<Rightarrow> (Inl err, ios1, e1))
              | None \<Rightarrow>
                  let e1 = (case other of None \<Rightarrow> e | Some w \<Rightarrow> snd (eq_deregister Q w (io_fd ios) e));
                      (r, e2) = eq_register Q me (io_fd ios) e1;
                      (registered, e3) = (case r of
                         Some err \<Rightarrow> if err_kind err = AlreadyExists then eq_reregister Q me (io_fd ios) e2 else (r, e2)
                       | None \<Rightarrow> (r, e2))
                  in (case registered of
                        None \<Rightarrow> (Inr True, ios1\<lparr>io_owner := mine\<rparr>, e3)
                      | Some err \<Rightarrow> (Inl err, forget_wait wait (ios1\<lparr>io_owner := 0\<rparr>), e3)))"

text \<open>\<^verbatim>\<open>IoReg::close\<close>.\<close>

fun wake_waiters :: "nat option \<Rightarrow> io_waiter list \<Rightarrow> sched \<Rightarrow> sched" where
  "wake_waiters me [] s = s"
| "wake_waiters me (x # xs) s = wake_waiters me xs (snd (wake me (iw_task x) (iw_wait x) WReady s))"

definition close_io :: "nat option \<Rightarrow> io_state \<Rightarrow> sched \<Rightarrow> io_state \<times> sched" where
  "close_io me ios s = (ios\<lparr>io_closed := True, io_waiters := []\<rparr>, wake_waiters me (io_waiters ios) s)"

section \<open>The sources\<close>

text \<open>\<^verbatim>\<open>TlsStream::watch\<close>.  The session's state, which is rustls's, is four parameters: whether a lock is held,
  whether \<^verbatim>\<open>inner\<close> is, whether something is there to read, and whether a lock is held by then.\<close>

datatype tls_watch = TlsReady | TlsWaiting nat bool

definition watch_tls :: "task_waker \<Rightarrow> bool \<Rightarrow> bool \<Rightarrow> bool \<Rightarrow> bool \<Rightarrow> bool \<Rightarrow> waiters \<Rightarrow> tls_watch \<times> waiters" where
  "watch_tls wk lock_held inner_held ready busy_later wants_write ws =
     (let (i, ws1) = add_waker wk ws
      in if lock_held \<or> inner_held then (TlsWaiting i False, ws1)
         else if ready \<and> \<not> busy_later then (TlsReady, remove_waiter i ws1)
         else (TlsWaiting i wants_write, ws1))"

datatype sock_kind = PlainSock | TlsSock | NoiseSock

record 'key sock =
  so_kind :: sock_kind
  so_deadline :: deadline
  so_io :: io_state
  so_watchers :: waiters
  so_busy :: bool
  so_inner_held :: bool
  so_ready :: bool
  so_busy_later :: bool
  so_wants_write :: bool
  so_received :: "'key received"

datatype chan_end = ReceiverEnd nat | SenderEnd nat

record ('v, 'key, 'e) sel =
  sw_tasks :: task_world
  sw_ends :: "nat \<Rightarrow> chan_end option"
  sw_chans :: "nat \<Rightarrow> 'v chan"
  sw_stdin :: stdin_state
  sw_signals :: sig_state
  sw_socks :: "nat \<Rightarrow> 'key sock option"
  sw_events :: 'e

datatype source = Readable nat | Writable nat | Receivable nat | Sendable nat | Joinable nat | StdinLine | SignalCaught

datatype watching = WChannel nat nat | WTls nat nat | WNoise nat nat | WTask nat nat | WStdin nat | WSignal nat

datatype outcome = SelReady | SelCancelled | SelTimedOut | SelSourceTimedOut nat

text \<open>\<^verbatim>\<open>channels::watch\<close> and \<^verbatim>\<open>channels::unwatch\<close>.\<close>

definition upd_chan :: "nat \<Rightarrow> ('v chan \<Rightarrow> 'v chan) \<Rightarrow> ('v, 'key, 'e) sel \<Rightarrow> ('v, 'key, 'e) sel" where
  "upd_chan c f w = w\<lparr>sw_chans := (sw_chans w)(c := f (sw_chans w c))\<rparr>"

definition watch_channel :: "nat \<Rightarrow> task_waker \<Rightarrow> ('v, 'key, 'e) sel \<Rightarrow> nat option \<times> ('v, 'key, 'e) sel" where
  "watch_channel h wk w =
     (case sw_ends w h of
        None \<Rightarrow> (None, w)
      | Some (ReceiverEnd c) \<Rightarrow> let (i, ch) = watch_receiver wk (sw_chans w c) in (i, upd_chan c (\<lambda>_. ch) w)
      | Some (SenderEnd c) \<Rightarrow> let (i, ch) = watch_sender wk (sw_chans w c) in (i, upd_chan c (\<lambda>_. ch) w))"

definition unwatch_channel :: "nat \<Rightarrow> nat \<Rightarrow> ('v, 'key, 'e) sel \<Rightarrow> ('v, 'key, 'e) sel" where
  "unwatch_channel h i w =
     (case sw_ends w h of
        None \<Rightarrow> w
      | Some (ReceiverEnd c) \<Rightarrow> upd_chan c (unwatch_receiver i) w
      | Some (SenderEnd c) \<Rightarrow> upd_chan c (unwatch_sender i) w)"

definition upd_sock :: "nat \<Rightarrow> ('key sock \<Rightarrow> 'key sock) \<Rightarrow> ('v, 'key, 'e) sel \<Rightarrow> ('v, 'key, 'e) sel" where
  "upd_sock h f w = w\<lparr>sw_socks := (sw_socks w)(h := map_option f (sw_socks w h))\<rparr>"

text \<open>
  The wait in progress: the worker, the task and its wait; \<open>spawned\<close> is what starting the reader of
  standard input would give.
\<close>

record 'e multi_wait =
  mw_queue :: "'e event_queue"
  mw_up :: "nat \<Rightarrow> bool"
  mw_me :: nat
  mw_task :: nat
  mw_wait :: nat
  mw_spawned :: "io_error option"

definition mw_waker :: "'e multi_wait \<Rightarrow> task_waker" where
  "mw_waker m = TaskWaker (mw_task m) (mw_wait m)"

text \<open>\<^verbatim>\<open>add_io\<close>: whether it succeeded; then the socket is among those to forget.\<close>

definition add_io :: "'e multi_wait \<Rightarrow> nat \<Rightarrow> bool \<Rightarrow> nat list \<times> ('v, 'key, 'e) sel \<Rightarrow> bool \<times> nat list \<times> ('v, 'key, 'e) sel" where
  "add_io m h writable = (\<lambda>(io, w).
     case sw_socks w h of
       None \<Rightarrow> (False, io, w)
     | Some so \<Rightarrow>
         (case watch_io (mw_queue m) (mw_up m) (mw_me m) (mw_task m) (mw_wait m) writable (so_io so) (sw_events w) of
            (r, ios, e) \<Rightarrow>
              let w1 = upd_sock h (\<lambda>so. so\<lparr>so_io := ios\<rparr>) (w\<lparr>sw_events := e\<rparr>)
              in (case r of Inl _ \<Rightarrow> (False, io, w1) | Inr False \<Rightarrow> (False, io, w1) | Inr True \<Rightarrow> (True, io @ [h], w1))))"

text \<open>What the loop over the sources has so far: the watches, the streams' deadlines, and the sockets added.\<close>

type_synonym ('v, 'key, 'e) sel_loop = "watching list \<times> (nat \<times> instant) list \<times> nat list \<times> ('v, 'key, 'e) sel"

text \<open>A readable TLS or Noise stream is watched itself, too: whether it is ready, and whether it wants to write.\<close>

definition watch_stream :: "'e multi_wait \<Rightarrow> nat \<Rightarrow> 'key sock \<Rightarrow> ('v, 'key, 'e) sel_loop \<Rightarrow> bool \<times> bool \<times> ('v, 'key, 'e) sel_loop" where
  "watch_stream m h so = (\<lambda>(ws, ds, io, w).
     case so_kind so of
       PlainSock \<Rightarrow> (False, False, ws, ds, io, w)
     | TlsSock \<Rightarrow>
         (case watch_tls (mw_waker m) (so_busy so) (so_inner_held so) (so_ready so) (so_busy_later so) (so_wants_write so) (so_watchers so) of
            (TlsReady, l) \<Rightarrow> (True, False, ws, ds, io, upd_sock h (\<lambda>so. so\<lparr>so_watchers := l\<rparr>) w)
          | (TlsWaiting i also, l) \<Rightarrow> (False, also, ws @ [WTls h i], ds, io, upd_sock h (\<lambda>so. so\<lparr>so_watchers := l\<rparr>) w))
     | NoiseSock \<Rightarrow>
         (case watch_noise (mw_waker m) (so_busy so) (so_ready so) (so_received so) (so_watchers so) of
            (WatchReady, l) \<Rightarrow> (True, False, ws, ds, io, upd_sock h (\<lambda>so. so\<lparr>so_watchers := l\<rparr>) w)
          | (WatchWaiting i, l) \<Rightarrow> (False, False, ws @ [WNoise h i], ds, io, upd_sock h (\<lambda>so. so\<lparr>so_watchers := l\<rparr>) w)))"

definition watch_socket :: "'e multi_wait \<Rightarrow> nat \<Rightarrow> nat \<Rightarrow> bool \<Rightarrow> ('v, 'key, 'e) sel_loop \<Rightarrow> bool \<times> ('v, 'key, 'e) sel_loop" where
  "watch_socket m index h writable = (\<lambda>(ws, ds, io, w).
     case sw_socks w h of
       None \<Rightarrow> (True, ws, ds, io, w)
     | Some so \<Rightarrow>
         let ds1 = (case so_deadline so of At at \<Rightarrow> if writable then ds else ds @ [(index, at)] | Never \<Rightarrow> ds)
         in case (if writable then (False, False, ws, ds1, io, w) else watch_stream m h so (ws, ds1, io, w)) of
              (ready, also, ws1, ds2, io1, w1) \<Rightarrow>
                if ready then (True, ws1, ds2, io1, w1)
                else (case add_io m h writable (io1, w1) of
                        (added, io2, w2) \<Rightarrow>
                          if \<not> added then (True, ws1, ds2, io2, w2)
                          else if \<not> also then (False, ws1, ds2, io2, w2)
                          else (case add_io m h True (io2, w2) of (added, io3, w3) \<Rightarrow> (\<not> added, ws1, ds2, io3, w3))))"

text \<open>One source: whether it is ready, which ends the loop.\<close>

fun watch_source :: "'e multi_wait \<Rightarrow> nat \<Rightarrow> source \<Rightarrow> ('v, 'key, 'e) sel_loop \<Rightarrow> bool \<times> ('v, 'key, 'e) sel_loop" where
  "watch_source m index SignalCaught (ws, ds, io, w) =
     (case watch_signals (mw_waker m) (sw_signals w) of
        (SigReady, s) \<Rightarrow> (True, ws, ds, io, w\<lparr>sw_signals := s\<rparr>)
      | (SigWaiting i, s) \<Rightarrow> (False, ws @ [WSignal i], ds, io, w\<lparr>sw_signals := s\<rparr>))"
| "watch_source m index StdinLine (ws, ds, io, w) =
     (case watch_stdin (mw_spawned m) (mw_waker m) (sw_stdin w) of
        (StdinReady, s) \<Rightarrow> (True, ws, ds, io, w\<lparr>sw_stdin := s\<rparr>)
      | (StdinWaiting i, s) \<Rightarrow> (False, ws @ [WStdin i], ds, io, w\<lparr>sw_stdin := s\<rparr>))"
| "watch_source m index (Joinable h) (ws, ds, io, w) =
     (case watch_task h (mw_waker m) (sw_tasks w) of
        (None, s) \<Rightarrow> (True, ws, ds, io, w\<lparr>sw_tasks := s\<rparr>)
      | (Some i, s) \<Rightarrow> (False, ws @ [WTask h i], ds, io, w\<lparr>sw_tasks := s\<rparr>))"
| "watch_source m index (Readable h) l = watch_socket m index h False l"
| "watch_source m index (Writable h) l = watch_socket m index h True l"
| "watch_source m index (Receivable h) (ws, ds, io, w) =
     (case watch_channel h (mw_waker m) w of
        (None, w1) \<Rightarrow> (True, ws, ds, io, w1)
      | (Some i, w1) \<Rightarrow> (False, ws @ [WChannel h i], ds, io, w1))"
| "watch_source m index (Sendable h) (ws, ds, io, w) =
     (case watch_channel h (mw_waker m) w of
        (None, w1) \<Rightarrow> (True, ws, ds, io, w1)
      | (Some i, w1) \<Rightarrow> (False, ws @ [WChannel h i], ds, io, w1))"

fun watch_sources :: "'e multi_wait \<Rightarrow> nat \<Rightarrow> source list \<Rightarrow> ('v, 'key, 'e) sel_loop \<Rightarrow> bool \<times> ('v, 'key, 'e) sel_loop" where
  "watch_sources m index [] l = (False, l)"
| "watch_sources m index (x # xs) l =
     (case watch_source m index x l of (ready, l1) \<Rightarrow> if ready then (True, l1) else watch_sources m (index + 1) xs l1)"

fun unwatch_one :: "watching \<Rightarrow> ('v, 'key, 'e) sel \<Rightarrow> ('v, 'key, 'e) sel" where
  "unwatch_one (WChannel h i) w = unwatch_channel h i w"
| "unwatch_one (WTask h i) w = w\<lparr>sw_tasks := unwatch_task h i (sw_tasks w)\<rparr>"
| "unwatch_one (WStdin i) w = w\<lparr>sw_stdin := unwatch_stdin i (sw_stdin w)\<rparr>"
| "unwatch_one (WSignal i) w = w\<lparr>sw_signals := unwatch_signals i (sw_signals w)\<rparr>"
| "unwatch_one (WNoise h i) w =
     upd_sock h (\<lambda>so. if so_kind so = NoiseSock then so\<lparr>so_watchers := remove_waiter i (so_watchers so)\<rparr> else so) w"
| "unwatch_one (WTls h i) w =
     upd_sock h (\<lambda>so. if so_kind so = TlsSock then so\<lparr>so_watchers := remove_waiter i (so_watchers so)\<rparr> else so) w"

text \<open>\<^verbatim>\<open>forget_io\<close>.\<close>

fun forget_io :: "nat \<Rightarrow> nat list \<Rightarrow> ('v, 'key, 'e) sel \<Rightarrow> ('v, 'key, 'e) sel" where
  "forget_io wait [] w = w"
| "forget_io wait (h # io) w = forget_io wait io (upd_sock h (\<lambda>so. so\<lparr>so_io := forget_wait wait (so_io so)\<rparr>) w)"

section \<open>The wait\<close>

text \<open>\<^verbatim>\<open>min_by_key\<close>: the first of the earliest.\<close>

fun first_deadline :: "(nat \<times> instant) list \<Rightarrow> (nat \<times> instant) option" where
  "first_deadline [] = None"
| "first_deadline (x # xs) =
     (case first_deadline xs of None \<Rightarrow> Some x | Some y \<Rightarrow> if snd y < snd x then Some y else Some x)"

definition wait_until :: "deadline \<Rightarrow> (nat \<times> instant) option \<Rightarrow> deadline" where
  "wait_until limit first =
     (case (limit, first) of
        (At a, Some (_, b)) \<Rightarrow> At (min a b)
      | (At a, None) \<Rightarrow> At a
      | (Never, Some (_, b)) \<Rightarrow> At b
      | (Never, None) \<Rightarrow> Never)"

definition outcome_of :: "deadline \<Rightarrow> (nat \<times> instant) option \<Rightarrow> woke \<Rightarrow> outcome" where
  "outcome_of limit first how =
     (case how of
        WReady \<Rightarrow> SelReady
      | WCancelled \<Rightarrow> SelCancelled
      | WTimedOut \<Rightarrow>
          (case first of
             Some (index, at) \<Rightarrow> if (case limit of Never \<Rightarrow> True | At l \<Rightarrow> at < l) then SelSourceTimedOut index else SelTimedOut
           | None \<Rightarrow> SelTimedOut))"

definition on_tasks :: "(sched \<Rightarrow> sched) \<Rightarrow> ('v, 'key, 'e) sel \<Rightarrow> ('v, 'key, 'e) sel" where
  "on_tasks f w = w\<lparr>sw_tasks := on_sched f (sw_tasks w)\<rparr>"

text \<open>\<^verbatim>\<open>abandon\<close>: the wait is ended unless something has already ended it.\<close>

definition abandon :: "nat \<Rightarrow> nat \<Rightarrow> nat list \<Rightarrow> ('v, 'key, 'e) sel \<Rightarrow> ('v, 'key, 'e) sel" where
  "abandon t wait io w =
     forget_io wait io (on_tasks (\<lambda>s. if t_wait (tasks s t) = wait then upd_task t (\<lambda>tk. tk\<lparr>t_wait := 0\<rparr>) s else s) w)"

text \<open>
  \<^verbatim>\<open>wait_any\<close>.  \<open>suspend\<close> is the suspension: how the wait ended and what others did meanwhile.  Outside
  a task it only sleeps for a moment.
\<close>

fun wait_any ::
  "'e event_queue \<Rightarrow> nat \<Rightarrow> io_error option \<Rightarrow> (nat \<Rightarrow> nat \<Rightarrow> deadline \<Rightarrow> ('v, 'key, 'e) sel \<Rightarrow> woke \<times> ('v, 'key, 'e) sel) \<Rightarrow>
   runner \<Rightarrow> instant \<Rightarrow> source list \<Rightarrow> deadline \<Rightarrow> ('v, 'key, 'e) sel \<Rightarrow> outcome \<times> ('v, 'key, 'e) sel" where
  "wait_any Q me spawned suspend (OnThread th) now sources limit w = (if passed now limit then SelTimedOut else SelReady, w)"
| "wait_any Q me spawned suspend (InTask t) now sources limit w =
     (if passed now limit then (SelTimedOut, w)
      else case begin_wait (Some me) t True (tw_sched (sw_tasks w)) of
             (wait, s) \<Rightarrow>
               let m = \<lparr>mw_queue = Q, mw_up = (\<lambda>i. worker i s \<noteq> None), mw_me = me, mw_task = t, mw_wait = wait, mw_spawned = spawned\<rparr>
               in case watch_sources m 0 sources ([], [], [], on_tasks (\<lambda>_. s) w) of
                    (ready, ws, ds, io, w1) \<Rightarrow>
                      let first = first_deadline ds;
                          (r, w2) = (if ready then (SelReady, abandon t wait io w1)
                                     else case suspend t wait (wait_until limit first) w1 of
                                            (how, w2) \<Rightarrow> (outcome_of limit first how, forget_io wait io w2))
                      in (r, fold unwatch_one ws w2))"

text \<open>\<^verbatim>\<open>roc_select_turn\<close>, a counter that wraps around, and the limit that \<^verbatim>\<open>roc_select_wait\<close> gives to \<^verbatim>\<open>wait_any\<close>.\<close>

definition select_turn :: "u64 \<Rightarrow> u64 \<times> u64" where
  "select_turn turn = (turn, turn + 1)"

definition select_deadline :: "u64 \<Rightarrow> instant \<Rightarrow> deadline" where
  "select_deadline timeout_ns now = (if timeout_ns \<noteq> - 1 then checked_add now (unat timeout_ns) else Never)"

section \<open>The contract of a watch\<close>

text \<open>
  What \<^verbatim>\<open>Select\<close> relies on in a source: a watch that is not ready at once registers the waker under the id it
  returns and nothing else, one that is ready registers nothing, and taking back an id removes exactly
  what is registered under it.
\<close>

locale watchable =
  fixes watch :: "task_waker \<Rightarrow> 's \<Rightarrow> nat option \<times> 's" and unwatch :: "nat \<Rightarrow> 's \<Rightarrow> 's" and entries :: "'s \<Rightarrow> (nat \<times> task_waker) set"
  assumes ready: "watch wk s = (None, s') \<Longrightarrow> entries s' = entries s"
    and waiting: "watch wk s = (Some i, s') \<Longrightarrow> entries s' = insert (i, wk) (entries s)"
    and removed: "entries (unwatch i s) = {x \<in> entries s. fst x \<noteq> i}"
begin

lemma only_under_its_id: "watch wk s = (r, s') \<Longrightarrow> x \<in> entries s' \<Longrightarrow> x \<in> entries s \<or> (\<exists>i. r = Some i \<and> x = (i, wk))"
  using ready waiting by (cases r) auto

end

abbreviation watchers :: "waiters \<Rightarrow> (nat \<times> task_waker) set" where
  "watchers ws \<equiv> set (wl_list ws)"

lemma add_waker_set [simp]: "watchers (snd (add_waker wk ws)) = insert (fst (add_waker wk ws), wk) (watchers ws)"
  by (simp add: add_waker_def)

lemma remove_waiter_watchers [simp]: "watchers (remove_waiter i ws) = {x \<in> watchers ws. fst x \<noteq> i}"
  by (auto simp: remove_waiter_def)

text \<open>The components' watches, as their ids.\<close>

fun stdin_id :: "stdin_watch \<times> 's \<Rightarrow> nat option \<times> 's" where
  "stdin_id (StdinReady, s) = (None, s)"
| "stdin_id (StdinWaiting i, s) = (Some i, s)"

fun signal_id :: "sig_watch \<times> 's \<Rightarrow> nat option \<times> 's" where
  "signal_id (SigReady, s) = (None, s)"
| "signal_id (SigWaiting i, s) = (Some i, s)"



interpretation stdin_lines: watchable "\<lambda>wk s. stdin_id (watch_stdin sp wk s)" unwatch_stdin "\<lambda>s. watchers (si_watchers s)" for sp
  by unfold_locales (auto simp: watch_stdin_def unwatch_stdin_def add_waker_def remove_waiter_def Let_def split: if_splits)

interpretation caught: watchable "\<lambda>wk s. signal_id (watch_signals wk s)" unwatch_signals "\<lambda>s. watchers (sg_watchers s)"
  by unfold_locales (auto simp: watch_signals_def unwatch_signals_def add_waker_def remove_waiter_def Let_def split: if_splits)

interpretation finishing: watchable "watch_finished t" "unwatch_finished t" "\<lambda>s. watchers (t_finish_waiters (tasks s t))" for t
  by unfold_locales (auto simp: watch_finished_def unwatch_finished_def add_waker_def remove_waiter_def Let_def split: if_splits)

section \<open>Nothing stays behind\<close>

text \<open>The lists a waker can be on, and the one that a watch is on.\<close>

datatype place = PReceivers nat | PSenders nat | PStdin | PSignals | PFinish nat | PStream nat

fun entries_at :: "place \<Rightarrow> ('v, 'key, 'e) sel \<Rightarrow> (nat \<times> task_waker) set" where
  "entries_at (PReceivers c) w = watchers (c_receive_watchers (sw_chans w c))"
| "entries_at (PSenders c) w = watchers (c_send_watchers (sw_chans w c))"
| "entries_at PStdin w = watchers (si_watchers (sw_stdin w))"
| "entries_at PSignals w = watchers (sg_watchers (sw_signals w))"
| "entries_at (PFinish t) w = watchers (t_finish_waiters (tasks (tw_sched (sw_tasks w)) t))"
| "entries_at (PStream h) w = (case sw_socks w h of None \<Rightarrow> {} | Some so \<Rightarrow> watchers (so_watchers so))"

fun watch_id :: "watching \<Rightarrow> nat" where
  "watch_id (WChannel h i) = i"
| "watch_id (WTls h i) = i"
| "watch_id (WNoise h i) = i"
| "watch_id (WTask h i) = i"
| "watch_id (WStdin i) = i"
| "watch_id (WSignal i) = i"

fun place_of :: "('v, 'key, 'e) sel \<Rightarrow> watching \<Rightarrow> place option" where
  "place_of w (WChannel h i) =
     (case sw_ends w h of None \<Rightarrow> None | Some (ReceiverEnd c) \<Rightarrow> Some (PReceivers c) | Some (SenderEnd c) \<Rightarrow> Some (PSenders c))"
| "place_of w (WTls h i) = (case sw_socks w h of Some so \<Rightarrow> if so_kind so = TlsSock then Some (PStream h) else None | None \<Rightarrow> None)"
| "place_of w (WNoise h i) = (case sw_socks w h of Some so \<Rightarrow> if so_kind so = NoiseSock then Some (PStream h) else None | None \<Rightarrow> None)"
| "place_of w (WTask h i) = map_option PFinish (task_of h (sw_tasks w))"
| "place_of w (WStdin i) = Some PStdin"
| "place_of w (WSignal i) = Some PSignals"

definition io_waits :: "('v, 'key, 'e) sel \<Rightarrow> nat \<Rightarrow> nat set" where
  "io_waits w wait = {h. case sw_socks w h of None \<Rightarrow> False | Some so \<Rightarrow> wait \<in> iw_wait ` set (io_waiters (so_io so))}"


text \<open>
  Every trace of the wait is in the lists that the loop keeps, but for the sockets \<open>X\<close>: the one whose re-arming in
  another worker's queue failed, if any, which also ends the loop.
\<close>

definition rearm_fails :: "'e event_queue \<Rightarrow> bool" where
  "rearm_fails Q \<longleftrightarrow> (\<exists>i fd e. fst (eq_reregister Q i fd e) \<noteq> None)"

definition strays :: "'e event_queue \<Rightarrow> bool \<Rightarrow> nat set \<Rightarrow> bool" where
  "strays Q ready X \<longleftrightarrow> X = {} \<or> ready \<and> rearm_fails Q \<and> (\<exists>h. X = {h})"

lemma strays_simps [simp]: "strays Q r {}" "strays Q False X \<longleftrightarrow> X = {}"
  by (simp_all add: strays_def)


lemma upd_sock_simps [simp]:
  "sw_socks (upd_sock h f w) = (sw_socks w)(h := map_option f (sw_socks w h))" "sw_ends (upd_sock h f w) = sw_ends w"
  "sw_chans (upd_sock h f w) = sw_chans w" "sw_stdin (upd_sock h f w) = sw_stdin w" "sw_signals (upd_sock h f w) = sw_signals w"
  "sw_tasks (upd_sock h f w) = sw_tasks w"
  by (simp_all add: upd_sock_def)

lemma upd_chan_simps [simp]:
  "sw_chans (upd_chan c f w) = (sw_chans w)(c := f (sw_chans w c))" "sw_ends (upd_chan c f w) = sw_ends w"
  "sw_socks (upd_chan c f w) = sw_socks w" "sw_stdin (upd_chan c f w) = sw_stdin w" "sw_signals (upd_chan c f w) = sw_signals w"
  "sw_tasks (upd_chan c f w) = sw_tasks w"
  by (simp_all add: upd_chan_def)

lemma task_of_unwatch [simp]: "task_of h (unwatch_task a i w) = task_of h w"
  by (simp add: task_of_def unwatch_task_def on_sched_def split: option.splits task_obj.splits)


lemma unwatch_place [simp]: "place_of (unwatch_one x w) y = place_of w y"
  by (cases x; cases y) (auto simp: unwatch_channel_def split: option.splits chan_end.splits)

lemma unwatch_io [simp]: "io_waits (unwatch_one x w) wait = io_waits w wait"
  by (cases x) (auto simp: io_waits_def unwatch_channel_def split: option.splits chan_end.splits if_splits)


























section \<open>No source is missed\<close>

text \<open>
  What a source is waiting for once it is watched: the waker is on its list, a socket has the wait among its
  waiters, and the wait ends no later than a readable stream's deadline.
\<close>

definition has_waker :: "'e multi_wait \<Rightarrow> watching \<Rightarrow> ('v, 'key, 'e) sel \<Rightarrow> bool" where
  "has_waker m y w \<longleftrightarrow> (case place_of w y of None \<Rightarrow> False | Some p \<Rightarrow> (watch_id y, mw_waker m) \<in> entries_at p w)"

definition io_waiting :: "'e multi_wait \<Rightarrow> nat \<Rightarrow> bool \<Rightarrow> ('v, 'key, 'e) sel \<Rightarrow> bool" where
  "io_waiting m h writable w \<longleftrightarrow>
     (case sw_socks w h of
        None \<Rightarrow> False
      | Some so \<Rightarrow> \<lparr>iw_task = mw_task m, iw_wait = mw_wait m, iw_writable = writable\<rparr> \<in> set (io_waiters (so_io so)))"

definition stream_watched :: "'e multi_wait \<Rightarrow> nat \<Rightarrow> ('v, 'key, 'e) sel \<Rightarrow> bool" where
  "stream_watched m h w \<longleftrightarrow>
     (case map_option so_kind (sw_socks w h) of
        Some TlsSock \<Rightarrow> \<exists>i. has_waker m (WTls h i) w
      | Some NoiseSock \<Rightarrow> \<exists>i. has_waker m (WNoise h i) w
      | _ \<Rightarrow> True)"

fun registered :: "'e multi_wait \<Rightarrow> source \<Rightarrow> ('v, 'key, 'e) sel \<Rightarrow> bool" where
  "registered m (Readable h) w \<longleftrightarrow> io_waiting m h False w \<and> stream_watched m h w"
| "registered m (Writable h) w \<longleftrightarrow> io_waiting m h True w"
| "registered m (Receivable h) w \<longleftrightarrow> (\<exists>i. has_waker m (WChannel h i) w)"
| "registered m (Sendable h) w \<longleftrightarrow> (\<exists>i. has_waker m (WChannel h i) w)"
| "registered m (Joinable h) w \<longleftrightarrow> (\<exists>i. has_waker m (WTask h i) w)"
| "registered m StdinLine w \<longleftrightarrow> (\<exists>i. has_waker m (WStdin i) w)"
| "registered m SignalCaught w \<longleftrightarrow> (\<exists>i. has_waker m (WSignal i) w)"

text \<open>The deadlines that a source has: a readable stream's own.\<close>

fun source_deadline :: "source \<Rightarrow> ('v, 'key, 'e) sel \<Rightarrow> deadline" where
  "source_deadline (Readable h) w = (case sw_socks w h of None \<Rightarrow> Never | Some so \<Rightarrow> so_deadline so)"
| "source_deadline _ w = Never"

fun no_later :: "deadline \<Rightarrow> deadline \<Rightarrow> bool" where
  "no_later d Never \<longleftrightarrow> True"
| "no_later (At a) (At b) \<longleftrightarrow> a \<le> b"
| "no_later Never (At b) \<longleftrightarrow> False"

text \<open>Watching a source that is not ready only adds to what is registered.\<close>

definition grows :: "('v, 'key, 'e) sel \<Rightarrow> ('v, 'key, 'e) sel \<Rightarrow> bool" where
  "grows w w' \<longleftrightarrow>
     (\<forall>p. entries_at p w \<subseteq> entries_at p w') \<and> sw_ends w' = sw_ends w \<and> (\<forall>h. task_of h (sw_tasks w') = task_of h (sw_tasks w)) \<and>
     (\<forall>h. map_option so_kind (sw_socks w' h) = map_option so_kind (sw_socks w h)) \<and>
     (\<forall>h. map_option so_deadline (sw_socks w' h) = map_option so_deadline (sw_socks w h)) \<and>
     (\<forall>m h b. io_waiting m h b w \<longrightarrow> io_waiting m h b w')"

lemma grows_refl [simp, intro]: "grows w w"
  by (simp add: grows_def)

lemma grows_trans: "grows w1 w2 \<Longrightarrow> grows w2 w3 \<Longrightarrow> grows w1 w3"
  unfolding grows_def by (metis subset_trans)

lemma place_of_stream:
  "place_of w (WTls h i) = (if map_option so_kind (sw_socks w h) = Some TlsSock then Some (PStream h) else None)"
  "place_of w (WNoise h i) = (if map_option so_kind (sw_socks w h) = Some NoiseSock then Some (PStream h) else None)"
  by (simp_all split: option.splits)

lemma grows_place: "grows w w' \<Longrightarrow> place_of w' y = place_of w y"
  by (cases y) (simp_all add: grows_def place_of_stream del: place_of.simps(2,3))

lemma grows_has_waker: "grows w w' \<Longrightarrow> has_waker m y w \<Longrightarrow> has_waker m y w'"
  using grows_place [of w w' y] by (auto simp: has_waker_def grows_def split: option.splits)

lemma grows_stream: "grows w w' \<Longrightarrow> stream_watched m h w \<Longrightarrow> stream_watched m h w'"
  using grows_has_waker [of w w' m] unfolding stream_watched_def grows_def
  by (auto split: option.splits sock_kind.splits)

lemma grows_registered: "grows w w' \<Longrightarrow> registered m x w \<Longrightarrow> registered m x w'"
  using grows_has_waker [of w w' m] grows_stream [of w w' m] by (cases x) (auto simp: grows_def)

lemma grows_deadline: "grows w w' \<Longrightarrow> source_deadline x w' = source_deadline x w"
proof -
  assume "grows w w'"
  then have "map_option so_deadline (sw_socks w' h) = map_option so_deadline (sw_socks w h)" for h by (simp add: grows_def)
  from this [of "case x of Readable h \<Rightarrow> h | _ \<Rightarrow> 0"] show ?thesis by (cases x) (auto split: option.splits)
qed

lemma watch_io_adds:
  "watch_io Q up me t wait writable ios e = (Inr True, ios', e') \<Longrightarrow>
   io_waiters ios' = io_waiters ios @ [\<lparr>iw_task = t, iw_wait = wait, iw_writable = writable\<rparr>]"
  unfolding watch_io_def Let_def by (auto split: if_splits option.splits prod.splits)

lemma add_io_adds:
  assumes "add_io m h writable (io, w) = (True, io', w')"
  shows "grows w w' \<and> io_waiting m h writable w'"
proof (cases "sw_socks w h")
  case None
  then show ?thesis using assms by (simp add: add_io_def)
next
  case (Some so)
  obtain r ios e where x: "watch_io (mw_queue m) (mw_up m) (mw_me m) (mw_task m) (mw_wait m) writable (so_io so) (sw_events w) = (r, ios, e)"
    by (metis prod_cases3)
  have r: "r = Inr True" and w': "w' = upd_sock h (\<lambda>so. so\<lparr>so_io := ios\<rparr>) (w\<lparr>sw_events := e\<rparr>)"
    using assms Some x by (auto simp: add_io_def Let_def split: sum.splits bool.splits)
  have i: "io_waiters ios = io_waiters (so_io so) @ [\<lparr>iw_task = mw_task m, iw_wait = mw_wait m, iw_writable = writable\<rparr>]"
    by (rule watch_io_adds [OF x [unfolded r]])
  have "entries_at p w' = entries_at p w" for p using Some w' by (cases p) (auto split: option.splits)
  then show ?thesis using Some i by (auto simp: grows_def io_waiting_def w' split: option.splits)
qed

lemma sock_watchers_grow:
  assumes "sw_socks w h = Some so" "watchers l = insert (i, wk) (watchers (so_watchers so))"
  shows "grows w (upd_sock h (\<lambda>so. so\<lparr>so_watchers := l\<rparr>) w)"
proof -
  let ?w = "upd_sock h (\<lambda>so. so\<lparr>so_watchers := l\<rparr>) w"
  have "entries_at p w \<subseteq> entries_at p ?w" for p using assms by (cases p) auto
  then show ?thesis using assms(1) by (auto simp: grows_def io_waiting_def split: option.splits)
qed

lemma watch_tls_adds: "watch_tls wk lk ih rd bl ww ws = (TlsWaiting i al, ws') \<Longrightarrow> watchers ws' = insert (i, wk) (watchers ws)"
  by (auto simp: watch_tls_def add_waker_def Let_def split: if_splits)

lemma watch_noise_adds: "watch_noise wk lk rd rc ws = (WatchWaiting i, ws') \<Longrightarrow> watchers ws' = insert (i, wk) (watchers ws)"
  by (auto simp: watch_noise_def add_waker_def Let_def split: if_splits)

lemma watch_stream_adds:
  assumes "sw_socks w h = Some so" "watch_stream m h so (ws, ds, io, w) = (False, al, ws', ds', io', w')"
  shows "grows w w' \<and> ds' = ds \<and> stream_watched m h w'"
proof (cases "so_kind so")
  case PlainSock
  then show ?thesis using assms by (auto simp: watch_stream_def stream_watched_def)
next
  case TlsSock
  obtain i l where x: "watch_tls (mw_waker m) (so_busy so) (so_inner_held so) (so_ready so) (so_busy_later so) (so_wants_write so) (so_watchers so) = (TlsWaiting i al, l)"
    and w': "w' = upd_sock h (\<lambda>so. so\<lparr>so_watchers := l\<rparr>) w" "ds' = ds"
    using assms(2) TlsSock by (auto simp: watch_stream_def split: prod.splits tls_watch.splits)
  show ?thesis using sock_watchers_grow [OF assms(1) watch_tls_adds [OF x]] watch_tls_adds [OF x] assms(1) TlsSock w'
    by (auto simp: stream_watched_def has_waker_def)
next
  case NoiseSock
  obtain i l where x: "watch_noise (mw_waker m) (so_busy so) (so_ready so) (so_received so) (so_watchers so) = (WatchWaiting i, l)"
    and w': "w' = upd_sock h (\<lambda>so. so\<lparr>so_watchers := l\<rparr>) w" "ds' = ds"
    using assms(2) NoiseSock by (auto simp: watch_stream_def split: prod.splits noise_watch.splits)
  show ?thesis using sock_watchers_grow [OF assms(1) watch_noise_adds [OF x]] watch_noise_adds [OF x] assms(1) NoiseSock w'
    by (auto simp: stream_watched_def has_waker_def)
qed

lemma watch_socket_adds:
  assumes "watch_socket m index h writable (ws, ds, io, w) = (False, ws', ds', io', w')"
  defines "x \<equiv> if writable then Writable h else Readable h"
  shows "grows w w' \<and> registered m x w' \<and> ds' = ds @ (case source_deadline x w of At at \<Rightarrow> [(index, at)] | Never \<Rightarrow> [])"
proof (cases "sw_socks w h")
  case None
  then show ?thesis using assms(1) by (simp add: watch_socket_def)
next
  case (Some so)
  let ?ds = "case so_deadline so of At at \<Rightarrow> if writable then ds else ds @ [(index, at)] | Never \<Rightarrow> ds"
  have d: "?ds = ds @ (case source_deadline x w of At at \<Rightarrow> [(index, at)] | Never \<Rightarrow> [])"
    using Some by (simp add: x_def split: deadline.splits)
  obtain rd al ws1 ds1 io1 w1 where 1: "(if writable then (False, False, ws, ?ds, io, w) else watch_stream m h so (ws, ?ds, io, w)) = (rd, al, ws1, ds1, io1, w1)"
    by (metis prod_cases6)
  obtain a2 io2 w2 where 2: "add_io m h writable (io1, w1) = (a2, io2, w2)" by (metis prod_cases3)
  obtain a3 io3 w3 where 3: "add_io m h True (io2, w2) = (a3, io3, w3)" by (metis prod_cases3)
  have y: "\<not> rd" "a2" "ds' = ds1" "if al then a3 \<and> w' = w3 else w' = w2"
    using assms(1) Some 1 2 3 by (auto simp: watch_socket_def Let_def split: if_splits)
  have g1: "grows w w1 \<and> ds1 = ?ds \<and> (writable \<or> stream_watched m h w1)"
    using 1 y(1) watch_stream_adds [OF Some] by (cases writable) auto
  have g2: "grows w1 w2 \<and> io_waiting m h writable w2" using add_io_adds [of m h writable io1 w1 io2 w2] 2 y(2) by simp
  have "grows w2 w'" using add_io_adds [of m h True io2 w2 io3 w3] 3 y(4) by (cases al) auto
  then show ?thesis using g1 g2 y(3) d grows_trans [of w w1 w2] grows_trans [of w w2 w'] grows_trans [of w1 w2 w']
      grows_stream [of w1 w' m h] grows_registered [of w2 w' m "Writable h"]
    by (auto simp: x_def grows_def)
qed

lemma simple_source_adds:
  assumes "sw_ends w' = sw_ends w" "sw_socks w' = sw_socks w" "\<And>h. task_of h (sw_tasks w') = task_of h (sw_tasks w)"
    and "\<And>p. entries_at p w' = (if place_of w y = Some p then insert (watch_id y, mw_waker m) (entries_at p w) else entries_at p w)"
    and "place_of w y \<noteq> None"
  shows "grows w w' \<and> has_waker m y w'"
proof -
  have g: "grows w w'" unfolding grows_def using assms(1-4) by (auto simp: io_waiting_def)
  then show ?thesis using grows_place [OF g, of y] assms(4,5) by (auto simp: has_waker_def)
qed

lemma watch_channel_adds:
  assumes "watch_channel h (mw_waker m) w = (Some i, w')"
  shows "grows w w' \<and> has_waker m (WChannel h i) w'"
proof (rule simple_source_adds)
  show "entries_at p w' = (if place_of w (WChannel h i) = Some p then insert (watch_id (WChannel h i), mw_waker m) (entries_at p w) else entries_at p w)" for p
    using assms by (cases p)
      (auto simp: watch_channel_def watch_receiver_def watch_sender_def add_waker_def Let_def split: option.splits chan_end.splits if_splits)
qed (use assms in \<open>auto simp: watch_channel_def Let_def split: option.splits chan_end.splits prod.splits\<close>)

lemma watch_task_adds:
  assumes "watch_task h (mw_waker m) (sw_tasks w) = (Some i, s)"
  shows "grows w (w\<lparr>sw_tasks := s\<rparr>) \<and> has_waker m (WTask h i) (w\<lparr>sw_tasks := s\<rparr>)"
proof -
  obtain t sc where t: "task_of h (sw_tasks w) = Some t" and q: "watch_finished t (mw_waker m) (tw_sched (sw_tasks w)) = (Some i, sc)"
    and s: "s = (sw_tasks w)\<lparr>tw_sched := sc\<rparr>"
    using assms by (auto simp: watch_task_def task_of_def split: option.splits task_obj.splits prod.splits)
  have "t_finish_waiters (tasks sc u) = t_finish_waiters (tasks (tw_sched (sw_tasks w)) u)" if "u \<noteq> t" for u
    using q that by (auto simp: watch_finished_def Let_def case_prod_beta split: if_splits)
  then have "entries_at p (w\<lparr>sw_tasks := s\<rparr>) =
      (if place_of w (WTask h i) = Some p then insert (i, mw_waker m) (entries_at p w) else entries_at p w)" for p
    using finishing.waiting [OF q] t s by (cases p) auto
  then show ?thesis using t s by (intro simple_source_adds) (simp_all add: task_of_def)
qed

lemma watch_source_adds:
  assumes "watch_source m index x (ws, ds, io, w) = (False, ws', ds', io', w')"
  shows "grows w w' \<and> registered m x w' \<and> ds' = ds @ (case source_deadline x w of At at \<Rightarrow> [(index, at)] | Never \<Rightarrow> [])"
proof (cases x)
  case (Readable h)
  then show ?thesis using watch_socket_adds [of m index h False] assms by simp
next
  case (Writable h)
  then show ?thesis using watch_socket_adds [of m index h True] assms by simp
next
  case (Receivable h)
  then show ?thesis using watch_channel_adds [of h m w] assms by (auto split: prod.splits option.splits)
next
  case (Sendable h)
  then show ?thesis using watch_channel_adds [of h m w] assms by (auto split: prod.splits option.splits)
next
  case (Joinable h)
  then show ?thesis using watch_task_adds [of h m w] assms by (auto split: prod.splits option.splits)
next
  case StdinLine
  then obtain i s where y: "watch_stdin (mw_spawned m) (mw_waker m) (sw_stdin w) = (StdinWaiting i, s)" "w' = w\<lparr>sw_stdin := s\<rparr>" "ds' = ds"
    using assms by (auto split: prod.splits stdin_watch.splits)
  have "grows w w' \<and> has_waker m (WStdin i) w'"
  proof (rule simple_source_adds)
    show "entries_at p w' = (if place_of w (WStdin i) = Some p then insert (watch_id (WStdin i), mw_waker m) (entries_at p w) else entries_at p w)" for p
      using y stdin_lines.waiting [of "mw_spawned m" "mw_waker m" "sw_stdin w" i s] by (cases p) simp_all
  qed (simp_all add: y)
  then show ?thesis using StdinLine y by auto
next
  case SignalCaught
  then obtain i s where y: "watch_signals (mw_waker m) (sw_signals w) = (SigWaiting i, s)" "w' = w\<lparr>sw_signals := s\<rparr>" "ds' = ds"
    using assms by (auto split: prod.splits sig_watch.splits)
  have "grows w w' \<and> has_waker m (WSignal i) w'"
  proof (rule simple_source_adds)
    show "entries_at p w' = (if place_of w (WSignal i) = Some p then insert (watch_id (WSignal i), mw_waker m) (entries_at p w) else entries_at p w)" for p
      using y caught.waiting [of "mw_waker m" "sw_signals w" i s] by (cases p) simp_all
  qed (simp_all add: y)
  then show ?thesis using SignalCaught y by auto
qed

lemma watch_sources_adds:
  assumes "watch_sources m index xs (ws, ds, io, w) = (False, ws', ds', io', w')"
  shows "grows w w' \<and> (\<forall>x \<in> set xs. registered m x w') \<and> set ds \<subseteq> set ds' \<and>
    (\<forall>x \<in> set xs. \<forall>at. source_deadline x w' = At at \<longrightarrow> at \<in> snd ` set ds')"
  using assms
proof (induction xs arbitrary: index ws ds io w)
  case (Cons x xs)
  obtain r ws1 ds1 io1 w1 where x: "watch_source m index x (ws, ds, io, w) = (r, ws1, ds1, io1, w1)" by (metis prod_cases5)
  then have r: "\<not> r" "watch_sources m (index + 1) xs (ws1, ds1, io1, w1) = (False, ws', ds', io', w')"
    using Cons.prems by (auto split: if_splits)
  note one = watch_source_adds [of m index x ws ds io w ws1 ds1 io1 w1] and rest = Cons.IH [OF r(2)]
  have g: "grows w w1" "grows w1 w'" "registered m x w1" "set ds1 \<subseteq> set ds'"
    "ds1 = ds @ (case source_deadline x w of At at \<Rightarrow> [(index, at)] | Never \<Rightarrow> [])"
    using one x r(1) rest by auto
  have "registered m x w'" using grows_registered g(2,3) by blast
  moreover have "at \<in> snd ` set ds'" if "source_deadline x w' = At at" for at
  proof -
    have "source_deadline x w = At at" using that grows_deadline g(1,2) by metis
    then have "(index, at) \<in> set ds'" using g(4,5) by auto
    then show ?thesis by force
  qed
  ultimately show ?case using rest g(4,5) grows_trans [OF g(1,2)] by auto
qed simp

lemma first_deadline_least: "x \<in> set ds \<Longrightarrow> \<exists>y. first_deadline ds = Some y \<and> snd y \<le> snd x"
proof (induction ds)
  case (Cons z ds)
  then show ?case by (cases "first_deadline ds"; cases "x = z"; cases z) auto
qed simp

lemma wait_until_no_later:
  "no_later (wait_until limit (first_deadline ds)) limit"
  "at \<in> snd ` set ds \<Longrightarrow> no_later (wait_until limit (first_deadline ds)) (At at)"
  using first_deadline_least [of _ ds] by (cases limit; force simp: wait_until_def min_le_iff_disj split: option.splits)+

text \<open>
  C12. A \<^verbatim>\<open>Select\<close> misses nothing: it suspends only with every one of its sources registered for its wait (the waker on
  its list, a socket's waiters naming the wait) and with a deadline no later than its own limit and than any
  readable stream's.  What the suspension would do in any other state makes no difference.
\<close>

theorem select_suspends_registered:
  assumes "\<And>m d w1. mw_task m = t \<Longrightarrow> mw_wait m = next_wait (tw_sched (sw_tasks w)) \<Longrightarrow> \<forall>x \<in> set sources. registered m x w1 \<Longrightarrow>
      no_later d limit \<Longrightarrow> \<forall>x \<in> set sources. no_later d (source_deadline x w1) \<Longrightarrow>
      suspend t (mw_wait m) d w1 = suspend' t (mw_wait m) d w1"
  shows "wait_any Q me spawned suspend (InTask t) now sources limit w = wait_any Q me spawned suspend' (InTask t) now sources limit w"
proof -
  let ?n = "next_wait (tw_sched (sw_tasks w))"
  obtain s where s: "begin_wait (Some me) t True (tw_sched (sw_tasks w)) = (?n, s)" by (simp add: begin_wait_def Let_def)
  let ?m = "\<lparr>mw_queue = Q, mw_up = (\<lambda>i. worker i s \<noteq> None), mw_me = me, mw_task = t, mw_wait = ?n, mw_spawned = spawned\<rparr>"
  obtain ready ws ds io w1 where x: "watch_sources ?m 0 sources ([], [], [], on_tasks (\<lambda>_. s) w) = (ready, ws, ds, io, w1)"
    by (metis prod_cases5)
  let ?d = "wait_until limit (first_deadline ds)"
  have "suspend t ?n ?d w1 = suspend' t ?n ?d w1" if "\<not> ready"
  proof -
    note added = watch_sources_adds [of ?m 0 sources "[]" "[]" "[]" "on_tasks (\<lambda>_. s) w" ws ds io w1]
    have "no_later ?d (source_deadline y w1)" if "y \<in> set sources" for y
      using added x \<open>\<not> ready\<close> that wait_until_no_later(2) by (cases "source_deadline y w1") auto
    then show ?thesis using assms [of ?m w1 ?d] added x that wait_until_no_later(1) by simp
  qed
  then show ?thesis using s x by (cases ready) (simp_all add: Let_def)
qed

section \<open>A wait on standard input and a channel\<close>

definition demo_queue :: "unit event_queue" where
  "demo_queue = \<lparr>eq_register = (\<lambda>_ _ e. (None, e)), eq_reregister = (\<lambda>_ _ e. (None, e)), eq_deregister = (\<lambda>_ _ e. (None, e))\<rparr>"

definition demo_sel :: "(nat, nat, unit) sel" where
  "demo_sel = \<lparr>sw_tasks = demo_tasks\<lparr>tw_sched := run_main_start 1 0 (\<lambda>_. Started) 0\<rparr>, sw_ends = [4 \<mapsto> ReceiverEnd 0], sw_chans = (\<lambda>_. chan_new 1), sw_stdin = stdin_new,
     sw_signals = signals_new, sw_socks = Map.empty, sw_events = ()\<rparr>"

definition demo_suspend :: "nat \<Rightarrow> nat \<Rightarrow> deadline \<Rightarrow> (nat, nat, unit) sel \<Rightarrow> woke \<times> (nat, nat, unit) sel" where
  "demo_suspend t wait d w = (WTimedOut, w)"




theorem select_suspends_registered_witness:
  "wait_any demo_queue 0 None demo_suspend (InTask 1) 5 [StdinLine, Receivable 4] (At 9) demo_sel =
   wait_any demo_queue 0 None (\<lambda>t wait d w. if no_later d (At 9) then demo_suspend t wait d w else (WCancelled, w)) (InTask 1) 5
     [StdinLine, Receivable 4] (At 9) demo_sel"
  by (rule select_suspends_registered) simp

text \<open>
  When re-arming a socket in another worker's queue fails, \<^verbatim>\<open>watch_io\<close> returns the error with the waiter still
  on the socket's list, where the branch that registers it takes it back.
\<close>

lemma failed_rearm_keeps_waiter:
  assumes "\<not> io_closed ios" "io_owner ios = Suc v" "v \<noteq> me" "up v" "io_waiters ios \<noteq> []"
    and "eq_reregister Q v (io_fd ios) e = (Some err, e1)"
  shows "watch_io Q up me t wait writable ios e =
    (Inl err, ios\<lparr>io_waiters := io_waiters ios @ [\<lparr>iw_task = t, iw_wait = wait, iw_writable = writable\<rparr>]\<rparr>, e1)"
  using assms by (simp add: watch_io_def)

end
