(* ===== verification/Scope.thy ===== *)
theory Scope
  imports Tasks
begin

text \<open>
  The scopes behind \<^verbatim>\<open>Task.scope!\<close> (the groups of \<^verbatim>\<open>src/tasks.rs\<close>) over their life: a group is made, tasks are
  added to it while anything else goes on, and \<^verbatim>\<open>roc_group_close\<close> waits for its tasks.  The operations
  are those of \<open>Tasks\<close>; this theory shows that a task added before the closing began is waited for.
\<close>

section \<open>What others do to a task that waits\<close>

text \<open>
  What the rest of the program may do to the task \<open>u\<close> while it is parked in a wait that cannot be
  cancelled: leave the wait, or end it without calling it cancelled; and it must end the wait when
  it finishes a task whose list the wait is on.
\<close>

definition on_list :: "sched \<Rightarrow> nat \<Rightarrow> nat \<Rightarrow> nat \<Rightarrow> nat \<Rightarrow> bool" where
  "on_list s t i u w \<longleftrightarrow> (i, TaskWaker u w) \<in> set (wl_list (t_finish_waiters (tasks s t)))"

definition keeps :: "nat \<Rightarrow> sched \<Rightarrow> sched \<Rightarrow> bool" where
  "keeps u s s' \<longleftrightarrow> next_task s \<le> next_task s' \<and> next_wait s \<le> next_wait s' \<and>
     (\<forall>t < next_task s. t_finished (tasks s t) \<longrightarrow> t_finished (tasks s' t)) \<and>
     t_cancellable (tasks s' u) = t_cancellable (tasks s u) \<and>
     (t_wait (tasks s' u) = t_wait (tasks s u) \<and> woken_as s' u = woken_as s u \<or>
      t_wait (tasks s' u) = 0 \<and> (\<not> t_cancellable (tasks s u) \<longrightarrow> woken_as s' u \<noteq> WCancelled)) \<and>
     (\<forall>t < next_task s. \<forall>i. on_list s t i u (t_wait (tasks s u)) \<longrightarrow> t_wait (tasks s' u) = 0 \<or>
        on_list s' t i u (t_wait (tasks s u)) \<and> t_finished (tasks s' t) = t_finished (tasks s t))"

text \<open>The operations of other tasks and threads, and of the worker that runs \<open>u\<close>.\<close>

inductive other_step :: "nat \<Rightarrow> sched \<Rightarrow> sched \<Rightarrow> bool" for u where
  cancels: "other_step u s (cancel me t s)"
| wakes: "other_step u s (snd (wake_waker me wk s))"
| timers: "other_step u s (fire_timers j s)"
| waits: "t \<noteq> u \<Longrightarrow> other_step u s (snd (begin_wait me t c s))"
| runs: "other_step u s (run_begin j t s)"
| ends: "t \<noteq> u \<or> why = Waiting \<Longrightarrow> other_step u s (run_end j t why s)"
| spawns: "other_step u s (snd (spawn can_map me s))"
| watches: "other_step u s (snd (watch_finished t wk s))"
| joins: "v \<noteq> u \<Longrightarrow> wait_finished_attempt me (InTask v) c t s = Inr (i, s') \<Longrightarrow> other_step u s s'"
| unwatches: "\<not> on_list s t i u (t_wait (tasks s u)) \<Longrightarrow> other_step u s (unwatch_finished t i s)"
| drops: "other_step u s (drop_handle t s)"
| results: "other_step u s (snd (set_result t c s))"

lemma keeps_same:
  assumes "next_task s \<le> next_task s'" "next_wait s \<le> next_wait s'" "\<And>t. t < next_task s \<Longrightarrow> t_finished (tasks s' t) = t_finished (tasks s t)"
    and "t_cancellable (tasks s' u) = t_cancellable (tasks s u)"
    and "t_wait (tasks s' u) = t_wait (tasks s u) \<and> woken_as s' u = woken_as s u \<or>
      t_wait (tasks s' u) = 0 \<and> (\<not> t_cancellable (tasks s u) \<longrightarrow> woken_as s' u \<noteq> WCancelled)"
    and "\<And>t i. t < next_task s \<Longrightarrow> on_list s t i u (t_wait (tasks s u)) \<Longrightarrow> on_list s' t i u (t_wait (tasks s u))"
  shows "keeps u s s'"
  unfolding keeps_def using assms by blast

lemma keeps_cancel: "keeps u s (cancel me t s)"
proof (rule keeps_same)
  show "t_wait (tasks (cancel me t s) u) = t_wait (tasks s u) \<and> woken_as (cancel me t s) u = woken_as s u \<or>
      t_wait (tasks (cancel me t s) u) = 0 \<and> (\<not> t_cancellable (tasks s u) \<longrightarrow> woken_as (cancel me t s) u \<noteq> WCancelled)"
    by (auto simp: cancel_def Let_def wake_wait wake_woke woken_as_def from_u8_def)
qed (auto simp: cancel_def Let_def on_list_def)

lemma keeps_wake_waker: "keeps u s (snd (wake_waker me wk s))"
  by (rule keeps_same; cases wk) (auto simp: wake_wait wake_woke on_list_def woken_as_def from_u8_def)

lemma keeps_fire_timers: "keeps u s (fire_timers j s)"
proof (cases "worker j s")
  case None
  then show ?thesis by (simp add: fire_timers_def keeps_same)
next
  case (Some sh)
  show ?thesis
    by (rule keeps_same) (use Some in \<open>auto simp: fire_timers_def on_list_def woken_as_def from_u8_def wake_timed_out_wait wake_timed_out_woke\<close>)
qed

lemma keeps_begin_wait: "t \<noteq> u \<Longrightarrow> keeps u s (snd (begin_wait me t c s))"
  by (rule keeps_same) (auto simp: begin_wait_def Let_def wake_wait wake_woke on_list_def woken_as_def from_u8_def)

lemma keeps_run_begin: "keeps u s (run_begin j t s)"
  by (rule keeps_same) (auto simp: run_begin_def on_list_def woken_as_def from_u8_def)

lemma keeps_requeue: "keeps u s (requeue j t s)"
proof -
  have "next_task (snd (shared_push j t x)) = next_task x" "next_wait (snd (shared_push j t x)) = next_wait x" for x
    by (simp_all add: shared_push_def Let_def split: option.splits)
  then show ?thesis by (intro keeps_same) (auto simp: requeue_def on_list_def woken_as_def from_u8_def)
qed

lemma finish_task_tasks:
  "next_task (finish_task j t s) = next_task s" "next_wait (finish_task j t s) = next_wait s"
  "t_finished (tasks (finish_task j t s) v) = (v = t \<or> t_finished (tasks s v))"
  "t_cancellable (tasks (finish_task j t s) v) = t_cancellable (tasks s v)"
  "v \<noteq> t \<Longrightarrow> t_finish_waiters (tasks (finish_task j t s) v) = t_finish_waiters (tasks s v)"
  "t_wait (tasks (finish_task j t s) v) =
     (if TaskWaker v (t_wait (tasks s v)) \<in> snd ` set (wl_list (t_finish_waiters (tasks s t))) then 0 else t_wait (tasks s v))"
  "t_woke (tasks (finish_task j t s) v) =
     (if TaskWaker v (t_wait (tasks s v)) \<in> snd ` set (wl_list (t_finish_waiters (tasks s t))) then woke_u8 WReady else t_woke (tasks s v))"
  by (auto simp: finish_task_def Let_def wake_all_def recycle_stack_def wake_each_wait wake_each_woke)

lemma keeps_finish_task:
  assumes "t \<noteq> u"
  shows "keeps u s (finish_task j t s)"
proof -
  have "t_wait (tasks (finish_task j t s) u) = 0 \<or> on_list (finish_task j t s) v i u (t_wait (tasks s u)) \<and>
      t_finished (tasks (finish_task j t s) v) = t_finished (tasks s v)" if "on_list s v i u (t_wait (tasks s u))" for v i
  proof (cases "v = t")
    case True
    then have "TaskWaker u (t_wait (tasks s u)) \<in> snd ` set (wl_list (t_finish_waiters (tasks s t)))"
      using that by (force simp: on_list_def)
    then show ?thesis by (simp add: finish_task_tasks)
  next
    case False
    then show ?thesis using that by (simp add: finish_task_tasks on_list_def)
  qed
  then show ?thesis
    unfolding keeps_def by (auto simp: finish_task_tasks woken_as_def from_u8_def)
qed

lemma keeps_upd_worker: "keeps u (upd_worker j f s) s' \<Longrightarrow> keeps u s s'"
  by (simp add: keeps_def on_list_def woken_as_def from_u8_def)

lemma keeps_run_end: "t \<noteq> u \<or> why = Waiting \<Longrightarrow> keeps u s (run_end j t why s)"
proof (rule keeps_upd_worker [of u j "\<lambda>sh. sh\<lparr>sh_current := None\<rparr>"])
  let ?s = "upd_worker j (\<lambda>sh. sh\<lparr>sh_current := None\<rparr>) s"
  assume "t \<noteq> u \<or> why = Waiting"
  moreover have "keeps u ?s (upd_task t (\<lambda>tk. tk\<lparr>t_state := 0\<rparr>) ?s)"
    by (rule keeps_same) (auto simp: on_list_def woken_as_def from_u8_def)
  ultimately show "keeps u ?s (run_end j t why s)"
    unfolding run_end_def Let_def using keeps_requeue [of u ?s j t] keeps_finish_task [of t u ?s j]
    by (auto split: suspend.splits)
qed

lemma keeps_spawn: "u < next_task s \<Longrightarrow> keeps u s (snd (spawn can_map me s))"
  by (rule keeps_same)
    (auto simp: spawn_def take_stack_def Let_def on_list_def woken_as_def from_u8_def)

lemma keeps_watch: "keeps u s (snd (watch_finished t wk s))"
  by (rule keeps_same) (auto simp: watch_finished_def Let_def case_prod_beta on_list_def woken_as_def from_u8_def add_waker_def)

lemma keeps_join:
  assumes "v \<noteq> u" "wait_finished_attempt me (InTask v) c t s = Inr (i, s')"
  shows "keeps u s s'"
proof -
  have s': "s' = upd_task t (\<lambda>tk. tk\<lparr>t_finish_waiters := \<lparr>wl_list = wl_list (t_finish_waiters (tasks s t)) @
      [(wl_next (t_finish_waiters (tasks s t)) + 1, TaskWaker v (next_wait s))], wl_next = wl_next (t_finish_waiters (tasks s t)) + 1\<rparr>\<rparr>)
      (snd (begin_wait me v c s))"
    using assms(2) by (auto simp: wait_finished_attempt_def add_waiter_task split: if_splits)
  have "tasks (snd (begin_wait me v c s)) x = tasks s x" if "x \<noteq> v" for x
    using that by (auto simp: begin_wait_def Let_def wake_def schedule_def)
  moreover have "t_finished (tasks (snd (begin_wait me v c s)) x) = t_finished (tasks s x)"
    "t_finish_waiters (tasks (snd (begin_wait me v c s)) x) = t_finish_waiters (tasks s x)" for x
    by (auto simp: begin_wait_def Let_def)
  moreover have "next_task (snd (begin_wait me v c s)) = next_task s" "next_wait s \<le> next_wait (snd (begin_wait me v c s))"
    by (simp_all add: begin_wait_def Let_def)
  ultimately show ?thesis
    using assms(1) unfolding s' by (intro keeps_same) (auto simp: on_list_def woken_as_def from_u8_def)
qed

lemma keeps_unwatch:
  assumes "\<not> on_list s t i u (t_wait (tasks s u))"
  shows "keeps u s (unwatch_finished t i s)"
  by (rule keeps_same) (use assms in \<open>auto simp: unwatch_finished_def on_list_def woken_as_def from_u8_def remove_waiter_def\<close>)

lemma keeps_small: "keeps u s (drop_handle t s)" "keeps u s (snd (set_result t c s))"
  by (rule keeps_same; auto simp: drop_handle_def set_result_def on_list_def woken_as_def from_u8_def)+

lemma other_step_keeps: "other_step u s s' \<Longrightarrow> u < next_task s \<Longrightarrow> keeps u s s'"
  by (induction rule: other_step.induct)
    (auto intro: keeps_cancel keeps_wake_waker keeps_fire_timers keeps_begin_wait keeps_run_begin keeps_run_end
      keeps_spawn keeps_watch keeps_join keeps_unwatch keeps_small)

section \<open>Finished tasks stay finished\<close>

definition goes_on :: "sched \<Rightarrow> sched \<Rightarrow> bool" where
  "goes_on s s' \<longleftrightarrow> next_task s \<le> next_task s' \<and> (\<forall>t < next_task s. is_finished t s \<longrightarrow> is_finished t s')"

lemma goes_on_refl [simp]: "goes_on s s"
  by (simp add: goes_on_def)

lemma goes_on_trans: "goes_on s s1 \<Longrightarrow> goes_on s1 s2 \<Longrightarrow> goes_on s s2"
  by (auto simp: goes_on_def)

lemma keeps_goes_on: "keeps u s s' \<Longrightarrow> goes_on s s'"
  by (simp add: keeps_def goes_on_def is_finished_def)

lemma goes_on_same: "next_task s' = next_task s \<Longrightarrow> (\<And>t. is_finished t s' = is_finished t s) \<Longrightarrow> goes_on s s'"
  by (simp add: goes_on_def)

lemma other_steps:
  assumes "(other_step u)\<^sup>*\<^sup>* s s'" "u < next_task s"
  shows "goes_on s s' \<and> next_wait s \<le> next_wait s'"
  using assms
proof (induction rule: rtranclp_induct)
  case (step s1 s2)
  then have k: "keeps u s1 s2" using other_step_keeps [of u s1 s2] by (auto simp: goes_on_def)
  then have "next_wait s1 \<le> next_wait s2" by (simp add: keeps_def)
  then show ?case using step goes_on_trans [OF _ keeps_goes_on [OF k]] by auto
qed simp

lemma goes_on_small [simp]:
  "goes_on s (cancel me t s)" "goes_on s (snd (spawn can_map me s))" "goes_on s (snd (watch_finished t wk s))"
  "goes_on s (unwatch_finished t i s)" "goes_on s (drop_handle t s)" "goes_on s (snd (set_result t c s))"
  by (rule keeps_goes_on [OF keeps_cancel], auto simp: goes_on_def is_finished_def spawn_def take_stack_def Let_def
      unwatch_finished_def drop_handle_def set_result_def watch_finished_def case_prod_beta)

lemma goes_on_cancels [simp]: "goes_on s (cancel_all me ts s)" "goes_on s (cancel_unfinished me ts s)"
  by (induction ts arbitrary: s) (auto intro: goes_on_trans [OF goes_on_small(1)])

lemma goes_on_wake_one [simp]: "goes_on s (snd (wake_one me ws s))"
proof -
  have "goes_on s (snd (wake_first me l s))" for l
  proof (induction l arbitrary: s)
    case (Cons x l)
    have "goes_on s (snd (wake_waker me (snd x) s))" by (rule keeps_goes_on [OF keeps_wake_waker])
    with Cons show ?case by (cases x) (auto simp: case_prod_beta intro: goes_on_trans)
  qed simp
  then show ?thesis by (simp add: wake_one_def case_prod_beta Let_def)
qed

section \<open>A slot that an operation does not touch\<close>

text \<open>The slot \<open>i\<close> of the handles' heap stays in use by the same object, whatever its count of references does.\<close>

definition spares :: "nat \<Rightarrow> task_world \<Rightarrow> task_world \<Rightarrow> bool" where
  "spares i w w' \<longleftrightarrow> goes_on (tw_sched w) (tw_sched w') \<and>
     h_start (tw_heap w') = h_start (tw_heap w) \<and> h_stride (tw_heap w') = h_stride (tw_heap w) \<and>
     length (h_slots (tw_heap w')) = length (h_slots (tw_heap w)) \<and>
     (heap_inv (tw_heap w, []) \<and> i < length (h_slots (tw_heap w)) \<and> h_live (tw_heap w) ! i \<longrightarrow>
        h_live (tw_heap w') ! i \<and> h_generations (tw_heap w') ! i = h_generations (tw_heap w) ! i \<and>
        sl_token (h_slots (tw_heap w') ! i) = sl_token (h_slots (tw_heap w) ! i) \<and>
        sl_resource (h_slots (tw_heap w') ! i) = sl_resource (h_slots (tw_heap w) ! i))"

lemma spares_refl [simp]: "spares i w w"
  by (simp add: spares_def)

lemma spares_trans: "spares i w w1 \<Longrightarrow> calm_op w w1 \<Longrightarrow> spares i w1 w2 \<Longrightarrow> spares i w w2"
  unfolding spares_def calm_op_def using goes_on_trans by auto

lemma spares_heap: "tw_heap w' = tw_heap w \<Longrightarrow> goes_on (tw_sched w) (tw_sched w') \<Longrightarrow> spares i w w'"
  by (simp add: spares_def)

lemma spares_index: "spares i w w' \<Longrightarrow> payload_index (tw_heap w') a = payload_index (tw_heap w) a"
  by (simp add: spares_def payload_index_def base_index_def)

lemma spares_get:
  assumes "spares i w w'" "heap_inv (tw_heap w, [])" "payload_index (tw_heap w) g = Some i" "heap_get (tw_heap w) g = Some ob"
  shows "heap_get (tw_heap w') g = Some ob"
proof -
  have "i < length (h_slots (tw_heap w))" using payload_index_SomeD [OF assms(3)] by simp
  moreover have "h_live (tw_heap w) ! i" using assms(3,4) by (simp add: heap_get_def Let_def split: if_splits)
  ultimately show ?thesis using assms spares_index [OF assms(1)] by (auto simp: heap_get_def spares_def Let_def split: if_splits)
qed

lemma spares_release:
  assumes "base_index (tw_heap w) a \<noteq> Some i"
  shows "spares i w (snd (release_obj me a w))"
proof (cases "release_begin a (tw_heap w)")
  case (Pair out h)
  show ?thesis
  proof (cases out)
    case (Dropping j r)
    define w1 where "w1 = (case r of None \<Rightarrow> w\<lparr>tw_heap := h\<rparr> | Some ob \<Rightarrow> drop_obj ob (w\<lparr>tw_heap := h\<rparr>))"
    have w1: "tw_heap w1 = h" "goes_on (tw_sched w) (tw_sched w1)"
      unfolding w1_def by (cases r; simp; rename_tac ob; case_tac ob; simp add: on_sched_def)+
    have h: "h = (tw_heap w)\<lparr>h_live := (h_live (tw_heap w))[j := False]\<rparr>" "j \<noteq> i"
      using Pair Dropping assms by (auto simp: release_begin_def split: option.splits if_splits)
    obtain h2 s2 where f: "free_slot me j h (tw_sched w1) = (h2, s2)" by fastforce
    have "goes_on (tw_sched w1) (snd (free_slot me j h (tw_sched w1)))" by (simp add: free_slot_def case_prod_beta)
    then have "goes_on (tw_sched w) s2" using goes_on_trans [OF w1(2)] f by simp
    moreover have "snd (release_obj me a w) = w1\<lparr>tw_heap := h2, tw_sched := s2\<rparr>"
      using Pair Dropping f w1(1) w1_def by (simp add: release_obj_def Let_def)
    ultimately show ?thesis using h f by (auto simp: spares_def free_slot_def case_prod_beta)
  qed (use Pair in \<open>auto simp: release_obj_def release_begin_def spares_def split: option.splits if_splits\<close>)
qed

lemma release_slots: "h_slots (tw_heap (snd (release_obj me a w))) = h_slots (tw_heap w)"
proof (cases "release_begin a (tw_heap w)")
  case (Pair out h)
  then have "h_slots h = h_slots (tw_heap w)" using release_frame(6) [of a "tw_heap w"] by simp
  moreover have "tw_heap (drop_obj ob x) = tw_heap x" for ob x by (cases ob) (simp_all add: on_sched_def)
  ultimately show ?thesis using Pair by (cases out) (auto simp: release_obj_def free_slot_def case_prod_beta Let_def split: option.splits)
qed

text \<open>Another reference to the object at an address, taken by compiled Roc code.\<close>

definition refcount_at :: "nat \<Rightarrow> task_world \<Rightarrow> int" where
  "refcount_at a w = (case payload_index (tw_heap w) a of None \<Rightarrow> 0 | Some i \<Rightarrow> sl_refcount (h_slots (tw_heap w) ! i))"

definition set_refcount :: "nat \<Rightarrow> int \<Rightarrow> task_world \<Rightarrow> task_world" where
  "set_refcount a n w =
     (case payload_index (tw_heap w) a of
        None \<Rightarrow> w
      | Some i \<Rightarrow> w\<lparr>tw_heap := (tw_heap w)\<lparr>h_slots := (h_slots (tw_heap w))[i := (h_slots (tw_heap w) ! i)\<lparr>sl_refcount := n\<rparr>]\<rparr>\<rparr>)"

definition roc_copies :: "nat \<Rightarrow> task_world \<Rightarrow> task_world" where
  "roc_copies a w = set_refcount a (refcount_at a w + 1) w"

lemma spares_refcount: "spares i w (set_refcount a n w)"
  by (cases "payload_index (tw_heap w) a = Some i")
    (auto simp: set_refcount_def spares_def nth_list_update split: option.splits)

lemma calm_refcount: "calm_op w (set_refcount a n w)"
  by (auto simp: set_refcount_def calm_op_def intro!: heap_inv_slot split: option.splits)

lemma decref_eq:
  "decref_handle me a w =
     (if refcount_at a w = 0 then w
      else if refcount_at a w = 1 then snd (release_obj me (a - 8) (set_refcount a 0 w))
      else set_refcount a (refcount_at a w - 1) w)"
  by (simp add: decref_handle_def refcount_at_def set_refcount_def Let_def split: option.splits)

lemma spares_decref:
  assumes "payload_index (tw_heap w) a \<noteq> Some i \<or> refcount_at a w \<noteq> 1"
  shows "spares i w (decref_handle me a w)"
proof (cases "refcount_at a w = 1")
  case True
  then have "base_index (tw_heap w) (a - 8) \<noteq> Some i"
    using assms by (auto simp: payload_index_def refcount_at_def split: if_splits)
  then have "base_index (tw_heap (set_refcount a 0 w)) (a - 8) \<noteq> Some i"
    by (auto simp: set_refcount_def base_index_def split: option.splits)
  then show ?thesis using True spares_trans [OF spares_refcount calm_refcount spares_release] by (simp add: decref_eq)
qed (simp add: decref_eq spares_refcount)

lemma decref_refcount:
  assumes "payload_index (tw_heap w) a \<noteq> payload_index (tw_heap w) g"
  shows "refcount_at g (decref_handle me a w) = refcount_at g w"
proof -
  have "payload_index (tw_heap (decref_handle me a w)) g = payload_index (tw_heap w) g"
  proof (cases "payload_index (tw_heap w) a")
    case None
    then show ?thesis by (simp add: decref_handle_def)
  next
    case (Some j)
    then show ?thesis using spares_index [OF spares_decref [of w a "Suc j"]] by simp
  qed
  moreover have "h_slots (tw_heap (decref_handle me a w)) ! j = h_slots (tw_heap w) ! j" if "payload_index (tw_heap w) a \<noteq> Some j" for j
    using that by (auto simp: decref_eq release_slots set_refcount_def split: option.splits)
  ultimately show ?thesis using assms by (auto simp: refcount_at_def split: option.splits)
qed

lemma other_address:
  assumes "payload_index h g = Some i" "a \<noteq> g"
  shows "payload_index h a \<noteq> Some i"
  using payload_index_SomeD [of h a i] payload_index_SomeD [OF assms(1)] assms(2) by auto

lemma spares_with_obj:
  assumes "\<And>ob. spares i w (snd (f ob w))" "\<And>ob. calm_op w (snd (f ob w))" "payload_index (tw_heap w) a \<noteq> Some i"
  shows "spares i w (snd (with_obj me a f w))"
proof -
  let ?w = "snd (f (heap_get (tw_heap w) a) w)"
  have "spares i ?w (decref_handle me a ?w)"
    using spares_index [OF assms(1)] assms(3) by (intro spares_decref) simp
  then show ?thesis using spares_trans [OF assms(1,2)] by (simp add: with_obj_def case_prod_beta)
qed

lemma spares_set_group: "payload_index (tw_heap w) a \<noteq> Some i \<Longrightarrow> spares i w (set_group a ts w)"
  by (auto simp: set_group_def spares_def split: option.splits)

lemma spares_insert:
  assumes "try_reserve (tw_heap w) = Some (j, h)" "tw_heap w' = snd (heap_insert j r h)" "goes_on (tw_sched w) (tw_sched w')"
  shows "spares i w w'"
proof -
  have h: "h = (tw_heap w)\<lparr>h_free := butlast (h_free (tw_heap w))\<rparr>" "j \<in> set (h_free (tw_heap w))"
    using assms(1) by (auto simp: try_reserve_Some)
  then have "j \<noteq> i" if "heap_inv (tw_heap w, [])" "h_live (tw_heap w) ! i" using that by (auto simp: heap_inv_def heap_part_def)
  then show ?thesis using assms(2,3) h(1) by (auto simp: spares_def heap_insert_def Let_def)
qed

section \<open>The life of a scope\<close>

text \<open>
  What the program may do besides adding to the group \<open>g\<close> and closing it: any operation on tasks and other
  handles and groups, copying references, giving up a reference to the group that is not the last,
  and the scheduler's own steps, as seen by some task \<open>v\<close> that takes no part in them.
\<close>

inductive elsewhere :: "nat \<Rightarrow> nat \<Rightarrow> task_world \<Rightarrow> task_world \<Rightarrow> bool" for limit g where
  spawn: "elsewhere limit g w (snd (task_spawn limit can_map me c w))"
| spawn_host: "elsewhere limit g w (snd (spawn_host limit can_map me w))"
| job_done: "tw_jobs w t \<noteq> None \<Longrightarrow> elsewhere limit g w (job_done t w)"
| finish: "elsewhere limit g w (snd (task_finish r c w))"
| join: "a \<noteq> g \<Longrightarrow> elsewhere limit g w (snd (task_join_end me a t how w))"
| cancel: "a \<noteq> g \<Longrightarrow> elsewhere limit g w (task_cancel me a w)"
| is_finished: "a \<noteq> g \<Longrightarrow> elsewhere limit g w (snd (task_is_finished me a w))"
| watch: "elsewhere limit g w (snd (watch_task a wk w))"
| unwatch: "elsewhere limit g w (unwatch_task a i w)"
| group_new: "elsewhere limit g w (snd (group_new w))"
| group_add: "g' \<noteq> g \<Longrightarrow> a \<noteq> g \<Longrightarrow> elsewhere limit g w (group_add me g' a w)"
| group_cancel: "g' \<noteq> g \<or> 1 < refcount_at g w \<Longrightarrow> elsewhere limit g w (group_cancel me g' w)"
| close_begin: "g' \<noteq> g \<Longrightarrow> elsewhere limit g w (snd (group_close_begin me g' c w))"
| close_end: "g' \<noteq> g \<Longrightarrow> elsewhere limit g w (group_close_end me g' w)"
| drops: "a \<noteq> g \<or> 1 < refcount_at g w \<Longrightarrow> elsewhere limit g w (decref_handle me a w)"
| copies: "elsewhere limit g w (roc_copies a w)"
| scheduler: "v < next_task (tw_sched w) \<Longrightarrow> other_step v (tw_sched w) s \<Longrightarrow> elsewhere limit g w (w\<lparr>tw_sched := s\<rparr>)"

lemma elsewhere_ok:
  assumes "elsewhere limit g w w'" "tasks_ok limit w"
  shows "tasks_ok limit w'"
  using assms
proof (induction rule: elsewhere.induct)
  case (scheduler v w s)
  have "next_task (tw_sched w) \<le> next_task s" using other_step_keeps [OF scheduler(2,1)] by (simp add: keeps_def)
  then show ?case using scheduler(3) by (rule task_op_ok [OF task_op.scheduler_op])
qed (auto intro: task_op_ok [rotated] task_op.intros calm_ok [OF calm_refcount] calm_ok [OF calm_decref] simp: roc_copies_def)

lemma spares_spawn: "spares i w (snd (task_spawn limit can_map me c w))"
proof (cases "tw_live w < limit \<and> try_reserve (tw_heap w) \<noteq> None")
  case False
  then show ?thesis
    by (auto simp: task_spawn_def try_claim_slot_def drop_slot_def decref_closure_def intro!: spares_heap split: option.splits)
next
  case True
  then obtain j h where res: "try_reserve (tw_heap w) = Some (j, h)" and live: "tw_live w < limit" by auto
  obtain r s where sp: "spawn can_map me (tw_sched w) = (r, s)" by fastforce
  have go: "goes_on (tw_sched w) s" using goes_on_small(2) [of "tw_sched w" can_map me] sp by simp
  show ?thesis
  proof (cases r)
    case None
    obtain h3 s3 where f: "free_slot me j h s = (h3, s3)" by fastforce
    have "goes_on s (snd (free_slot me j h s))" by (simp add: free_slot_def case_prod_beta)
    then have "goes_on (tw_sched w) s3" using goes_on_trans [OF go] f by simp
    moreover have "tw_heap (snd (task_spawn limit can_map me c w)) = h3" "tw_sched (snd (task_spawn limit can_map me c w)) = s3"
      using live res sp None f by (simp_all add: task_spawn_def try_claim_slot_def drop_slot_def decref_closure_def)
    moreover have "h_start h3 = h_start (tw_heap w)" "h_stride h3 = h_stride (tw_heap w)" "h_slots h3 = h_slots (tw_heap w)"
      "h_live h3 = h_live (tw_heap w)" "h_generations h3 = h_generations (tw_heap w)"
      using f res by (auto simp: free_slot_def try_reserve_Some case_prod_beta)
    ultimately show ?thesis by (simp add: spares_def)
  next
    case (Some t)
    then show ?thesis using live res sp go
      by (intro spares_insert [OF res, of _ "HandleObj t"]) (simp_all add: task_spawn_def try_claim_slot_def case_prod_beta Let_def)
  qed
qed

lemma spares_cancels:
  "spares i w (on_sched (cancel me t) w)" "spares i w (on_sched (cancel_all me ts) w)" "spares i w (on_sched (cancel_unfinished me ts) w)"
  by (simp_all add: on_sched_def spares_heap)

lemma spares_group_cancel:
  assumes "payload_index (tw_heap w) g = Some i" "g' \<noteq> g \<or> 1 < refcount_at g w"
  shows "spares i w (group_cancel me g' w)"
proof -
  let ?w = "case heap_get (tw_heap w) g' of Some (GroupObj ts) \<Rightarrow> on_sched (cancel_unfinished me ts) w | _ \<Rightarrow> w"
  have h: "tw_heap ?w = tw_heap w" by (simp add: on_sched_def split: option.splits task_obj.splits)
  have s: "spares i w ?w" and c: "calm_op w ?w"
    by (auto intro: spares_cancels calm_on_sched split: option.splits task_obj.splits)
  have "payload_index (tw_heap ?w) g' \<noteq> Some i \<or> refcount_at g' ?w \<noteq> 1"
    using other_address [OF assms(1), of g'] assms(2) unfolding refcount_at_def h by (cases "g' = g") auto
  from spares_trans [OF s c spares_decref [OF this]] show ?thesis
    by (simp add: group_cancel_def with_obj_def case_prod_beta)
qed

lemma spares_group_add:
  assumes "payload_index (tw_heap w) g' \<noteq> Some i" "payload_index (tw_heap w) a \<noteq> Some i"
  shows "spares i w (group_add me g' a w)"
proof -
  let ?f = "\<lambda>ob w. (case ob of Some (HandleObj t) \<Rightarrow> Some t | _ \<Rightarrow> None, w)"
  obtain task w1 where 1: "with_obj me a ?f w = (task, w1)" by fastforce
  have s1: "spares i w w1" using spares_with_obj [of i w ?f a me] assms(2) 1 by simp
  have c1: "calm_op w w1" using calm_with_obj [of ?f w me a] 1 by simp
  have g: "payload_index (tw_heap w1) g' \<noteq> Some i" using spares_index [OF s1] assms(1) by simp
  have "spares i w1 (snd (with_obj me g' (\<lambda>ob w. ((), case ob of Some (GroupObj ts) \<Rightarrow> set_group g' (f w ts) w | _ \<Rightarrow> w)) w1))" for f
    by (rule spares_with_obj) (auto intro: spares_set_group [OF g] simp: g split: option.splits task_obj.splits)
  moreover have "spares i w1 (snd (with_obj me g' (\<lambda>_ w. ((), w)) w1))" by (rule spares_with_obj) (simp_all add: g)
  ultimately show ?thesis using spares_trans [OF s1 c1] 1 by (simp add: group_add_def split: option.splits)
qed

lemma elsewhere_spares:
  assumes "elsewhere limit g w w'" "payload_index (tw_heap w) g = Some i"
  shows "spares i w w'"
  using assms
proof (induction rule: elsewhere.induct)
  case (spawn w can_map me c)
  show ?case by (rule spares_spawn)
next
  case (spawn_host w can_map me)
  obtain r s where sp: "spawn can_map me (tw_sched w) = (r, s)" by fastforce
  have "goes_on (tw_sched w) s" using goes_on_small(2) [of "tw_sched w" can_map me] sp by simp
  then show ?case using sp
    by (auto simp: spawn_host_def try_claim_slot_def drop_slot_def intro!: spares_heap split: option.splits)
next
  case (finish w r c)
  show ?case
    by (cases r) (auto simp: set_result_def decref_closure_def Let_def is_finished_def intro!: spares_heap goes_on_same split: option.splits if_splits)
next
  case (join a w me t how)
  let ?w = "snd (case t of None \<Rightarrow> (None, w) | Some t \<Rightarrow> if how = WCancelled then (None, w) else join_result t w)"
  have "tw_heap ?w = tw_heap w" "tw_sched ?w = tw_sched w"
    by (auto simp: join_result_def incref_closure_def split: option.splits)
  moreover have "calm_op w ?w" by (auto simp: join_result_def split: option.splits)
  ultimately show ?case using spares_trans [OF spares_heap _ spares_decref, of ?w w a i me] other_address [OF join(2,1)]
    by (simp add: task_join_end_def case_prod_beta Let_def)
next
  case (cancel a w me)
  then show ?case unfolding task_cancel_def
    by (intro spares_with_obj) (auto intro: spares_cancels dest: other_address split: option.splits task_obj.splits)
next
  case (is_finished a w me)
  then show ?case unfolding task_is_finished_def by (intro spares_with_obj) (auto dest: other_address)
next
  case (watch w a wk)
  show ?case by (auto simp: watch_task_def case_prod_beta intro!: spares_heap split: option.splits task_obj.splits)
next
  case (unwatch w a j)
  show ?case by (auto simp: unwatch_task_def on_sched_def intro!: spares_heap split: option.splits task_obj.splits)
next
  case (group_new w)
  show ?case
    by (cases "try_reserve (tw_heap w)") (auto simp: group_new_def case_prod_beta Let_def intro!: spares_insert)
next
  case (group_add g' a w me)
  then show ?case by (intro spares_group_add) (auto dest: other_address)
next
  case (group_cancel g' w me)
  then show ?case by (intro spares_group_cancel)
next
  case (close_begin g' w me c)
  then have n: "payload_index (tw_heap w) g' \<noteq> Some i" by (auto dest: other_address)
  have "spares i w (on_sched (cancel_all me ts) (set_group g' [] w))" for ts
    by (rule spares_trans [OF spares_set_group [OF n] calm_set_group spares_cancels(2)])
  then show ?case using spares_set_group [OF n] by (auto simp: group_close_begin_def Let_def split: option.splits task_obj.splits)
next
  case (drops a w me)
  then show ?case by (cases "a = g") (auto intro!: spares_decref dest: other_address)
next
  case (scheduler v w s)
  then show ?case using keeps_goes_on [OF other_step_keeps] by (simp add: spares_heap)
qed (auto simp: job_done_def drop_slot_def group_close_end_def roc_copies_def spares_refcount
  intro!: spares_heap spares_decref dest: other_address)

text \<open>
  A scope with the tasks \<open>A\<close> added to it so far: its group is made; the handle of a task is added to it by a call that
  gives up one of several references, since the scope keeps its own until it closes; and anything else
  goes on in between.  The group's slot must have a generation left, so that its token is not truncated.
\<close>

inductive scope_open :: "nat \<Rightarrow> nat \<Rightarrow> nat list \<Rightarrow> task_world \<Rightarrow> bool" for limit g where
  opens: "tasks_ok limit w \<Longrightarrow> generations_ok (tw_heap w) \<Longrightarrow>
    \<forall>i \<in> set (h_free (tw_heap w)). unat (h_generations (tw_heap w) ! i) + 1 < 2 ^ 48 \<Longrightarrow>
    group_new w = (Some g, w') \<Longrightarrow> scope_open limit g [] w'"
| adds: "scope_open limit g A w \<Longrightarrow> task_of a w = Some t \<Longrightarrow> t < next_task (tw_sched w) \<Longrightarrow> 1 < refcount_at g w \<Longrightarrow>
    scope_open limit g (A @ [t]) (group_add me g a w)"
| others: "scope_open limit g A w \<Longrightarrow> elsewhere limit g w w' \<Longrightarrow> scope_open limit g A w'"

definition scope_inv :: "nat \<Rightarrow> nat \<Rightarrow> nat list \<Rightarrow> task_world \<Rightarrow> bool" where
  "scope_inv limit g A w \<longleftrightarrow> tasks_ok limit w \<and> (\<forall>t \<in> set A. t < next_task (tw_sched w)) \<and>
     (\<exists>ts. heap_get (tw_heap w) g = Some (GroupObj ts) \<and> (\<forall>t \<in> set A. t \<in> set ts \<or> is_finished t (tw_sched w)))"

lemma heap_get_index: "heap_get h g = Some ob \<Longrightarrow> \<exists>i. payload_index h g = Some i"
  by (auto simp: heap_get_def split: option.splits)

lemma spares_scope_inv:
  assumes "scope_inv limit g A w" "tasks_ok limit w'" "payload_index (tw_heap w) g = Some i" "spares i w w'"
  shows "scope_inv limit g A w'"
proof -
  have "goes_on (tw_sched w) (tw_sched w')" using assms(4) by (simp add: spares_def)
  moreover have "heap_inv (tw_heap w, [])" using assms(1) by (simp add: scope_inv_def tasks_ok_def)
  ultimately show ?thesis using assms(1,2) spares_get [OF assms(4) _ assms(3)]
    unfolding scope_inv_def goes_on_def by (meson order_less_le_trans)
qed

lemma index_update: "payload_index (h\<lparr>h_slots := (h_slots h)[k := x]\<rparr>) a = payload_index h a"
  by (simp add: payload_index_def base_index_def)

lemma set_group_index: "payload_index (tw_heap (set_group g ts w)) a = payload_index (tw_heap w) a"
  by (simp add: set_group_def index_update split: option.splits)

lemma set_group_get:
  assumes "heap_get (tw_heap w) g = Some ob"
  shows "heap_get (tw_heap (set_group g ts w)) g = Some (GroupObj ts)" "refcount_at g (set_group g ts w) = refcount_at g w"
    "tw_sched (set_group g ts w) = tw_sched w"
proof -
  obtain i where i: "payload_index (tw_heap w) g = Some i" using heap_get_index [OF assms] by blast
  then have l: "i < length (h_slots (tw_heap w))" using payload_index_SomeD by blast
  show "heap_get (tw_heap (set_group g ts w)) g = Some (GroupObj ts)" "refcount_at g (set_group g ts w) = refcount_at g w"
    "tw_sched (set_group g ts w) = tw_sched w"
    using assms i l by (auto simp: set_group_def heap_get_def refcount_at_def index_update Let_def split: if_splits)
qed

lemma group_add_group:
  assumes "scope_inv limit g A w" "task_of a w = Some t" "t < next_task (tw_sched w)" "1 < refcount_at g w"
  shows "scope_inv limit g (A @ [t]) (group_add me g a w)"
proof -
  obtain ts i where ts: "heap_get (tw_heap w) g = Some (GroupObj ts)" and i: "payload_index (tw_heap w) g = Some i"
    using assms(1) heap_get_index by (fastforce simp: scope_inv_def)
  have a: "heap_get (tw_heap w) a = Some (HandleObj t)" using assms(2) by (auto simp: task_of_def split: option.splits task_obj.splits)
  then have "a \<noteq> g" using ts by auto
  then have ai: "payload_index (tw_heap w) a \<noteq> Some i" using other_address [OF i] by simp
  define w1 where "w1 = decref_handle me a w"
  have s1: "spares i w w1" unfolding w1_def using ai by (intro spares_decref) simp
  have i1: "scope_inv limit g A w1"
    using spares_scope_inv [OF assms(1) _ i s1] calm_ok [OF calm_decref] assms(1) by (simp add: scope_inv_def w1_def)
  have ts1: "heap_get (tw_heap w1) g = Some (GroupObj ts)"
    using spares_get [OF s1 _ i ts] assms(1) by (simp add: scope_inv_def tasks_ok_def)
  have r1: "refcount_at g w1 = refcount_at g w" unfolding w1_def using ai i by (intro decref_refcount) simp
  define w2 where "w2 = set_group g (filter (\<lambda>u. \<not> is_finished u (tw_sched w1)) ts @ [t]) w1"
  note g2 = set_group_get [OF ts1, of "filter (\<lambda>u. \<not> is_finished u (tw_sched w1)) ts @ [t]", folded w2_def]
  have "t < next_task (tw_sched w1)" using assms(3) s1 by (simp add: spares_def goes_on_def)
  moreover have "tasks_ok limit w2" using i1 calm_ok [OF calm_set_group] by (simp add: w2_def scope_inv_def)
  ultimately have i2: "scope_inv limit g (A @ [t]) w2" using i1 ts1 g2 by (auto simp: scope_inv_def)
  have p2: "payload_index (tw_heap w2) g = Some i"
    using spares_index [OF s1] i by (simp add: w2_def set_group_index)
  have s2: "spares i w2 (decref_handle me g w2)" using g2(2) r1 assms(4) by (intro spares_decref) simp
  have "tasks_ok limit w2" using i2 by (simp add: scope_inv_def)
  from spares_scope_inv [OF i2 calm_ok [OF calm_decref this] p2 s2]
  have "scope_inv limit g (A @ [t]) (decref_handle me g w2)" .
  then show ?thesis using a ts1 by (simp add: group_add_def with_obj_def w1_def w2_def)
qed

lemma scope_open_inv: "scope_open limit g A w \<Longrightarrow> scope_inv limit g A w"
proof (induction rule: scope_open.induct)
  case (opens w w')
  then obtain i h where r: "try_reserve (tw_heap w) = Some (i, h)" and g: "g = token_address h i"
    and w': "w' = w\<lparr>tw_heap := snd (heap_insert i (GroupObj []) h)\<rparr>"
    by (auto simp: group_new_def heap_insert_def Let_def split: option.splits)
  have h: "heap_inv (tw_heap w, [])" using opens(1) by (simp add: tasks_ok_def)
  note inv = insert_ready(2) [OF h r]
  have i: "i \<in> set (h_free (tw_heap w))" "h = (tw_heap w)\<lparr>h_free := butlast (h_free (tw_heap w))\<rparr>" using r by (auto simp: try_reserve_Some)
  have "heap_get (snd (heap_insert i (GroupObj []) h)) (token_address h i) = Some (GroupObj [])"
    using insert_get [of h "[i]" i "GroupObj []"] inv opens(2,3) i insert_frame(7) [of i "GroupObj []" h]
    by (auto simp: heap_inv_def generations_ok_def)
  moreover have "tasks_ok limit w'" using task_op_ok [OF task_op.group_new_op opens(1)] opens(4) by (metis snd_conv)
  ultimately show ?case using g w' by (simp add: scope_inv_def)
next
  case (adds A w a t me)
  then show ?case by (intro group_add_group)
next
  case (others A w w')
  then obtain i where i: "payload_index (tw_heap w) g = Some i" using heap_get_index by (fastforce simp: scope_inv_def)
  have "tasks_ok limit w" using others(3) by (simp add: scope_inv_def)
  with spares_scope_inv [OF others(3) elsewhere_ok [OF others(2)] i elsewhere_spares [OF others(2) i]] show ?case by simp
qed

section \<open>Closing a scope\<close>

text \<open>
  A scope closed by the task \<open>u\<close>, with the tasks \<open>ts\<close> taken from its group in the state \<open>s0\<close>: done, or parked with a list id
  and a wait id before the tasks left.  Its own turns alternate with anything that others do.
\<close>

fun parked_at :: "sched \<Rightarrow> sched + nat \<times> nat list \<times> sched \<Rightarrow> sched + nat \<times> nat \<times> nat list \<times> sched" where
  "parked_at s (Inl s') = Inl s'"
| "parked_at s (Inr (i, rest, s')) = Inr (i, next_wait s, rest, s')"

inductive closing :: "nat \<Rightarrow> sched \<Rightarrow> nat list \<Rightarrow> sched + nat \<times> nat \<times> nat list \<times> sched \<Rightarrow> bool" for u s0 ts where
  starts: "u < next_task s0 \<Longrightarrow> \<forall>t \<in> set ts. t < next_task s0 \<Longrightarrow> 0 < next_wait s0 \<Longrightarrow> (other_step u)\<^sup>*\<^sup>* s0 s \<Longrightarrow>
    close_wait me (InTask u) ts s = x \<Longrightarrow> closing u s0 ts (parked_at s x)"
| meanwhile: "closing u s0 ts (Inr (i, w, rest, s)) \<Longrightarrow> other_step u s s' \<Longrightarrow> closing u s0 ts (Inr (i, w, rest, s'))"
| resumes: "closing u s0 ts (Inr (i, w, rest, s)) \<Longrightarrow> t_wait (tasks s u) \<noteq> w \<Longrightarrow>
    close_again me (InTask u) i rest (woken_as s u) s = x \<Longrightarrow> closing u s0 ts (parked_at s x)"

definition close_inv :: "nat \<Rightarrow> sched \<Rightarrow> nat list \<Rightarrow> sched + nat \<times> nat \<times> nat list \<times> sched \<Rightarrow> bool" where
  "close_inv u s0 ts c = (case c of
     Inl s \<Rightarrow> goes_on s0 s \<and> (\<forall>t \<in> set ts. is_finished t s)
   | Inr (i, w, rest, s) \<Rightarrow> goes_on s0 s \<and>
       (\<exists>pre. ts = pre @ rest \<and> (\<forall>t \<in> set pre. is_finished t s)) \<and> rest \<noteq> [] \<and> u < next_task s \<and>
       (\<forall>t \<in> set ts. t < next_task s) \<and> 0 < w \<and> 0 < next_wait s \<and>
       \<not> t_cancellable (tasks s u) \<and> woken_as s u \<noteq> WCancelled \<and>
       (t_wait (tasks s u) = w \<and> on_list s (hd rest) i u w \<and> \<not> is_finished (hd rest) s \<or> t_wait (tasks s u) = 0))"

lemma attempt_uncancellable:
  assumes "wait_finished_attempt me (InTask u) False t s = Inr (i, s')" "0 < next_wait s"
  shows "\<not> is_finished t s" "is_finished v s' = is_finished v s" "next_task s' = next_task s" "0 < next_wait s'"
    "\<not> t_cancellable (tasks s' u)" "woken_as s' u = WReady" "t_wait (tasks s' u) = next_wait s" "on_list s' t i u (next_wait s)"
proof -
  have i: "i = wl_next (t_finish_waiters (tasks s t)) + 1"
    and s': "s' = upd_task t (\<lambda>tk. tk\<lparr>t_finish_waiters := \<lparr>wl_list = wl_list (t_finish_waiters (tasks s t)) @
      [(wl_next (t_finish_waiters (tasks s t)) + 1, TaskWaker u (next_wait s))], wl_next = wl_next (t_finish_waiters (tasks s t)) + 1\<rparr>\<rparr>)
      (snd (begin_wait me u False s))"
    and nf: "\<not> t_finished (tasks s t)"
    using assms(1) by (auto simp: wait_finished_attempt_def add_waiter_task split: if_splits)
  show "\<not> is_finished t s" using nf by (simp add: is_finished_def)
  show "is_finished v s' = is_finished v s" "next_task s' = next_task s" "0 < next_wait s'"
    "\<not> t_cancellable (tasks s' u)" "woken_as s' u = WReady" "t_wait (tasks s' u) = next_wait s" "on_list s' t i u (next_wait s)"
    by (auto simp: s' i is_finished_def begin_wait_def Let_def woken_as_def from_u8_def on_list_def)
qed

lemma close_wait_inv:
  assumes "u < next_task s" "\<forall>t \<in> set ts. t < next_task s" "0 < next_wait s" "goes_on s0 s"
    "close_wait me (InTask u) rest s = x" "ts = pre @ rest" "\<forall>t \<in> set pre. is_finished t s"
  shows "close_inv u s0 ts (parked_at s x)"
  using assms(5-7)
proof (induction rest arbitrary: pre x)
  case Nil
  then show ?case using assms(4) by (auto simp: close_inv_def)
next
  case (Cons t rest)
  show ?case
  proof (cases "wait_finished_attempt me (InTask u) False t s")
    case (Inl k)
    then have "is_finished t s" by (auto simp: wait_finished_attempt_def is_finished_def split: if_splits prod.splits)
    then show ?thesis using Cons.IH [of x "pre @ [t]"] Cons(2-4) Inl by auto
  next
    case (Inr y)
    obtain i s' where y: "y = (i, s')" by fastforce
    note e = attempt_uncancellable [OF Inr [unfolded y] assms(3)]
    have "goes_on s0 s'" using goes_on_trans [OF assms(4) goes_on_same] e(2,3) by simp
    then show ?thesis
      using Cons(2-4) Inr y e assms(1-3) by (auto simp: close_inv_def)
  qed
qed

lemma closing_inv: "closing u s0 ts c \<Longrightarrow> close_inv u s0 ts c"
proof (induction rule: closing.induct)
  case (starts s me x)
  have o: "goes_on s0 s" "next_wait s0 \<le> next_wait s" using other_steps [OF starts(4,1)] by auto
  then have "u < next_task s" "\<forall>t \<in> set ts. t < next_task s" "0 < next_wait s"
    using starts(1-3) by (auto simp: goes_on_def intro: order_less_le_trans)
  from close_wait_inv [OF this o(1) starts(5), of "[]"] show ?case by simp
next
  case (meanwhile i w rest s s')
  have inv: "close_inv u s0 ts (Inr (i, w, rest, s))" by fact
  have k: "keeps u s s'" using other_step_keeps [OF meanwhile(2)] inv by (simp add: close_inv_def)
  have "goes_on s0 s'" using goes_on_trans [OF _ keeps_goes_on [OF k]] inv by (simp add: close_inv_def)
  moreover obtain pre where pre: "ts = pre @ rest" "\<forall>t \<in> set pre. is_finished t s" "rest \<noteq> []" "u < next_task s" "\<forall>t \<in> set ts. t < next_task s"
    using inv by (auto simp: close_inv_def)
  moreover have "\<forall>t \<in> set pre. is_finished t s'" using pre k by (auto simp: keeps_def is_finished_def)
  moreover have "t_wait (tasks s' u) = w \<and> on_list s' (hd rest) i u w \<and> \<not> is_finished (hd rest) s' \<or> t_wait (tasks s' u) = 0"
  proof (cases "t_wait (tasks s u) = w")
    case True
    then have a: "on_list s (hd rest) i u (t_wait (tasks s u))" "\<not> is_finished (hd rest) s" using inv by (auto simp: close_inv_def)
    moreover have "hd rest < next_task s" using pre(1,3,5) by (cases rest) auto
    ultimately show ?thesis using k True unfolding keeps_def is_finished_def by metis
  next
    case False
    then show ?thesis using inv k by (auto simp: close_inv_def keeps_def)
  qed
  moreover have "\<not> t_cancellable (tasks s' u) \<and> woken_as s' u \<noteq> WCancelled \<and> 0 < next_wait s'"
    using inv k by (auto simp: close_inv_def keeps_def)
  moreover have "next_task s \<le> next_task s'" using k by (simp add: keeps_def)
  ultimately show ?case using inv pre unfolding close_inv_def by (auto intro: order_less_le_trans)
next
  case (resumes i w rest s me x)
  have inv: "close_inv u s0 ts (Inr (i, w, rest, s))" by fact
  obtain pre t rest' where pre: "ts = pre @ t # rest'" "rest = t # rest'" "\<forall>t \<in> set pre. is_finished t s"
    using inv by (cases rest) (auto simp: close_inv_def)
  let ?s = "unwatch_finished t i s"
  have fr: "is_finished v ?s = is_finished v s" "next_task ?s = next_task s" "next_wait ?s = next_wait s" for v
    by (auto simp: unwatch_finished_def is_finished_def)
  have "woken_as s u \<noteq> WCancelled" using inv by (simp add: close_inv_def)
  then have x: "close_wait me (InTask u) rest ?s = x"
    using resumes(3) pre(2) by (simp add: wait_finished_again_def Let_def split: sum.splits prod.splits)
  have go: "goes_on s0 ?s" using goes_on_trans [OF _ goes_on_small(4)] inv by (simp add: close_inv_def)
  have "u < next_task ?s" "\<forall>t \<in> set ts. t < next_task ?s" "0 < next_wait ?s" "ts = pre @ rest" "\<forall>t \<in> set pre. is_finished t ?s"
    using inv pre fr by (auto simp: close_inv_def)
  from close_wait_inv [OF this(1-3) go x this(4,5)] have "close_inv u s0 ts (parked_at ?s x)" .
  moreover have "parked_at ?s x = parked_at s x" using fr(3) by (cases x) auto
  ultimately show ?case by simp
qed

lemma close_begin_takes:
  assumes "scope_inv limit g A w" "group_close_begin me g c w = (ts, w1)" "t \<in> set A"
  shows "t < next_task (tw_sched w1) \<and> (t \<in> set ts \<or> is_finished t (tw_sched w1))"
proof -
  obtain ts' where ts': "heap_get (tw_heap w) g = Some (GroupObj ts')" "t \<in> set ts' \<or> is_finished t (tw_sched w)" "t < next_task (tw_sched w)"
    using assms(1,3) by (auto simp: scope_inv_def)
  have "ts = ts'" "goes_on (tw_sched w) (tw_sched w1)"
    using assms(2) ts'(1) set_group_get(3) [OF ts'(1)] by (auto simp: group_close_begin_def Let_def on_sched_def split: if_splits)
  then show ?thesis using ts' by (auto simp: goes_on_def intro: order_less_le_trans)
qed

text \<open>
  C9. A scope is left only when every task added to it before the closing began has finished, whatever else
  happens before and meanwhile, and even if the task that closes it is cancelled; and it is never left
  asleep for nothing: while it sleeps, the task it waits for has not finished and has the sleeper on
  its list.  (A task added while the scope is being closed is not waited for.)
\<close>

theorem scope_waits_for_all:
  assumes "scope_open limit g A w" "group_close_begin me g c w = (ts, w1)" "closing u (tw_sched w1) ts x"
  shows "case x of
      Inl s \<Rightarrow> \<forall>t \<in> set A. is_finished t s
    | Inr (i, n, rest, s) \<Rightarrow> t_wait (tasks s u) = n \<longrightarrow>
        \<not> is_finished (hd rest) s \<and> (i, TaskWaker u n) \<in> set (wl_list (t_finish_waiters (tasks s (hd rest))))"
proof (cases x)
  case (Inl s)
  have "is_finished t s" if "t \<in> set A" for t
    using close_begin_takes [OF scope_open_inv [OF assms(1)] assms(2) that] closing_inv [OF assms(3)] Inl
    by (auto simp: close_inv_def goes_on_def)
  then show ?thesis using Inl by simp
next
  case (Inr y)
  then show ?thesis using closing_inv [OF assms(3)] by (auto simp: close_inv_def on_list_def)
qed

text \<open>
  The closing takes the group's list: a task added afterwards is on the new, empty list, and the closing can end while
  it runs.
\<close>

lemma late_task_not_waited_for:
  assumes "scope_inv limit g A w" "group_close_begin me g False w = (ts, w1)" "\<forall>t \<in> set ts. is_finished t (tw_sched w) \<and> t < next_task (tw_sched w)"
    and "u < next_task (tw_sched w)" "0 < next_wait (tw_sched w)"
    and "task_of a w1 = Some t" "t < next_task (tw_sched w1)" "1 < refcount_at g w1" "\<not> is_finished t (tw_sched w1)"
  shows "scope_inv limit g [t] (group_add me' g a w1) \<and>
    closing u (tw_sched w1) ts (Inl (tw_sched w1)) \<and> \<not> is_finished t (tw_sched w1)"
proof -
  obtain ts' where ts': "heap_get (tw_heap w) g = Some (GroupObj ts')" using assms(1) by (auto simp: scope_inv_def)
  then have w1: "ts = ts'" "w1 = set_group g [] w" using assms(2) by (auto simp: group_close_begin_def)
  note g = set_group_get [OF ts', of "[]", folded w1(2)]
  have "tasks_ok limit w1" using calm_ok [OF calm_set_group] assms(1) w1(2) by (simp add: scope_inv_def)
  then have "scope_inv limit g [] w1" using g(1) by (simp add: scope_inv_def)
  from group_add_group [OF this assms(6-8), of me'] have "scope_inv limit g [t] (group_add me' g a w1)" by simp
  moreover have "close_wait me (InTask u) xs (tw_sched w1) = Inl (tw_sched w1)" if "\<forall>t \<in> set xs. is_finished t (tw_sched w1)" for xs
    using that by (induction xs) (auto simp: wait_finished_attempt_def is_finished_def)
  then have "closing u (tw_sched w1) ts (parked_at (tw_sched w1) (Inl (tw_sched w1)))"
    using assms(3-5) g(3) by (intro closing.starts) auto
  ultimately show ?thesis using assms(9) by simp
qed

text \<open>The main task opens a scope, adds a task to it whose handle it has, and closes it; the task returns meanwhile.\<close>

lemma scope_returns:
  fixes s :: sched
  assumes "u < next_task s" "t < next_task s" "0 < next_wait s" "t \<noteq> u" "\<not> t_finished (tasks s t)"
  shows "\<exists>s'. closing u s [t] (Inl s')"
proof -
  obtain i s1 where a: "wait_finished_attempt None (InTask u) False t s = Inr (i, s1)"
    using assms(5) by (simp add: wait_finished_attempt_def case_prod_beta Let_def)
  note e = attempt_uncancellable [OF a assms(3)]
  have c1: "closing u s [t] (Inr (i, next_wait s, [t], s1))"
    using closing.starts [of u s "[t]" s None] assms a by simp
  define s2 where "s2 = run_end 0 t Returned s1"
  have c2: "closing u s [t] (Inr (i, next_wait s, [t], s2))"
    unfolding s2_def using assms(4) by (intro closing.meanwhile [OF c1] other_step.ends) simp
  have "TaskWaker u (t_wait (tasks s1 u)) \<in> snd ` set (wl_list (t_finish_waiters (tasks s1 t)))"
    using e(7,8) by (force simp: on_list_def)
  then have f: "t_finished (tasks s2 t)" "t_wait (tasks s2 u) = 0" "woken_as s2 u = WReady"
    by (simp_all add: s2_def run_end_def Let_def finish_task_tasks woken_as_def from_u8_def)
  have "close_again None (InTask u) i [t] (woken_as s2 u) s2 = Inl (unwatch_finished t i s2)"
    using f by (simp add: wait_finished_again_def wait_finished_attempt_def unwatch_finished_def Let_def)
  from closing.resumes [OF c2 _ this] f(2) assms(3) show ?thesis by auto
qed

definition demo_held :: task_world where
  "demo_held = \<lparr>tw_sched = demo_scope, tw_live = 1,
     tw_heap = \<lparr>h_start = 1000, h_stride = 24,
       h_slots = [\<lparr>sl_refcount = 1, sl_token = 65536, sl_resource = Some (HandleObj 2)\<rparr>, \<lparr>sl_refcount = 0, sl_token = 0, sl_resource = None\<rparr>],
       h_free = [1], h_generations = [1, 0], h_live = [True, False], h_waiters = waiters_new\<rparr>,
     tw_jobs = [2 \<mapsto> RocJob 7], tw_refs = (\<lambda>_. 1), tw_warned = False\<rparr>"

definition demo_added :: task_world where
  "demo_added = group_add None 1032 1008 (roc_copies 1032 (snd (group_new demo_held)))"

lemma demo_opens: "tasks_ok 1 demo_held" "generations_ok (tw_heap demo_held)"
  "\<forall>i \<in> set (h_free (tw_heap demo_held)). unat (h_generations (tw_heap demo_held) ! i) + 1 < 2 ^ 48"
  "fst (group_new demo_held) = Some 1032"
  by (auto simp: demo_held_def tasks_ok_def generations_ok_def heap_inv_def heap_ok_def heap_part_def less_Suc_eq
      demo_scope_facts group_new_def try_reserve_def vec_pop_def heap_insert_def token_address_def Let_def)

lemma demo_handle: "task_of 1008 (roc_copies 1032 (snd (group_new demo_held))) = Some 2" "refcount_at 1032 (roc_copies 1032 (snd (group_new demo_held))) = 2"
  "next_task (tw_sched (roc_copies 1032 (snd (group_new demo_held)))) = 3"
  by (simp_all add: demo_held_def group_new_def try_reserve_def vec_pop_def heap_insert_def Let_def roc_copies_def set_refcount_def refcount_at_def
      payload_index_def base_index_def task_of_def heap_get_def demo_scope_facts mask_eq_exp_minus_1)

lemma demo_scope_open: "scope_open 1 1032 [2] demo_added"
proof -
  have "group_new demo_held = (Some 1032, snd (group_new demo_held))" using demo_opens(4) by (metis prod.collapse)
  note o = scope_open.others [OF scope_open.opens [OF demo_opens(1-3) this] elsewhere.copies [of 1 1032 _ 1032]]
  show ?thesis unfolding demo_added_def using scope_open.adds [OF o demo_handle(1)] demo_handle by simp
qed

lemma demo_list: "heap_get (tw_heap demo_added) 1032 = Some (GroupObj [2])" "tw_sched demo_added = drop_handle 2 demo_scope"
  by (simp_all add: demo_added_def demo_held_def group_new_def try_reserve_def vec_pop_def heap_insert_def Let_def roc_copies_def set_refcount_def refcount_at_def
      payload_index_def base_index_def heap_get_def group_add_def with_obj_def decref_handle_def release_obj_def release_begin_def free_slot_def on_sched_def
      wake_one_def waiters_new_def set_group_def mask_eq_exp_minus_1)

theorem scope_waits_for_all_witness:
  "\<exists>ts w1 s. scope_open 1 1032 [2] demo_added \<and> group_close_begin None 1032 False demo_added = (ts, w1) \<and>
     closing 1 (tw_sched w1) ts (Inl s) \<and> is_finished 2 s"
proof -
  have c: "group_close_begin None 1032 False demo_added = ([2], set_group 1032 [] demo_added)"
    using demo_list(1) by (simp add: group_close_begin_def)
  have "tw_sched (set_group 1032 [] demo_added) = drop_handle 2 demo_scope" using set_group_get(3) [OF demo_list(1)] demo_list(2) by simp
  then obtain s where s: "closing 1 (tw_sched (set_group 1032 [] demo_added)) [2] (Inl s)"
    using scope_returns [of 1 "drop_handle 2 demo_scope" 2] demo_scope_facts by (auto simp: drop_handle_def)
  from scope_waits_for_all [OF demo_scope_open c s] show ?thesis using demo_scope_open c s by auto
qed

end
