(* ===== verification/Copy.thy ===== *)
theory Copy
  imports Sockets
begin

text \<open>
  Copying between two streams (\<^verbatim>\<open>src/copy.rs\<close>): \<^verbatim>\<open>Pipe.copy_to!\<close> and the two directions of
  \<^verbatim>\<open>Pipe.copy_both!\<close>, through a buffer or, between plain sockets, with \<^verbatim>\<open>splice\<close> through a pipe.

  The state is a \<open>world\<close> (theory \<open>Sockets\<close>) whose kernel part also has what the two directions share
  and the threads' pools of spare buffers and pipes; the other direction runs whenever this one is
  suspended, so all of it may change then.  The system calls are parameters, and so are the
  operations of TLS and Noise streams.  A buffer is its length: its old contents are never read.
\<close>

section \<open>State\<close>

abbreviation (input) BUFFER :: nat where "BUFFER \<equiv> 16 * 1024"
abbreviation (input) LARGE_BUFFER :: nat where "LARGE_BUFFER \<equiv> 64 * 1024"
abbreviation (input) KEEP :: nat where "KEEP \<equiv> 32"
abbreviation (input) KEEP_PIPES :: nat where "KEEP_PIPES \<equiv> 16"
abbreviation (input) CHUNK :: nat where "CHUNK \<equiv> 64 * 1024"

text \<open>The kinds of sockets, each with the number of its connection.\<close>

datatype socket =
    TcpListener nat | TcpStream nat | UnixListener nat | UnixStream nat
  | Udp nat | TlsListener nat | Tls nat | Noise nat

datatype side = A | B

datatype copy_err = ReadErr side io_error | WriteErr side io_error | Cancelled | MessageTimeout | TaskLimit

datatype ended = Eof | Limit

datatype shutdown = ShutRead | ShutWrite | ShutBoth

text \<open>\<^verbatim>\<open>Shared\<close>, then the pools of each thread and the thread the task runs on.\<close>

record 'k session =
  ss_progress :: u64
  ss_writing :: u32
  ss_ended_into :: "side \<Rightarrow> bool"
  ss_first_err :: "copy_err option"
  ss_deadline :: deadline
  ss_b_to_a :: u64
  ss_thread :: nat
  ss_buffers :: "nat \<Rightarrow> nat list"
  ss_pipes :: "nat \<Rightarrow> nat list"
  ss_kernel :: 'k

type_synonym 'k cworld = "'k session world"

definition on_session :: "('k session \<Rightarrow> 'k session) \<Rightarrow> 'k cworld \<Rightarrow> 'k cworld" where
  "on_session f w = w\<lparr>w_kernel := f (w_kernel w)\<rparr>"

text \<open>The descriptor of a connection, and the two ends of a pipe.\<close>

datatype raw_fd = SockFd nat | PipeRead nat | PipeWrite nat

text \<open>What a TLS or a Noise stream offers.\<close>

record 'k layer =
  l_fill_by :: "deadline \<Rightarrow> ('k session, unit) io_loop"
  l_try_read :: "nat \<Rightarrow> ('k session, bytes option) io_loop"
  l_fill_now :: "('k session, bool) io_loop"
  l_write_all :: "bytes \<Rightarrow> ('k session, unit) io_loop"
  l_shutdown :: "shutdown \<Rightarrow> 'k cworld \<Rightarrow> 'k cworld"
  l_abort :: "'k cworld \<Rightarrow> 'k cworld"

record 'k streams =
  s_out :: "'k session outside"
  s_peek :: "nat \<Rightarrow> ('k session, unit) io"
  s_read :: "nat \<Rightarrow> nat \<Rightarrow> ('k session, bytes) io"
  s_write :: "nat \<Rightarrow> bytes \<Rightarrow> ('k session, nat) io"
  s_shutdown :: "nat \<Rightarrow> shutdown \<Rightarrow> 'k cworld \<Rightarrow> 'k cworld"
  s_linger :: "nat \<Rightarrow> 'k cworld \<Rightarrow> 'k cworld"
  s_disconnect :: "nat \<Rightarrow> 'k cworld \<Rightarrow> bool \<times> 'k cworld"
  s_splice :: "raw_fd \<Rightarrow> raw_fd \<Rightarrow> nat \<Rightarrow> ('k session, nat) io"
  s_new_pipe :: "('k session, nat) io"
  s_tls :: "nat \<Rightarrow> 'k layer"
  s_noise :: "nat \<Rightarrow> 'k layer"

section \<open>Operations on one stream\<close>

definition not_a_stream :: io_error where
  "not_a_stream = CustomError InvalidInput (lit ''copy_both! works on streams (TCP, Unix, TLS)'')"

fun abort :: "'k streams \<Rightarrow> socket \<Rightarrow> 'k cworld \<Rightarrow> 'k cworld" where
  "abort S (TcpStream c) w = abort_conn (s_linger S) (s_disconnect S) (\<lambda>fd. s_shutdown S c ShutBoth) c w"
| "abort S (Tls c) w = l_abort (s_tls S c) w"
| "abort S (Noise c) w = l_abort (s_noise S c) w"
| "abort S (UnixStream c) w = s_shutdown S c ShutBoth w"
| "abort S _ w = w"

fun shutdown_stream :: "shutdown \<Rightarrow> 'k streams \<Rightarrow> socket \<Rightarrow> 'k cworld \<Rightarrow> 'k cworld" where
  "shutdown_stream how S (TcpStream c) w = s_shutdown S c how w"
| "shutdown_stream how S (UnixStream c) w = s_shutdown S c how w"
| "shutdown_stream how S (Tls c) w = l_shutdown (s_tls S c) how w"
| "shutdown_stream how S (Noise c) w = l_shutdown (s_noise S c) how w"
| "shutdown_stream how S _ w = w"

definition stop_reading :: "'k streams \<Rightarrow> socket \<Rightarrow> 'k cworld \<Rightarrow> 'k cworld" where
  "stop_reading = shutdown_stream ShutRead"

definition shutdown_write :: "'k streams \<Rightarrow> socket \<Rightarrow> 'k cworld \<Rightarrow> 'k cworld" where
  "shutdown_write = shutdown_stream ShutWrite"

fun stream_wait_readable :: "'k streams \<Rightarrow> socket \<Rightarrow> deadline \<Rightarrow> ('k session, unit) io_loop" where
  "stream_wait_readable S (TcpStream c) d w = wait_readable (s_out S) (s_peek S c) c d w"
| "stream_wait_readable S (UnixStream c) d w = wait_readable (s_out S) (s_peek S c) c d w"
| "stream_wait_readable S (Tls c) d w = l_fill_by (s_tls S c) d w"
| "stream_wait_readable S (Noise c) d w = l_fill_by (s_noise S c) d w"
| "stream_wait_readable S _ d w = Some (Inl not_a_stream, w)"

text \<open>\<^verbatim>\<open>read_now\<close>: the inner \<^verbatim>\<open>once\<close>, the loop for TLS, and the choice.  What it read is the result.\<close>

partial_function (option) read_once :: "('k, bytes) io \<Rightarrow> ('k, bytes option) io_loop" where
  [code]: "read_once sys_read w =
     (case sys_read w of
        (Inr got, w1) \<Rightarrow> Some (Inr (Some got), w1)
      | (Inl err, w1) \<Rightarrow>
          if err_kind err = WouldBlock then Some (Inr None, w1)
          else if err_kind err = Interrupted then read_once sys_read w1
          else Some (Inl err, w1))"

partial_function (option) read_tls :: "'k layer \<Rightarrow> nat \<Rightarrow> ('k session, bytes option) io_loop" where
  [code]: "read_tls l len w =
     (case l_try_read l len w of
        None \<Rightarrow> None
      | Some (Inl err, w1) \<Rightarrow> Some (Inl err, w1)
      | Some (Inr (Some got), w1) \<Rightarrow> Some (Inr (Some got), w1)
      | Some (Inr None, w1) \<Rightarrow>
          (case l_fill_now l w1 of
             None \<Rightarrow> None
           | Some (Inl err, w2) \<Rightarrow> Some (Inl err, w2)
           | Some (Inr arrived, w2) \<Rightarrow> if arrived then read_tls l len w2 else Some (Inr None, w2)))"

fun stream_read_now :: "'k streams \<Rightarrow> socket \<Rightarrow> nat \<Rightarrow> ('k session, bytes option) io_loop" where
  "stream_read_now S (TcpStream c) len w = read_once (s_read S c len) w"
| "stream_read_now S (UnixStream c) len w = read_once (s_read S c len) w"
| "stream_read_now S (Tls c) len w = read_tls (s_tls S c) len w"
| "stream_read_now S (Noise c) len w = l_try_read (s_noise S c) len w"
| "stream_read_now S _ len w = Some (Inl not_a_stream, w)"

fun stream_write_all :: "'k streams \<Rightarrow> socket \<Rightarrow> bytes \<Rightarrow> ('k session, unit) io_loop" where
  "stream_write_all S (TcpStream c) data w = write_all_with (s_out S) c (s_write S c) data w"
| "stream_write_all S (UnixStream c) data w = write_all_with (s_out S) c (s_write S c) data w"
| "stream_write_all S (Tls c) data w = l_write_all (s_tls S c) data w"
| "stream_write_all S (Noise c) data w = l_write_all (s_noise S c) data w"
| "stream_write_all S _ data w = Some (Inl not_a_stream, w)"

section \<open>What the directions share\<close>

definition shared_new :: "deadline \<Rightarrow> 'k cworld \<Rightarrow> 'k cworld" where
  "shared_new d = on_session (\<lambda>k. k\<lparr>ss_progress := 0, ss_writing := 0, ss_ended_into := (\<lambda>_. False),
     ss_first_err := None, ss_deadline := d\<rparr>)"

definition past_deadline :: "'k cworld \<Rightarrow> bool" where
  "past_deadline w = passed (w_now w) (ss_deadline (w_kernel w))"

text \<open>The body of the loop in \<^verbatim>\<open>fail\<close>, and \<^verbatim>\<open>fail\<close>.\<close>

definition end_stream :: "'k streams \<Rightarrow> socket \<Rightarrow> side \<Rightarrow> 'k cworld \<Rightarrow> 'k cworld" where
  "end_stream S socket side w =
     (if ss_ended_into (w_kernel w) side then stop_reading S socket w else abort S socket w)"

definition fail :: "'k streams \<Rightarrow> copy_err \<Rightarrow> socket \<Rightarrow> socket \<Rightarrow> 'k cworld \<Rightarrow> 'k cworld" where
  "fail S err a b w =
     (if ss_first_err (w_kernel w) = None
      then end_stream S b B (end_stream S a A (on_session (\<lambda>k. k\<lparr>ss_first_err := Some err\<rparr>) w))
      else w)"

definition ended_into :: "side \<Rightarrow> 'k cworld \<Rightarrow> 'k cworld" where
  "ended_into side = on_session (\<lambda>k. k\<lparr>ss_ended_into := (ss_ended_into k)(side := True)\<rparr>)"

text \<open>The module \<^verbatim>\<open>spare\<close>.\<close>

definition spare_buffer :: "'k cworld \<Rightarrow> nat \<times> 'k cworld" where
  "spare_buffer w =
     (let t = ss_thread (w_kernel w)
      in case vec_pop (ss_buffers (w_kernel w) t) of
           None \<Rightarrow> (BUFFER, w)
         | Some (len, rest) \<Rightarrow> (len, on_session (\<lambda>k. k\<lparr>ss_buffers := (ss_buffers k)(t := rest)\<rparr>) w))"

definition give_back :: "nat \<Rightarrow> 'k cworld \<Rightarrow> 'k cworld" where
  "give_back len w =
     (let t = ss_thread (w_kernel w)
      in if len = BUFFER \<and> length (ss_buffers (w_kernel w) t) < KEEP
         then on_session (\<lambda>k. k\<lparr>ss_buffers := (ss_buffers k)(t := ss_buffers k t @ [len])\<rparr>) w
         else w)"

definition read_err :: "side \<Rightarrow> io_error \<Rightarrow> copy_err" where
  "read_err side err = (if is_cancelled_error err then Cancelled else ReadErr side err)"

definition write_err :: "side \<Rightarrow> io_error \<Rightarrow> copy_err" where
  "write_err side err = (if is_cancelled_error err then Cancelled else WriteErr side err)"

partial_function (option) wait_for_data ::
  "'k streams \<Rightarrow> socket \<Rightarrow> side \<Rightarrow> 'k cworld \<Rightarrow> ((copy_err + unit) \<times> 'k cworld) option" where
  [code]: "wait_for_data S src src_side w =
     (let seen = ss_progress (w_kernel w)
      in case stream_wait_readable S src (ss_deadline (w_kernel w)) w of
           None \<Rightarrow> None
         | Some (Inr _, w1) \<Rightarrow> Some (Inr (), w1)
         | Some (Inl err, w1) \<Rightarrow>
             if err_kind err = TimedOut \<and> past_deadline w1 then Some (Inl MessageTimeout, w1)
             else if err_kind err = TimedOut \<and> (ss_progress (w_kernel w1) \<noteq> seen \<or> 0 < ss_writing (w_kernel w1))
             then wait_for_data S src src_side w1
             else Some (Inl (read_err src_side err), w1))"

definition writing :: "('k session, 'r) io_loop \<Rightarrow> ('k session, 'r) io_loop" where
  "writing f w =
     (case f (on_session (\<lambda>k. k\<lparr>ss_writing := ss_writing k + 1\<rparr>) w) of
        None \<Rightarrow> None
      | Some (r, w1) \<Rightarrow> Some (r, on_session (\<lambda>k. k\<lparr>ss_writing := ss_writing k - 1, ss_progress := ss_progress k + 1\<rparr>) w1))"

section \<open>One direction\<close>

definition cap :: "nat \<Rightarrow> u64 \<Rightarrow> u64 option \<Rightarrow> nat" where
  "cap len tot end_at =
     (case end_at of None \<Rightarrow> len | Some e \<Rightarrow> min (unat e - unat tot) len)"

definition at_limit :: "u64 \<Rightarrow> u64 option \<Rightarrow> bool" where
  "at_limit tot end_at = (case end_at of None \<Rightarrow> False | Some e \<Rightarrow> e \<le> tot)"

text \<open>\<open>buf\<close> is the length of the buffer, 0 when there is none.\<close>

partial_function (option) buffered ::
  "'k streams \<Rightarrow> socket \<Rightarrow> socket \<Rightarrow> side \<times> side \<Rightarrow> u64 option \<Rightarrow> nat \<Rightarrow> u64 \<Rightarrow> 'k cworld \<Rightarrow>
   ((copy_err + ended) \<times> u64 \<times> 'k cworld) option" where
  [code]: "buffered S src dst sides end_at buf tot w =
     (if at_limit tot end_at then Some (Inr Limit, tot, give_back buf w)
      else if past_deadline w then Some (Inl MessageTimeout, tot, w)
      else case (if buf = 0 then wait_for_data S src (fst sides) w else Some (Inr (), w)) of
             None \<Rightarrow> None
           | Some (Inl err, w1) \<Rightarrow> Some (Inl err, tot, w1)
           | Some (Inr _, w1) \<Rightarrow>
               (case (if buf = 0 then spare_buffer w1 else (buf, w1)) of
                  (len, w2) \<Rightarrow>
                    (case stream_read_now S src (cap len tot end_at) w2 of
                       None \<Rightarrow> None
                     | Some (Inl err, w3) \<Rightarrow> Some (Inl (read_err (fst sides) err), tot, w3)
                     | Some (Inr None, w3) \<Rightarrow> buffered S src dst sides end_at 0 tot (give_back len w3)
                     | Some (Inr (Some got), w3) \<Rightarrow>
                         if got = [] then Some (Inr Eof, tot, give_back len w3)
                         else (case writing (stream_write_all S dst got) w3 of
                                 None \<Rightarrow> None
                               | Some (Inl err, w4) \<Rightarrow> Some (Inl (write_err (snd sides) err), tot, w4)
                               | Some (Inr _, w4) \<Rightarrow>
                                   buffered S src dst sides end_at
                                     (if length got = len \<and> length got < LARGE_BUFFER then LARGE_BUFFER else len)
                                     (tot + of_nat (length got)) w4))))"

subsection \<open>With \<open>splice\<close>\<close>

fun plain_fd :: "socket \<Rightarrow> nat option" where
  "plain_fd (TcpStream c) = Some c"
| "plain_fd (UnixStream c) = Some c"
| "plain_fd _ = None"

partial_function (option) splice_loop :: "('k, nat) io \<Rightarrow> ('k, nat) io_loop" where
  [code]: "splice_loop call w =
     (case call w of
        (Inr n, w1) \<Rightarrow> Some (Inr n, w1)
      | (Inl err, w1) \<Rightarrow> if err_kind err \<noteq> Interrupted then Some (Inl err, w1) else splice_loop call w1)"

definition take_pipe :: "'k streams \<Rightarrow> ('k session, nat) io" where
  "take_pipe S w =
     (let t = ss_thread (w_kernel w)
      in case vec_pop (ss_pipes (w_kernel w) t) of
           Some (p, rest) \<Rightarrow> (Inr p, on_session (\<lambda>k. k\<lparr>ss_pipes := (ss_pipes k)(t := rest)\<rparr>) w)
         | None \<Rightarrow> s_new_pipe S w)"

definition give_back_pipe :: "nat option \<Rightarrow> 'k cworld \<Rightarrow> 'k cworld" where
  "give_back_pipe ends w =
     (let t = ss_thread (w_kernel w)
      in case ends of
           None \<Rightarrow> w
         | Some p \<Rightarrow>
             if length (ss_pipes (w_kernel w) t) < KEEP_PIPES
             then on_session (\<lambda>k. k\<lparr>ss_pipes := (ss_pipes k)(t := ss_pipes k t @ [p])\<rparr>) w
             else w)"

definition unsupported :: "io_error \<Rightarrow> bool" where
  "unsupported err \<longleftrightarrow> raw_os_error err \<in> {Some 22, Some 38, Some 95}"

text \<open>
  The loop that drains the pipe.  An interrupted \<^verbatim>\<open>splice\<close> is repeated at once by \<^verbatim>\<open>splice\<close> and by
  \<^verbatim>\<open>retry\<close> alike, so the operation retried is the call.
\<close>

partial_function (option) drain ::
  "'k streams \<Rightarrow> nat \<Rightarrow> nat \<Rightarrow> nat \<Rightarrow> ('k session, unit) io_loop" where
  [code]: "drain S p dst left w =
     (if left = 0 then Some (Inr (), w)
      else case retry (s_out S) dst True (write_deadline dst w) (s_splice S (PipeRead p) (SockFd dst) left) w of
             None \<Rightarrow> None
           | Some (Inl err, w1) \<Rightarrow> Some (Inl err, w1)
           | Some (Inr m, w1) \<Rightarrow>
               if m = 0 then Some (Inl (SimpleError WriteZero), w1) else drain S p dst (left - m) w1)"

text \<open>\<open>None\<close> inside the result: the buffered copy carries on.\<close>

partial_function (option) splice_copy ::
  "'k streams \<Rightarrow> socket \<Rightarrow> nat \<Rightarrow> nat \<Rightarrow> side \<times> side \<Rightarrow> u64 option \<Rightarrow> nat option \<Rightarrow> nat \<Rightarrow> u64 \<Rightarrow> 'k cworld \<Rightarrow>
   ((copy_err + ended) option \<times> u64 \<times> 'k cworld) option" where
  [code]: "splice_copy S src c d sides end_at ends spliced tot w =
     (if at_limit tot end_at then Some (Some (Inr Limit), tot, give_back_pipe ends w)
      else if past_deadline w then Some (Some (Inl MessageTimeout), tot, w)
      else case (case ends of None \<Rightarrow> wait_for_data S src (fst sides) w | Some _ \<Rightarrow> Some (Inr (), w)) of
             None \<Rightarrow> None
           | Some (Inl err, w1) \<Rightarrow> Some (Some (Inl err), tot, w1)
           | Some (Inr _, w1) \<Rightarrow>
               (case (case ends of None \<Rightarrow> take_pipe S w1 | Some p \<Rightarrow> (Inr p, w1)) of
                  (Inl _, w2) \<Rightarrow> Some (None, tot, w2)
                | (Inr p, w2) \<Rightarrow>
                    (case splice_loop (s_splice S (SockFd c) (PipeWrite p) (cap CHUNK tot end_at)) w2 of
                       None \<Rightarrow> None
                     | Some (Inl err, w3) \<Rightarrow>
                         if err_kind err = WouldBlock
                         then splice_copy S src c d sides end_at None spliced tot (give_back_pipe (Some p) w3)
                         else if spliced = 0 \<and> unsupported err then Some (None, tot, w3)
                         else Some (Some (Inl (read_err (fst sides) err)), tot, w3)
                     | Some (Inr n, w3) \<Rightarrow>
                         if n = 0 then Some (Some (Inr Eof), tot, give_back_pipe (Some p) w3)
                         else (case writing (drain S p d n) w3 of
                                 None \<Rightarrow> None
                               | Some (Inl err, w4) \<Rightarrow> Some (Some (Inl (write_err (snd sides) err)), tot, w4)
                               | Some (Inr _, w4) \<Rightarrow>
                                   splice_copy S src c d sides end_at (Some p) (spliced + n) (tot + of_nat n) w4))))"

text \<open>\<^verbatim>\<open>one_way\<close>, on Linux or not.\<close>

definition one_way ::
  "bool \<Rightarrow> 'k streams \<Rightarrow> socket \<Rightarrow> socket \<Rightarrow> side \<times> side \<Rightarrow> u64 option \<Rightarrow> u64 \<Rightarrow> 'k cworld \<Rightarrow>
   ((copy_err + ended) \<times> u64 \<times> 'k cworld) option" where
  "one_way linux S src dst sides end_at tot w =
     (case (if linux then (plain_fd src, plain_fd dst) else (None, None)) of
        (Some c, Some d) \<Rightarrow>
          (case splice_copy S src c d sides end_at None 0 tot w of
             None \<Rightarrow> None
           | Some (Some r, tot1, w1) \<Rightarrow> Some (r, tot1, w1)
           | Some (None, tot1, w1) \<Rightarrow> buffered S src dst sides end_at 0 tot1 w1)
      | _ \<Rightarrow> buffered S src dst sides end_at 0 tot w)"

definition direction ::
  "bool \<Rightarrow> 'k streams \<Rightarrow> socket \<Rightarrow> socket \<Rightarrow> side \<times> side \<Rightarrow> 'k cworld \<Rightarrow> (u64 \<times> 'k cworld) option" where
  "direction linux S src dst sides w =
     (case one_way linux S src dst sides None 0 w of
        None \<Rightarrow> None
      | Some (Inr _, tot, w1) \<Rightarrow> Some (tot, ended_into (snd sides) (shutdown_write S dst w1))
      | Some (Inl err, tot, w1) \<Rightarrow>
          Some (tot, if fst sides = A then fail S err src dst w1 else fail S err dst src w1))"

section \<open>Copying\<close>

definition copy_to ::
  "bool \<Rightarrow> 'k streams \<Rightarrow> socket \<Rightarrow> socket \<Rightarrow> bytes \<Rightarrow> u64 option \<Rightarrow> deadline \<Rightarrow> 'k cworld \<Rightarrow>
   (u64 \<times> copy_err option \<times> 'k cworld) option" where
  "copy_to linux S src dst prefix limit d w =
     (case (if prefix = [] then Some (Inr (), shared_new d w) else stream_write_all S dst prefix (shared_new d w)) of
        None \<Rightarrow> None
      | Some (Inl err, w1) \<Rightarrow> Some (0, Some (write_err B err), w1)
      | Some (Inr _, w1) \<Rightarrow>
          let tot = of_nat (length prefix); end_at = map_option (\<lambda>n. tot + n) limit
          in case one_way linux S src dst (A, B) end_at tot w1 of
               None \<Rightarrow> None
             | Some (Inr Eof, tot1, w2) \<Rightarrow>
                 Some (tot1, if end_at = None then None else Some (ReadErr A (SimpleError UnexpectedEof)), w2)
             | Some (Inr Limit, tot1, w2) \<Rightarrow> Some (tot1, None, w2)
             | Some (Inl err, tot1, w2) \<Rightarrow> Some (tot1, Some err, w2))"

text \<open>
  \<^verbatim>\<open>copy_both\<close>.  \<open>started\<close> is whether the helper task could be started; \<open>join\<close> waits for it, and the
  helper's own steps (\<^verbatim>\<open>direction(b, a)\<close>, whose total it stores in \<open>ss_b_to_a\<close>) happen while this task
  is suspended.
\<close>

definition copy_both ::
  "bool \<Rightarrow> 'k streams \<Rightarrow> bool \<Rightarrow> (bool \<Rightarrow> 'k cworld \<Rightarrow> woke \<times> 'k cworld) \<Rightarrow> socket \<Rightarrow> socket \<Rightarrow> 'k cworld \<Rightarrow>
   (u64 \<times> u64 \<times> copy_err option \<times> 'k cworld) option" where
  "copy_both linux S started join a b w =
     (let w0 = on_session (\<lambda>k. k\<lparr>ss_b_to_a := 0\<rparr>) (shared_new Never w)
      in if \<not> started then Some (0, 0, Some TaskLimit, w0)
         else case direction linux S a b (A, B) w0 of
                None \<Rightarrow> None
              | Some (a_to_b, w1) \<Rightarrow>
                  let (how, w2) = join True w1;
                      w3 = (if how = WCancelled then snd (join False (fail S Cancelled a b w2)) else w2)
                  in Some (a_to_b, ss_b_to_a (w_kernel w3), ss_first_err (w_kernel w3),
                       on_session (\<lambda>k. k\<lparr>ss_first_err := None\<rparr>) w3))"

section \<open>What the calls promise\<close>

text \<open>
  Four views of the kernel: the bytes taken from the source, the bytes the destination accepted, the
  bytes in the pipe that the copy holds, and a supply that every failed call and every read that gets
  something uses some of, so that blocking, interruptions and time-outs come to an end.

  An effect says what a call adds to the views: bytes taken, bytes accepted, bytes into the pipe, bytes
  out of it, and whether it uses up some of the supply even if it takes nothing.
\<close>

record 'k ghost =
  g_taken :: "'k \<Rightarrow> bytes"
  g_accepted :: "'k \<Rightarrow> bytes"
  g_piped :: "'k \<Rightarrow> bytes"
  g_slack :: "'k \<Rightarrow> nat"

type_synonym effect = "bytes \<times> bytes \<times> bytes \<times> bytes \<times> bool"

definition taken :: "'k ghost \<Rightarrow> 'k cworld \<Rightarrow> bytes" where "taken g w = g_taken g (ss_kernel (w_kernel w))"
definition accepted :: "'k ghost \<Rightarrow> 'k cworld \<Rightarrow> bytes" where "accepted g w = g_accepted g (ss_kernel (w_kernel w))"
definition piped :: "'k ghost \<Rightarrow> 'k cworld \<Rightarrow> bytes" where "piped g w = g_piped g (ss_kernel (w_kernel w))"
definition slack :: "'k ghost \<Rightarrow> 'k cworld \<Rightarrow> nat" where "slack g w = g_slack g (ss_kernel (w_kernel w))"

definition moved :: "'k ghost \<Rightarrow> effect \<Rightarrow> 'k cworld \<Rightarrow> 'k cworld \<Rightarrow> bool" where
  "moved g e w w' = (case e of (t, a, i, out, strict) \<Rightarrow>
     taken g w' = taken g w @ t \<and> accepted g w' = accepted g w @ a \<and> out @ piped g w' = piped g w @ i \<and>
     slack g w' \<le> slack g w \<and> (t \<noteq> [] \<or> strict \<longrightarrow> slack g w' < slack g w))"

abbreviation same :: "'k ghost \<Rightarrow> 'k cworld \<Rightarrow> 'k cworld \<Rightarrow> bool" where
  "same g \<equiv> moved g ([], [], [], [], False)"

abbreviation spent :: "'k ghost \<Rightarrow> 'k cworld \<Rightarrow> 'k cworld \<Rightarrow> bool" where
  "spent g \<equiv> moved g ([], [], [], [], True)"

definition does :: "'k ghost \<Rightarrow> ('r \<Rightarrow> effect \<Rightarrow> bool) \<Rightarrow> io_error + 'r \<Rightarrow> 'k cworld \<Rightarrow> 'k cworld \<Rightarrow> bool" where
  "does g P r w w' = (case r of Inl _ \<Rightarrow> spent g w w' | Inr x \<Rightarrow> \<exists>e. P x e \<and> moved g e w w')"

definition call_ok :: "'k ghost \<Rightarrow> ('r \<Rightarrow> effect \<Rightarrow> bool) \<Rightarrow> ('k session, 'r) io \<Rightarrow> bool" where
  "call_ok g P f \<longleftrightarrow> (\<forall>w. does g P (fst (f w)) w (snd (f w)))"

definition loop_ok :: "'k ghost \<Rightarrow> ('r \<Rightarrow> effect \<Rightarrow> bool) \<Rightarrow> ('k session, 'r) io_loop \<Rightarrow> bool" where
  "loop_ok g P f \<longleftrightarrow> (\<forall>w. \<exists>r w'. f w = Some (r, w') \<and> does g P r w w')"

text \<open>The effects of the calls.\<close>

definition waits :: "'r \<Rightarrow> effect \<Rightarrow> bool" where
  "waits x e \<longleftrightarrow> e = ([], [], [], [], False)"

definition reads :: "nat \<Rightarrow> bytes \<Rightarrow> effect \<Rightarrow> bool" where
  "reads n got e \<longleftrightarrow> length got \<le> n \<and> e = (got, [], [], [], False)"

definition tries :: "nat \<Rightarrow> bytes option \<Rightarrow> effect \<Rightarrow> bool" where
  "tries n r e = (case r of None \<Rightarrow> e = ([], [], [], [], True) | Some got \<Rightarrow> reads n got e)"

definition writes :: "bytes \<Rightarrow> nat \<Rightarrow> effect \<Rightarrow> bool" where
  "writes data n e \<longleftrightarrow> n \<le> length data \<and> e = ([], take n data, [], [], False)"

definition splices_in :: "nat \<Rightarrow> nat \<Rightarrow> effect \<Rightarrow> bool" where
  "splices_in n k e \<longleftrightarrow> (\<exists>bs. length bs = k \<and> k \<le> n \<and> e = (bs, [], bs, [], False))"

definition splices_out :: "nat \<Rightarrow> nat \<Rightarrow> effect \<Rightarrow> bool" where
  "splices_out n k e \<longleftrightarrow> (\<exists>bs. length bs = k \<and> k \<le> n \<and> e = ([], bs, [], bs, False))"

definition fills :: "'r \<Rightarrow> effect \<Rightarrow> bool" where
  "fills x e \<longleftrightarrow> e = ([], [], [], [], True)"

text \<open>Writing everything: a prefix of the data is accepted, all of it on success.\<close>

definition write_all_ok :: "'k ghost \<Rightarrow> bytes \<Rightarrow> ('k session, unit) io_loop \<Rightarrow> bool" where
  "write_all_ok g data f \<longleftrightarrow> (\<forall>w. \<exists>r w' k. f w = Some (r, w') \<and> k \<le> length data \<and>
     moved g ([], take k data, [], [], False) w w' \<and> (r = Inr () \<longrightarrow> k = length data))"

definition outside_ok :: "'k ghost \<Rightarrow> 'k session outside \<Rightarrow> bool" where
  "outside_ok g out \<longleftrightarrow> (\<forall>c wr d w. same g w (snd (o_watch out c wr w)) \<and> same g w (snd (o_suspend out c wr d w)) \<and>
     same g w (o_budget out w))"

fun source_ok :: "'k ghost \<Rightarrow> 'k streams \<Rightarrow> socket \<Rightarrow> bool" where
  "source_ok g S (TcpStream c) \<longleftrightarrow> call_ok g waits (s_peek S c) \<and> (\<forall>n. call_ok g (reads n) (s_read S c n)) \<and>
     (\<forall>p n. call_ok g (splices_in n) (s_splice S (SockFd c) (PipeWrite p) n))"
| "source_ok g S (UnixStream c) \<longleftrightarrow> call_ok g waits (s_peek S c) \<and> (\<forall>n. call_ok g (reads n) (s_read S c n)) \<and>
     (\<forall>p n. call_ok g (splices_in n) (s_splice S (SockFd c) (PipeWrite p) n))"
| "source_ok g S (Tls c) \<longleftrightarrow> (\<forall>d. loop_ok g waits (l_fill_by (s_tls S c) d)) \<and>
     (\<forall>n. loop_ok g (tries n) (l_try_read (s_tls S c) n)) \<and> loop_ok g fills (l_fill_now (s_tls S c))"
| "source_ok g S (Noise c) \<longleftrightarrow> (\<forall>d. loop_ok g waits (l_fill_by (s_noise S c) d)) \<and>
     (\<forall>n. loop_ok g (tries n) (l_try_read (s_noise S c) n))"
| "source_ok g S _ \<longleftrightarrow> True"

fun sink_ok :: "'k ghost \<Rightarrow> 'k streams \<Rightarrow> socket \<Rightarrow> bool" where
  "sink_ok g S (TcpStream c) \<longleftrightarrow> (\<forall>data. call_ok g (writes data) (s_write S c data)) \<and>
     (\<forall>p n. call_ok g (splices_out n) (s_splice S (PipeRead p) (SockFd c) n))"
| "sink_ok g S (UnixStream c) \<longleftrightarrow> (\<forall>data. call_ok g (writes data) (s_write S c data)) \<and>
     (\<forall>p n. call_ok g (splices_out n) (s_splice S (PipeRead p) (SockFd c) n))"
| "sink_ok g S (Tls c) \<longleftrightarrow> (\<forall>data. write_all_ok g data (l_write_all (s_tls S c) data))"
| "sink_ok g S (Noise c) \<longleftrightarrow> (\<forall>data. write_all_ok g data (l_write_all (s_noise S c) data))"
| "sink_ok g S _ \<longleftrightarrow> True"

definition streams_ok :: "'k ghost \<Rightarrow> 'k streams \<Rightarrow> socket \<Rightarrow> socket \<Rightarrow> bool" where
  "streams_ok g S src dst \<longleftrightarrow> outside_ok g (s_out S) \<and> source_ok g S src \<and> sink_ok g S dst \<and>
     call_ok g waits (s_new_pipe S)"

section \<open>Every operation returns, with its effect\<close>

declare split_paired_Ex [simp del]

lemma view_on_session [simp]:
  assumes "\<And>k. ss_kernel (f k) = ss_kernel k"
  shows "taken g (on_session f w) = taken g w" "accepted g (on_session f w) = accepted g w"
    "piped g (on_session f w) = piped g w" "slack g (on_session f w) = slack g w"
  using assms by (simp_all add: taken_def accepted_def piped_def slack_def on_session_def)

lemma moved_on_session [simp]:
  assumes "\<And>k. ss_kernel (f k) = ss_kernel k"
  shows "moved g e w (on_session f w') = moved g e w w'" "moved g e (on_session f w) w' = moved g e w w'"
  using assms by (simp_all add: moved_def)

lemma same_refl [simp]: "same g w w"
  by (simp add: moved_def)

lemma moved_before: "same g w w1 \<Longrightarrow> moved g e w1 w2 \<Longrightarrow> moved g e w w2"
  by (cases e) (auto simp: moved_def)

lemma moved_after: "moved g e w w1 \<Longrightarrow> same g w1 w2 \<Longrightarrow> moved g e w w2"
  by (cases e) (auto simp: moved_def)

lemma spent_same: "spent g w w' \<Longrightarrow> same g w w'"
  by (simp add: moved_def)

lemma spent_slack: "spent g w w' \<Longrightarrow> slack g w' < slack g w"
  by (simp add: moved_def)

lemma spent_trans [trans]: "spent g w w1 \<Longrightarrow> same g w1 w2 \<Longrightarrow> spent g w w2" "same g w w1 \<Longrightarrow> spent g w1 w2 \<Longrightarrow> spent g w w2"
  "same g w w1 \<Longrightarrow> same g w1 w2 \<Longrightarrow> same g w w2"
  by (auto simp: moved_def)

lemma does_before: "same g w w1 \<Longrightarrow> does g P r w1 w2 \<Longrightarrow> does g P r w w2"
  unfolding does_def by (cases r) (auto intro: moved_before simp del: split_paired_Ex)

lemma does_after: "does g P r w w1 \<Longrightarrow> same g w1 w2 \<Longrightarrow> does g P r w w2"
  unfolding does_def by (cases r) (auto intro: moved_after simp del: split_paired_Ex)

lemma call_okD: "call_ok g P f \<Longrightarrow> f w = (r, w') \<Longrightarrow> does g P r w w'"
  by (metis call_ok_def fst_conv snd_conv)

lemma does_Inl [simp]: "does g P (Inl err) w w' = spent g w w'"
  and does_Inr [simp]: "does g P (Inr x) w w' = (\<exists>e. P x e \<and> moved g e w w')"
  by (simp_all add: does_def)

lemma wait_io_same:
  assumes "outside_ok g out" "wait_io out c wr d w = (r, w')"
  shows "same g w w'"
proof -
  have "same g w (snd (o_watch out c wr w))" "\<And>w. same g w (snd (o_suspend out c wr d w))"
    using assms(1) by (auto simp: outside_ok_def)
  then show ?thesis
    using assms(2) unfolding wait_io_def by (auto split: if_splits sum.splits prod.splits woke.splits intro: spent_trans(3))
      (metis snd_conv spent_trans(3))+
qed

lemma retry_ok:
  assumes "outside_ok g out" "call_ok g P call"
  shows "\<exists>r w'. retry out c wr d call w = Some (r, w') \<and> does g P r w w'"
proof (induction "slack g w" arbitrary: w rule: less_induct)
  case less
  obtain r w1 where call: "call w = (r, w1)" by fastforce
  note d = call_okD [OF assms(2) call]
  show ?case
  proof (cases r)
    case (Inr x)
    have "same g w1 (o_budget out w1)" using assms(1) by (simp add: outside_ok_def)
    then show ?thesis using does_after [OF d] Inr by (subst retry.simps) (simp add: call)
  next
    case (Inl err)
    then have l: "spent g w w1" using d by simp
    obtain v w2 where wt: "wait_io out c wr d w1 = (v, w2)" by fastforce
    have l2: "spent g w w2" using spent_trans(1) [OF l wait_io_same [OF assms(1) wt]] .
    have IH: "\<exists>r w'. retry out c wr d call u = Some (r, w') \<and> does g P r w w'" if "spent g w u" for u
      using less(1) [of u] spent_slack [OF that] does_before [OF spent_same [OF that]] by blast
    show ?thesis
      by (subst retry.simps) (use call Inl l l2 wt IH in \<open>auto split: sum.splits\<close>)
  qed
qed

lemma stream_wait_readable_ok:
  assumes "outside_ok g (s_out S)" "source_ok g S src"
  shows "\<exists>r w'. stream_wait_readable S src d w = Some (r, w') \<and> same g w w' \<and>
    (\<forall>err. r = Inl err \<longrightarrow> spent g w w' \<or> err_kind err \<noteq> TimedOut)"
proof -
  have *: "\<exists>r w'. f w = Some (r, w') \<and> same g w w' \<and> (\<forall>err. r = Inl err \<longrightarrow> spent g w w' \<or> err_kind err \<noteq> TimedOut)"
    if ret: "\<exists>r w'. f w = Some (r, w') \<and> does g waits r w w'" for f
  proof -
    obtain r w' where f: "f w = Some (r, w')" "does g waits r w w'" using ret by blast
    then show ?thesis by (cases r) (auto simp: waits_def dest: spent_same)
  qed
  have plain: "call_ok g waits (s_peek S c) \<Longrightarrow>
      \<exists>r w'. wait_readable (s_out S) (s_peek S c) c d w = Some (r, w') \<and> does g waits r w w'" for c
    unfolding wait_readable_def by (rule retry_ok [OF assms(1)])
  show ?thesis
  proof (cases src)
    case (TcpStream c)
    then show ?thesis using assms(2) * [of "wait_readable (s_out S) (s_peek S c) c d"] plain [of c] by simp
  next
    case (UnixStream c)
    then show ?thesis using assms(2) * [of "wait_readable (s_out S) (s_peek S c) c d"] plain [of c] by simp
  next
    case (Tls c)
    then show ?thesis using assms(2) * [of "l_fill_by (s_tls S c) d"] by (simp add: loop_ok_def)
  next
    case (Noise c)
    then show ?thesis using assms(2) * [of "l_fill_by (s_noise S c) d"] by (simp add: loop_ok_def)
  qed (simp_all add: not_a_stream_def)
qed

lemma wait_for_data_ok:
  assumes "outside_ok g (s_out S)" "source_ok g S src"
  shows "\<exists>r w'. wait_for_data S src side w = Some (r, w') \<and> same g w w'"
proof (induction "slack g w" arbitrary: w rule: less_induct)
  case less
  obtain r w1 where r: "stream_wait_readable S src (ss_deadline (w_kernel w)) w = Some (r, w1)" "same g w w1"
    "\<forall>err. r = Inl err \<longrightarrow> spent g w w1 \<or> err_kind err \<noteq> TimedOut"
    using stream_wait_readable_ok [OF assms] by blast
  have IH: "\<exists>r w'. wait_for_data S src side w1 = Some (r, w') \<and> same g w w'" if "spent g w w1"
    using less(1) [of w1] spent_slack [OF that] spent_trans(3) [OF r(2)] by blast
  show ?case
    by (subst wait_for_data.simps) (use r IH in \<open>auto simp: Let_def split: sum.splits\<close>)
qed

lemma reads_None: "tries n None e \<longleftrightarrow> e = ([], [], [], [], True)"
  and reads_Some: "tries n (Some got) e \<longleftrightarrow> reads n got e"
  by (simp_all add: tries_def)

lemma read_once_ok:
  assumes "call_ok g (reads n) call"
  shows "\<exists>r w'. read_once call w = Some (r, w') \<and> does g (tries n) r w w'"
proof (induction "slack g w" arbitrary: w rule: less_induct)
  case less
  obtain r w1 where call: "call w = (r, w1)" by fastforce
  note d = call_okD [OF assms call]
  show ?case
  proof (cases r)
    case (Inr got)
    then show ?thesis using d by (subst read_once.simps) (simp add: call reads_Some)
  next
    case (Inl err)
    then have l: "spent g w w1" using d by simp
    have "\<exists>r w'. read_once call w1 = Some (r, w') \<and> does g (tries n) r w w'"
      using less(1) [of w1] spent_slack [OF l] does_before [OF spent_same [OF l]] by blast
    then show ?thesis by (subst read_once.simps) (use call Inl l in \<open>auto simp: reads_None\<close>)
  qed
qed

lemma read_tls_ok:
  assumes "loop_ok g (tries n) (l_try_read l n)" "loop_ok g fills (l_fill_now l)"
  shows "\<exists>r w'. read_tls l n w = Some (r, w') \<and> does g (tries n) r w w'"
proof (induction "slack g w" arbitrary: w rule: less_induct)
  case less
  obtain r w1 where r: "l_try_read l n w = Some (r, w1)" "does g (tries n) r w w1" using assms(1) unfolding loop_ok_def by blast
  obtain q w2 where q: "l_fill_now l w1 = Some (q, w2)" "does g fills q w1 w2" using assms(2) unfolding loop_ok_def by blast
  have "spent g w1 w2" using q(2) by (cases q) (auto simp: fills_def)
  then have l: "spent g w w2" if "same g w w1" using that by (rule spent_trans(2) [rotated])
  have IH: "\<exists>r w'. read_tls l n w2 = Some (r, w') \<and> does g (tries n) r w w'" if "same g w w1"
    using less(1) [of w2] spent_slack [OF l [OF that]] does_before [OF spent_same [OF l [OF that]]] by blast
  have none: "same g w w1" if "r = Inr None" using r(2) that by (auto simp: reads_None dest: spent_same)
  show ?case
  proof (cases r)
    case (Inl err)
    then show ?thesis using r by (subst read_tls.simps) simp
  next
    case (Inr x)
    show ?thesis
    proof (cases x)
      case None
      then show ?thesis
        using r(1) q(1) Inr none l IH by (subst read_tls.simps) (auto simp: reads_None split: sum.splits)
    next
      case (Some got)
      then show ?thesis using r Inr by (subst read_tls.simps) simp
    qed
  qed
qed

text \<open>A read that gets bytes uses up some of the supply, and so does one that gets nothing.\<close>

lemma stream_read_now_ok:
  assumes "source_ok g S src"
  shows "\<exists>r w'. stream_read_now S src n w = Some (r, w') \<and>
    (case r of Inl _ \<Rightarrow> same g w w' | Inr None \<Rightarrow> spent g w w'
     | Inr (Some got) \<Rightarrow> length got \<le> n \<and> moved g (got, [], [], [], False) w w')"
proof -
  have *: "\<exists>r w'. f w = Some (r, w') \<and> (case r of Inl _ \<Rightarrow> same g w w' | Inr None \<Rightarrow> spent g w w'
     | Inr (Some got) \<Rightarrow> length got \<le> n \<and> moved g (got, [], [], [], False) w w')"
    if ret: "\<exists>r w'. f w = Some (r, w') \<and> does g (tries n) r w w'" for f
  proof -
    obtain r w' where f: "f w = Some (r, w')" "does g (tries n) r w w'" using ret by blast
    show ?thesis
    proof (cases r)
      case (Inr x)
      then show ?thesis using f by (cases x) (simp_all add: reads_None reads_Some reads_def)
    qed (use f in \<open>simp add: spent_same\<close>)
  qed
  have "\<exists>r w'. stream_read_now S src n w = Some (r, w') \<and> does g (tries n) r w w'" if "\<exists>c. src \<in> {TcpStream c, UnixStream c, Tls c, Noise c}"
    using that assms read_once_ok [of g n _ w] read_tls_ok [of g n _ w] by (auto simp: loop_ok_def)
  moreover have "stream_read_now S src n w = Some (Inl not_a_stream, w)" if "\<nexists>c. src \<in> {TcpStream c, UnixStream c, Tls c, Noise c}"
    using that by (cases src) auto
  ultimately show ?thesis using * by (cases "\<exists>c. src \<in> {TcpStream c, UnixStream c, Tls c, Noise c}") auto
qed

lemma write_all_with_ok:
  assumes "outside_ok g out" "\<And>data. call_ok g (writes data) (send data)"
  shows "write_all_ok g data (write_all_with out c send data)"
  unfolding write_all_ok_def
proof (intro allI)
  fix w
  show "\<exists>r w' k. write_all_with out c send data w = Some (r, w') \<and> k \<le> length data \<and>
     moved g ([], take k data, [], [], False) w w' \<and> (r = Inr () \<longrightarrow> k = length data)"
  proof (induction data arbitrary: w rule: length_induct)
    case (1 data)
    obtain r w1 where r: "retry out c True (write_deadline c w) (send data) w = Some (r, w1)" "does g (writes data) r w w1"
      using retry_ok [OF assms] by blast
    consider "data = []" | "data \<noteq> []" "\<exists>err. r = Inl err \<or> r = Inr 0" | n where "data \<noteq> []" "r = Inr (Suc n)"
      by (cases r; cases "data = []") (auto, metis not0_implies_Suc)
    then show ?case
    proof cases
      case 1
      then show ?thesis by (subst write_all_with.simps) simp
    next
      case 2
      then have "same g w w1" using r(2) by (auto simp: writes_def dest: spent_same)
      then have "moved g ([], take 0 data, [], [], False) w w1" by simp
      moreover obtain err where "write_all_with out c send data w = Some (Inl err, w1)"
        using 2 r(1) by (subst (asm) write_all_with.simps) auto
      ultimately show ?thesis by blast
    next
      case (3 n)
      then have n: "Suc n \<le> length data" "moved g ([], take (Suc n) data, [], [], False) w w1"
        using r(2) by (auto simp: writes_def)
      obtain q w2 k where q: "write_all_with out c send (drop (Suc n) data) w1 = Some (q, w2)"
        "k \<le> length (drop (Suc n) data)" "moved g ([], take k (drop (Suc n) data), [], [], False) w1 w2"
        "q = Inr () \<longrightarrow> k = length (drop (Suc n) data)"
        using "1.IH" [rule_format, of "drop (Suc n) data" w1] 3(1) n(1) by auto
      have "moved g ([], take (Suc n + k) data, [], [], False) w w2"
        using n(2) q(3) take_add [of "Suc n" k data] by (auto simp: moved_def)
      moreover have "write_all_with out c send data w = Some (q, w2)"
        using 3 r(1) q(1) by (subst write_all_with.simps) simp
      moreover have "Suc n + k \<le> length data" "q = Inr () \<longrightarrow> Suc n + k = length data" using q(2,4) n(1) by auto
      ultimately show ?thesis by blast
    qed
  qed
qed

lemma stream_write_all_ok:
  assumes "outside_ok g (s_out S)" "sink_ok g S dst"
  shows "write_all_ok g data (stream_write_all S dst data)"
proof -
  have other: "write_all_ok g data (\<lambda>w. Some (Inl not_a_stream, w))"
    by (auto simp: write_all_ok_def intro!: exI [of _ 0])
  show ?thesis
  proof (cases dst)
    case (TcpStream c)
    then have "stream_write_all S dst data = write_all_with (s_out S) c (s_write S c) data" by auto
    then show ?thesis using write_all_with_ok [OF assms(1)] assms(2) TcpStream by simp
  next
    case (UnixStream c)
    then have "stream_write_all S dst data = write_all_with (s_out S) c (s_write S c) data" by auto
    then show ?thesis using write_all_with_ok [OF assms(1)] assms(2) UnixStream by simp
  next
    case (Tls c)
    then have "stream_write_all S dst data = l_write_all (s_tls S c) data" by auto
    then show ?thesis using assms(2) Tls by simp
  next
    case (Noise c)
    then have "stream_write_all S dst data = l_write_all (s_noise S c) data" by auto
    then show ?thesis using assms(2) Noise by simp
  qed (use other in \<open>simp_all add: write_all_ok_def\<close>)
qed

lemma writing_ok:
  fixes f :: "('k session, unit) io_loop"
  assumes "write_all_ok g data f"
  shows "write_all_ok g data (writing f)"
  unfolding write_all_ok_def
proof (intro allI)
  fix w :: "'k cworld"
  let ?w = "on_session (\<lambda>k. k\<lparr>ss_writing := ss_writing k + 1\<rparr>) w"
  obtain r w1 k where "f ?w = Some (r, w1)" "k \<le> length data" "moved g ([], take k data, [], [], False) ?w w1"
    "r = Inr () \<longrightarrow> k = length data" using assms unfolding write_all_ok_def by blast
  then show "\<exists>r w' k. writing f w = Some (r, w') \<and> k \<le> length data \<and>
     moved g ([], take k data, [], [], False) w w' \<and> (r = Inr () \<longrightarrow> k = length data)"
    by (auto simp: writing_def)
qed

lemma splice_loop_ok:
  assumes "call_ok g P call"
  shows "\<exists>r w'. splice_loop call w = Some (r, w') \<and> does g P r w w'"
proof (induction "slack g w" arbitrary: w rule: less_induct)
  case less
  obtain r w1 where call: "call w = (r, w1)" by fastforce
  note d = call_okD [OF assms call]
  show ?case
  proof (cases r)
    case (Inr n)
    then show ?thesis using d by (subst splice_loop.simps) (simp add: call)
  next
    case (Inl err)
    then have l: "spent g w w1" using d by simp
    have "\<exists>r w'. splice_loop call w1 = Some (r, w') \<and> does g P r w w'"
      using less(1) [of w1] spent_slack [OF l] does_before [OF spent_same [OF l]] by blast
    then show ?thesis by (subst splice_loop.simps) (use call Inl l in auto)
  qed
qed

text \<open>Draining the pipe: what the destination accepts is the front of what was in the pipe.\<close>

definition drained :: "'k ghost \<Rightarrow> bytes \<Rightarrow> nat \<Rightarrow> 'k cworld \<Rightarrow> 'k cworld \<Rightarrow> bool" where
  "drained g data k w w' \<longleftrightarrow> k \<le> length data \<and> taken g w' = taken g w \<and> accepted g w' = accepted g w @ take k data \<and>
     piped g w' = drop k data \<and> slack g w' \<le> slack g w"

lemma drain_ok:
  assumes "outside_ok g (s_out S)" "\<And>n. call_ok g (splices_out n) (s_splice S (PipeRead p) (SockFd c) n)"
  shows "piped g w = data \<Longrightarrow> \<exists>r w' k. drain S p c (length data) w = Some (r, w') \<and> drained g data k w w' \<and>
    (r = Inr () \<longrightarrow> k = length data)"
proof (induction data arbitrary: w rule: length_induct)
  case (1 data)
  let ?call = "s_splice S (PipeRead p) (SockFd c) (length data)"
  obtain r w1 where r: "retry (s_out S) c True (write_deadline c w) ?call w = Some (r, w1)" "does g (splices_out (length data)) r w w1"
    using retry_ok [OF assms(1) assms(2)] by blast
  consider "data = []" | "data \<noteq> []" "\<exists>err. r = Inl err \<or> r = Inr 0" | n where "data \<noteq> []" "r = Inr (Suc n)"
    by (cases r; cases "data = []") (auto, metis not0_implies_Suc)
  then show ?case
  proof cases
    case 1
    then show ?thesis using "1.prems" by (subst drain.simps) (simp add: drained_def)
  next
    case 2
    then have "same g w w1" using r(2) by (auto simp: splices_out_def dest: spent_same)
    then have "drained g data 0 w w1" using "1.prems" by (simp add: drained_def moved_def)
    moreover obtain err where "drain S p c (length data) w = Some (Inl err, w1)"
      using 2 r(1) by (subst (asm) drain.simps) auto
    ultimately show ?thesis by blast
  next
    case (3 n)
    then obtain bs where bs: "length bs = Suc n" "Suc n \<le> length data" "moved g ([], bs, [], bs, False) w w1"
      using r(2) by (auto simp: splices_out_def)
    then have data: "bs @ piped g w1 = data" using "1.prems" by (simp add: moved_def)
    then have d: "piped g w1 = drop (Suc n) data" "bs = take (Suc n) data" using bs(1) by (metis append_eq_conv_conj)+
    obtain q w2 k where q: "drain S p c (length (drop (Suc n) data)) w1 = Some (q, w2)" "drained g (drop (Suc n) data) k w1 w2"
      "q = Inr () \<longrightarrow> k = length (drop (Suc n) data)"
      using "1.IH" [rule_format, of "drop (Suc n) data" w1] 3(1) bs(2) d(1) by auto
    have "drained g data (Suc n + k) w w2"
      using q(2) bs d take_add [of "Suc n" k data] by (auto simp: drained_def moved_def add.commute)
    moreover have "drain S p c (length data) w = Some (q, w2)"
      using 3 r(1) q(1) by (subst drain.simps) simp
    moreover have "q = Inr () \<longrightarrow> Suc n + k = length data" using q(3) bs(2) by auto
    ultimately show ?thesis by blast
  qed
qed

section \<open>What a copy does\<close>

text \<open>
  \<open>forwarded\<close>: everything taken has been accepted and counted, within the limit.  \<open>copied\<close>: how a one-way
  copy ends; on an error, the destination may lack the end of what was taken, and the count what a
  failed write got through.
\<close>

definition within :: "u64 option \<Rightarrow> u64 \<Rightarrow> nat \<Rightarrow> bool" where
  "within end_at tot n = (case end_at of None \<Rightarrow> True | Some e \<Rightarrow> n \<le> unat e - unat tot)"

definition forwarded :: "'k ghost \<Rightarrow> u64 option \<Rightarrow> u64 \<Rightarrow> 'k cworld \<Rightarrow> u64 \<Rightarrow> 'k cworld \<Rightarrow> bool" where
  "forwarded g end_at tot w tot' w' \<longleftrightarrow> (\<exists>t. taken g w' = taken g w @ t \<and> accepted g w' = accepted g w @ t \<and>
     piped g w' = piped g w \<and> tot' = tot + of_nat (length t) \<and> within end_at tot (length t))"

definition copied ::
  "'k ghost \<Rightarrow> u64 option \<Rightarrow> u64 \<Rightarrow> 'k cworld \<Rightarrow> copy_err + ended \<Rightarrow> u64 \<Rightarrow> 'k cworld \<Rightarrow> bool" where
  "copied g end_at tot w r tot' w' \<longleftrightarrow> (case r of
     Inr x \<Rightarrow> forwarded g end_at tot w tot' w' \<and> (x = Limit \<longleftrightarrow> at_limit tot' end_at)
   | Inl _ \<Rightarrow> \<exists>t k j. taken g w' = taken g w @ t \<and> accepted g w' = accepted g w @ take k t \<and>
       j \<le> k \<and> k \<le> length t \<and> tot' = tot + of_nat j \<and> within end_at tot (length t))"

lemma within_cap: "within end_at tot n" if "n \<le> cap len tot end_at"
  using that by (auto simp: within_def cap_def split: option.splits)

lemma within_add:
  assumes "within end_at tot n" "within end_at (tot + of_nat n) m"
  shows "within end_at tot (n + m)"
proof (cases end_at)
  case (Some e)
  show ?thesis
  proof (cases "n = 0")
    case False
    then have "unat tot + n \<le> unat e" using assms(1) Some by (simp add: within_def)
    then have "unat tot + n \<le> u64_max" by (rule order_trans [OF _ unat_u64_bound])
    then have "unat (tot + of_nat n) = unat tot + n"
      by (simp add: unat_word_ariths unat_of_nat take_bit_nat_eq_self_iff)
    then show ?thesis using assms Some by (simp add: within_def)
  qed (use assms in simp)
qed (simp add: within_def)

lemma forwarded_refl: "same g w w' \<Longrightarrow> forwarded g end_at tot w tot w'"
  by (auto simp: forwarded_def moved_def within_def split: option.splits intro!: exI [of _ "[]"])

lemma forwarded_trans:
  assumes "forwarded g end_at tot w tot1 w1" "forwarded g end_at tot1 w1 tot' w'"
  shows "forwarded g end_at tot w tot' w'"
proof -
  obtain t where t: "taken g w1 = taken g w @ t" "accepted g w1 = accepted g w @ t" "piped g w1 = piped g w"
    "tot1 = tot + of_nat (length t)" "within end_at tot (length t)"
    using assms(1) by (auto simp: forwarded_def)
  obtain u where u: "taken g w' = taken g w1 @ u" "accepted g w' = accepted g w1 @ u" "piped g w' = piped g w1"
    "tot' = tot1 + of_nat (length u)" "within end_at tot1 (length u)"
    using assms(2) by (auto simp: forwarded_def)
  have "taken g w' = taken g w @ (t @ u) \<and> accepted g w' = accepted g w @ (t @ u) \<and> piped g w' = piped g w \<and>
      tot' = tot + of_nat (length (t @ u)) \<and> within end_at tot (length (t @ u))"
    using t u within_add [OF t(5), of "length u"] by simp
  then show ?thesis unfolding forwarded_def by blast
qed

lemma forwarded_copied:
  assumes "forwarded g end_at tot w tot1 w1" "copied g end_at tot1 w1 r tot' w'"
  shows "copied g end_at tot w r tot' w'"
proof -
  obtain t where t: "taken g w1 = taken g w @ t" "accepted g w1 = accepted g w @ t" "piped g w1 = piped g w"
    "tot1 = tot + of_nat (length t)" "within end_at tot (length t)"
    using assms(1) by (auto simp: forwarded_def)
  show ?thesis
  proof (cases r)
    case (Inl err)
    then obtain u k j where u: "taken g w' = taken g w1 @ u" "accepted g w' = accepted g w1 @ take k u" "j \<le> k" "k \<le> length u"
      "tot' = tot1 + of_nat j" "within end_at tot1 (length u)"
      using assms(2) by (auto simp: copied_def)
    have "taken g w' = taken g w @ (t @ u) \<and> accepted g w' = accepted g w @ take (length t + k) (t @ u) \<and>
        length t + j \<le> length t + k \<and> length t + k \<le> length (t @ u) \<and> tot' = tot + of_nat (length t + j) \<and>
        within end_at tot (length (t @ u))"
      using t u within_add [OF t(5), of "length u"] by simp
    then show ?thesis unfolding copied_def Inl sum.case by blast
  next
    case (Inr x)
    then show ?thesis using assms(2) forwarded_trans [OF assms(1)] by (auto simp: copied_def)
  qed
qed

lemma pool_same [simp]:
  "moved g e w (give_back n w') = moved g e w w'" "moved g e w (give_back_pipe ends w') = moved g e w w'"
  "moved g e (give_back n w) w' = moved g e w w'" "moved g e (give_back_pipe ends w) w' = moved g e w w'"
  "piped g (give_back_pipe ends w) = piped g w" "slack g (give_back_pipe ends w) = slack g w"
  "slack g (give_back n w) = slack g w" "forwarded g end_at tot w tot' (give_back_pipe ends w') = forwarded g end_at tot w tot' w'"
  by (auto simp: give_back_def give_back_pipe_def Let_def forwarded_def split: option.splits)

lemma spare_buffer_same: "spare_buffer w = (len, w') \<Longrightarrow> same g w w'"
  by (auto simp: spare_buffer_def Let_def split: option.splits)

lemma copied_stop: "same g w w' \<Longrightarrow> copied g end_at tot w (Inl err) tot w'"
  unfolding copied_def by (auto simp: moved_def within_def split: option.splits intro!: exI [of _ "[]"])

lemma copied_end:
  "same g w w' \<Longrightarrow> (x = Limit \<longleftrightarrow> at_limit tot end_at) \<Longrightarrow> copied g end_at tot w (Inr x) tot w'"
  unfolding copied_def by (simp add: forwarded_refl)

text \<open>A chunk taken and then written: forwarded on success, on failure the end of the copy.\<close>

lemma chunk_forwarded:
  assumes "moved g (got, [], [], [], False) w w1" "length got \<le> cap len tot end_at" "moved g ([], got, [], [], False) w1 w2"
  shows "forwarded g end_at tot w (tot + of_nat (length got)) w2"
  using assms within_cap [OF assms(2)] by (auto simp: forwarded_def moved_def)

lemma chunk_lost:
  assumes "moved g (got, [], [], [], False) w w1" "length got \<le> cap len tot end_at" "k \<le> length got"
    "moved g ([], take k got, [], [], False) w1 w2"
  shows "copied g end_at tot w (Inl err) tot w2"
proof -
  have "taken g w2 = taken g w @ got \<and> accepted g w2 = accepted g w @ take k got \<and> 0 \<le> k \<and> k \<le> length got \<and>
      tot = tot + of_nat 0 \<and> within end_at tot (length got)"
    using assms within_cap [OF assms(2)] by (simp add: moved_def)
  then show ?thesis unfolding copied_def sum.case by blast
qed

lemma buffered_ok:
  assumes ok: "streams_ok g S src dst"
  shows "\<exists>r tot' w'. buffered S src dst sides end_at buf tot w = Some (r, tot', w') \<and> copied g end_at tot w r tot' w'"
proof (induction "slack g w" arbitrary: w buf tot rule: less_induct)
  case less
  have ok1: "outside_ok g (s_out S)" "source_ok g S src" "sink_ok g S dst" using ok by (simp_all add: streams_ok_def)
  have IH: "\<exists>r tot' w'. buffered S src dst sides end_at b n u = Some (r, tot', w') \<and> copied g end_at tot w r tot' w'"
    if "slack g u < slack g w" "forwarded g end_at tot w n u" for b n u
    using less(1) [OF that(1)] forwarded_copied [OF that(2)] by blast
  obtain q w1 where q: "(if buf = 0 then wait_for_data S src (fst sides) w else Some (Inr (), w)) = Some (q, w1)" "same g w w1"
    using wait_for_data_ok [OF ok1(1,2), of "fst sides" w] by (cases "buf = 0") auto
  obtain len w2 where len: "(if buf = 0 then spare_buffer w1 else (buf, w1)) = (len, w2)" by fastforce
  then have s2: "same g w w2" using q(2) spare_buffer_same spent_trans(3) by (metis prod.inject)
  let ?n = "cap len tot end_at"
  obtain r w3 where r: "stream_read_now S src ?n w2 = Some (r, w3)"
    "case r of Inl _ \<Rightarrow> same g w2 w3 | Inr None \<Rightarrow> spent g w2 w3
     | Inr (Some got) \<Rightarrow> length got \<le> ?n \<and> moved g (got, [], [], [], False) w2 w3"
    using stream_read_now_ok [OF ok1(2)] by blast
  note run = buffered.simps [of S src dst sides end_at buf tot w]
  consider "at_limit tot end_at" | "\<not> at_limit tot end_at" "past_deadline w"
    | err where "\<not> at_limit tot end_at" "\<not> past_deadline w" "q = Inl err"
    | "\<not> at_limit tot end_at" "\<not> past_deadline w" "q = Inr ()"
    by (cases q) auto
  then show ?case
  proof cases
    case 1
    then have "buffered S src dst sides end_at buf tot w = Some (Inr Limit, tot, give_back buf w)" by (simp add: run)
    then show ?thesis using 1 copied_end [of g w _ Limit tot end_at] by auto
  next
    case 2
    then have "buffered S src dst sides end_at buf tot w = Some (Inl MessageTimeout, tot, w)" by (simp add: run)
    then show ?thesis by (simp add: copied_stop)
  next
    case (3 err)
    then have "buffered S src dst sides end_at buf tot w = Some (Inl err, tot, w1)" by (simp add: run q(1))
    then show ?thesis using copied_stop [OF q(2)] by simp
  next
    case 4
    consider err where "r = Inl err" | "r = Inr None" | "r = Inr (Some [])" | got where "r = Inr (Some got)" "got \<noteq> []"
      by (metis obj_sumE option.exhaust)
    then show ?thesis
    proof cases
      case (1 err)
      then have "buffered S src dst sides end_at buf tot w = Some (Inl (read_err (fst sides) err), tot, w3)"
        using 4 r(1) by (simp add: run q(1) len)
      moreover have "same g w w3" using s2 r(2) 1 spent_trans(3) by auto
      ultimately show ?thesis by (simp add: copied_stop)
    next
      case 2
      then have "buffered S src dst sides end_at buf tot w = buffered S src dst sides end_at 0 tot (give_back len w3)"
        using 4 r(1) by (simp add: run q(1) len)
      moreover have "spent g w w3" using spent_trans(2) [OF s2] r(2) 2 by simp
      ultimately show ?thesis using IH [of "give_back len w3" tot 0] by (simp add: spent_slack forwarded_refl spent_same)
    next
      case 3
      then have "buffered S src dst sides end_at buf tot w = Some (Inr Eof, tot, give_back len w3)"
        using 4 r(1) by (simp add: run q(1) len)
      moreover have "same g w (give_back len w3)" using s2 r(2) 3 spent_trans(3) by auto
      ultimately show ?thesis using copied_end [of g w _ Eof tot end_at] 4(1) by auto
    next
      case (4 got)
      have m: "length got \<le> ?n" "moved g (got, [], [], [], False) w w3" using r(2) 4 moved_before [OF s2] by auto
      obtain v w4 k where v: "writing (stream_write_all S dst got) w3 = Some (v, w4)" "k \<le> length got"
        "moved g ([], take k got, [], [], False) w3 w4" "v = Inr () \<longrightarrow> k = length got"
        using writing_ok [OF stream_write_all_ok [OF ok1(1,3)]] unfolding write_all_ok_def by blast
      show ?thesis
      proof (cases v)
        case (Inl err)
        then have "buffered S src dst sides end_at buf tot w = Some (Inl (write_err (snd sides) err), tot, w4)"
          using \<open>q = Inr ()\<close> \<open>\<not> at_limit tot end_at\<close> \<open>\<not> past_deadline w\<close> 4 r(1) v(1) by (simp add: run q(1) len)
        then show ?thesis using chunk_lost [OF m(2,1) v(2,3)] by simp
      next
        case (Inr u)
        let ?b = "if length got = len \<and> length got < LARGE_BUFFER then LARGE_BUFFER else len"
        have "buffered S src dst sides end_at buf tot w = buffered S src dst sides end_at ?b (tot + of_nat (length got)) w4"
          using \<open>q = Inr ()\<close> \<open>\<not> at_limit tot end_at\<close> \<open>\<not> past_deadline w\<close> 4 r(1) v(1) Inr by (simp add: run q(1) len)
        moreover have "forwarded g end_at tot w (tot + of_nat (length got)) w4"
          using chunk_forwarded [OF m(2,1)] v(3,4) Inr by simp
        moreover have "slack g w4 < slack g w" using m(2) v(3) 4(2) by (simp add: moved_def)
        ultimately show ?thesis using IH by simp
      qed
    qed
  qed
qed

text \<open>A chunk spliced into the empty pipe and drained.\<close>

lemma writing_drain:
  assumes "outside_ok g (s_out S)" "\<And>n. call_ok g (splices_out n) (s_splice S (PipeRead p) (SockFd c) n)" "piped g w = data"
  shows "\<exists>r w' k. writing (drain S p c (length data)) w = Some (r, w') \<and> drained g data k w w' \<and> (r = Inr () \<longrightarrow> k = length data)"
proof -
  let ?w = "on_session (\<lambda>k. k\<lparr>ss_writing := ss_writing k + 1\<rparr>) w"
  obtain r w1 k where "drain S p c (length data) ?w = Some (r, w1)" "drained g data k ?w w1" "r = Inr () \<longrightarrow> k = length data"
    using drain_ok [OF assms(1,2), of ?w data] assms(3) by auto
  then show ?thesis by (auto simp: writing_def drained_def)
qed

lemma spliced_forwarded:
  assumes "moved g (bs, [], bs, [], False) w w1" "length bs \<le> cap len tot end_at" "drained g bs (length bs) w1 w2" "piped g w = []"
  shows "forwarded g end_at tot w (tot + of_nat (length bs)) w2"
  using assms within_cap [OF assms(2)] by (auto simp: forwarded_def moved_def drained_def)

lemma spliced_lost:
  assumes "moved g (bs, [], bs, [], False) w w1" "length bs \<le> cap len tot end_at" "drained g bs k w1 w2"
  shows "copied g end_at tot w (Inl err) tot w2"
proof -
  have "taken g w2 = taken g w @ bs \<and> accepted g w2 = accepted g w @ take k bs \<and> 0 \<le> k \<and> k \<le> length bs \<and>
      tot = tot + of_nat 0 \<and> within end_at tot (length bs)"
    using assms within_cap [OF assms(2)] by (simp add: moved_def drained_def)
  then show ?thesis unfolding copied_def sum.case by blast
qed

lemma take_pipe_same: "call_ok g waits (s_new_pipe S) \<Longrightarrow> take_pipe S w = (r, w') \<Longrightarrow> same g w w'"
  by (cases r) (auto simp: take_pipe_def Let_def waits_def dest!: call_okD intro: spent_same split: option.splits)

lemma splice_copy_ok:
  assumes ok: "streams_ok g S src dst" and fds: "plain_fd src = Some c" "plain_fd dst = Some d"
  shows "piped g w = [] \<Longrightarrow> \<exists>r tot' w'. splice_copy S src c d sides end_at ends spliced tot w = Some (r, tot', w') \<and>
    (case r of None \<Rightarrow> forwarded g end_at tot w tot' w' | Some x \<Rightarrow> copied g end_at tot w x tot' w')"
proof (induction "slack g w" arbitrary: w ends spliced tot rule: less_induct)
  case less
  let ?ends = "\<lambda>r tot' w'. case r of None \<Rightarrow> forwarded g end_at tot w tot' w' | Some x \<Rightarrow> copied g end_at tot w x tot' w'"
  have ok1: "outside_ok g (s_out S)" "source_ok g S src" "call_ok g waits (s_new_pipe S)" using ok by (simp_all add: streams_ok_def)
  have calls: "\<And>p n. call_ok g (splices_in n) (s_splice S (SockFd c) (PipeWrite p) n)"
    "\<And>p n. call_ok g (splices_out n) (s_splice S (PipeRead p) (SockFd d) n)"
    using ok fds by (auto simp: streams_ok_def elim!: plain_fd.elims)
  have IH: "\<exists>r tot' w'. splice_copy S src c d sides end_at e m n u = Some (r, tot', w') \<and> ?ends r tot' w'"
    if "slack g u < slack g w" "forwarded g end_at tot w n u" for e m n u
  proof -
    have "piped g u = []" using that(2) less(2) by (auto simp: forwarded_def)
    from less(1) [OF that(1) this] obtain r tot' w' where
      x: "splice_copy S src c d sides end_at e m n u = Some (r, tot', w')"
        "case r of None \<Rightarrow> forwarded g end_at n u tot' w' | Some x \<Rightarrow> copied g end_at n u x tot' w'" by blast
    have "?ends r tot' w'" using x(2) forwarded_copied [OF that(2)] forwarded_trans [OF that(2)] by (cases r) simp_all
    then show ?thesis using x(1) by blast
  qed
  obtain q w1 where q: "(case ends of None \<Rightarrow> wait_for_data S src (fst sides) w | Some _ \<Rightarrow> Some (Inr (), w)) = Some (q, w1)" "same g w w1"
    using wait_for_data_ok [OF ok1(1,2), of "fst sides" w] by (cases ends) auto
  obtain pr w2 where pr: "(case ends of None \<Rightarrow> take_pipe S w1 | Some p \<Rightarrow> (Inr p, w1)) = (pr, w2)" by fastforce
  then have s2: "same g w w2" using q(2) spent_trans(3) [OF q(2)] take_pipe_same [OF ok1(3), of w1] by (cases ends) auto
  note run = splice_copy.simps [of S src c d sides end_at ends spliced tot w]
  consider "at_limit tot end_at" | "\<not> at_limit tot end_at" "past_deadline w"
    | err where "\<not> at_limit tot end_at" "\<not> past_deadline w" "q = Inl err"
    | err where "\<not> at_limit tot end_at" "\<not> past_deadline w" "q = Inr ()" "pr = Inl err"
    | p where "\<not> at_limit tot end_at" "\<not> past_deadline w" "q = Inr ()" "pr = Inr p"
    by (cases q; cases pr) auto
  then show ?case
  proof cases
    case 1
    then show ?thesis using copied_end [of g w w Limit tot end_at] by (simp add: run copied_def)
  next
    case 2
    then show ?thesis by (simp add: run copied_stop)
  next
    case (3 err)
    then show ?thesis using copied_stop [OF q(2)] by (simp add: run q(1))
  next
    case (4 err)
    then show ?thesis using forwarded_refl [OF s2] by (simp add: run q(1) pr)
  next
    case (5 p)
    note here = 5 q(1) pr
    let ?n = "cap CHUNK tot end_at"
    obtain r w3 where r: "splice_loop (s_splice S (SockFd c) (PipeWrite p) ?n) w2 = Some (r, w3)" "does g (splices_in ?n) r w2 w3"
      using splice_loop_ok [OF calls(1)] by blast
    show ?thesis
    proof (cases r)
      case (Inl err)
      then have l: "spent g w w3" using r(2) spent_trans(2) [OF s2] by simp
      have "\<exists>r tot' w'. splice_copy S src c d sides end_at None spliced tot (give_back_pipe (Some p) w3) = Some (r, tot', w') \<and> ?ends r tot' w'"
        using IH [of "give_back_pipe (Some p) w3" tot None spliced] l by (simp add: spent_slack forwarded_refl spent_same)
      then show ?thesis
        using here Inl r(1) copied_stop [OF spent_same [OF l]] forwarded_refl [OF spent_same [OF l]] by (auto simp: run)
    next
      case (Inr n)
      then obtain bs where bs: "length bs = n" "length bs \<le> ?n" "moved g (bs, [], bs, [], False) w w3"
        using r(2) moved_before [OF s2] by (auto simp: splices_in_def)
      have piped3: "piped g w3 = bs" using bs(3) less(2) by (simp add: moved_def)
      obtain v w4 k where v: "writing (drain S p d n) w3 = Some (v, w4)" "drained g bs k w3 w4" "v = Inr () \<longrightarrow> k = length bs"
        using writing_drain [OF ok1(1) calls(2) piped3, of p] bs(1) by blast
      consider "n = 0" | err where "n \<noteq> 0" "v = Inl err" | "n \<noteq> 0" "v = Inr ()" by (cases v) auto
      then show ?thesis
      proof cases
        case 1
        then have "same g w w3" using bs by simp
        then show ?thesis using here Inr r(1) 1 copied_end [of g w "give_back_pipe (Some p) w3" Eof tot end_at] by (auto simp: run)
      next
        case (2 err)
        then show ?thesis using here Inr r(1) v(1) spliced_lost [OF bs(3,2) v(2)] by (simp add: run)
      next
        case 3
        have "forwarded g end_at tot w (tot + of_nat n) w4"
          using spliced_forwarded [OF bs(3,2) _ less(2)] v(2,3) 3 bs(1) by simp
        moreover have "slack g w4 < slack g w" using bs(1,3) v(2) 3 by (auto simp: moved_def drained_def)
        ultimately show ?thesis using here Inr r(1) v(1) 3 IH by (simp add: run)
      qed
    qed
  qed
qed

lemma one_way_ok:
  assumes "streams_ok g S src dst" "piped g w = []"
  shows "\<exists>r tot' w'. one_way linux S src dst sides end_at tot w = Some (r, tot', w') \<and> copied g end_at tot w r tot' w'"
proof (cases "\<exists>c d. linux \<and> plain_fd src = Some c \<and> plain_fd dst = Some d")
  case True
  then obtain c d where fds: "plain_fd src = Some c" "plain_fd dst = Some d" and linux by blast
  obtain r tot1 w1 where r: "splice_copy S src c d sides end_at None 0 tot w = Some (r, tot1, w1)"
    "case r of None \<Rightarrow> forwarded g end_at tot w tot1 w1 | Some x \<Rightarrow> copied g end_at tot w x tot1 w1"
    using splice_copy_ok [OF assms(1) fds assms(2)] by blast
  show ?thesis
  proof (cases r)
    case None
    obtain y tot2 w2 where "buffered S src dst sides end_at 0 tot1 w1 = Some (y, tot2, w2)" "copied g end_at tot1 w1 y tot2 w2"
      using buffered_ok [OF assms(1)] by blast
    then show ?thesis using r None fds \<open>linux\<close> forwarded_copied by (fastforce simp: one_way_def)
  next
    case (Some x)
    then show ?thesis using r fds \<open>linux\<close> by (simp add: one_way_def)
  qed
next
  case False
  then have "one_way linux S src dst sides end_at tot w = buffered S src dst sides end_at 0 tot w"
    by (auto simp: one_way_def split: option.splits)
  then show ?thesis using buffered_ok [OF assms(1)] by simp
qed

section \<open>Copying to a stream\<close>

lemma limit_end: "m + unat (n :: u64) \<le> u64_max \<Longrightarrow> unat (of_nat m + n) = m + unat n \<and> unat (of_nat m :: u64) = m"
  by (simp add: unat_word_ariths unat_of_nat)

text \<open>
  C6. Copying to a stream is exact.  Given sockets that behave as documented and fail only finitely often,
  \<^verbatim>\<open>copy_to\<close> returns, with \<^verbatim>\<open>splice\<close> or without; what the destination accepted is a beginning of the prefix
  followed by the bytes taken from the source, in order; with a limit, no byte past it is ever taken;
  the count it returns is of bytes accepted; and when it reports no error the destination accepted all
  of it, the count is its length, and with a limit exactly that many bytes were taken.
\<close>

theorem copy_to_exact:
  assumes "streams_ok g S src dst" "piped g w = []"
    and "case limit of None \<Rightarrow> True | Some n \<Rightarrow> length prefix + unat n \<le> u64_max"
  shows "\<exists>tot err w' t k j. copy_to linux S src dst prefix limit d w = Some (tot, err, w') \<and>
    taken g w' = taken g w @ t \<and> accepted g w' = accepted g w @ take k (prefix @ t) \<and>
    tot = of_nat j \<and> j \<le> k \<and> k \<le> length (prefix @ t) \<and>
    (case limit of None \<Rightarrow> True | Some n \<Rightarrow> length t \<le> unat n) \<and>
    (err = None \<longrightarrow> j = length (prefix @ t) \<and> (case limit of None \<Rightarrow> True | Some n \<Rightarrow> length t = unat n))"
proof -
  let ?w = "shared_new d w" and ?p = "of_nat (length prefix) :: u64"
  let ?lim = "map_option (\<lambda>n. ?p + n) limit"
  have view: "taken g ?w = taken g w" "accepted g ?w = accepted g w" "piped g ?w = []" using assms(2) by (simp_all add: shared_new_def)
  have ok1: "outside_ok g (s_out S)" "sink_ok g S dst" using assms(1) by (simp_all add: streams_ok_def)
  obtain q w1 k where q: "(if prefix = [] then Some (Inr (), ?w) else stream_write_all S dst prefix ?w) = Some (q, w1)"
    "k \<le> length prefix" "moved g ([], take k prefix, [], [], False) ?w w1" "q = Inr () \<longrightarrow> k = length prefix"
  proof (cases "prefix = []")
    case False
    then show ?thesis using that stream_write_all_ok [OF ok1] unfolding write_all_ok_def by (metis (no_types, lifting))
  qed (use that [of "Inr ()" ?w 0] in simp)
  show ?thesis
  proof (cases q)
    case (Inl err)
    then have "copy_to linux S src dst prefix limit d w = Some (0, Some (write_err B err), w1)"
      using q(1) by (simp add: copy_to_def)
    moreover have "taken g w1 = taken g w @ [] \<and> accepted g w1 = accepted g w @ take k (prefix @ []) \<and> 0 = of_nat 0 \<and>
      0 \<le> k \<and> k \<le> length (prefix @ [])" using q(2,3) view by (simp add: moved_def)
    ultimately show ?thesis
      by (intro exI [of _ 0] exI [of _ "Some (write_err B err)"] exI [of _ w1] exI [of _ "[]"] exI [of _ k]) (simp split: option.splits)
  next
    case (Inr u)
    then have w1: "taken g w1 = taken g w" "accepted g w1 = accepted g w @ prefix" "piped g w1 = []"
      using q(3,4) view by (simp_all add: moved_def)
    obtain r tot w2 where r: "one_way linux S src dst (A, B) ?lim ?p w1 = Some (r, tot, w2)" "copied g ?lim ?p w1 r tot w2"
      using one_way_ok [OF assms(1) w1(3)] by blast
    have room: "case limit of None \<Rightarrow> True | Some m \<Rightarrow> n \<le> unat m" if "within ?lim ?p n" for n
      using that assms(3) limit_end by (auto simp: within_def split: option.splits)
    show ?thesis
    proof (cases r)
      case (Inl err)
      then obtain t m j where t: "taken g w2 = taken g w1 @ t" "accepted g w2 = accepted g w1 @ take m t"
        "j \<le> m" "m \<le> length t" "tot = ?p + of_nat j" "within ?lim ?p (length t)"
        using r(2) by (auto simp: copied_def)
      have "copy_to linux S src dst prefix limit d w = Some (tot, Some err, w2)"
        using q(1) r(1) Inr Inl by (simp add: copy_to_def)
      moreover have "accepted g w2 = accepted g w @ take (length prefix + m) (prefix @ t)" "tot = of_nat (length prefix + j)"
        using t w1 by simp_all
      ultimately show ?thesis using t(1,3,4) room [OF t(6)] w1(1)
        by (intro exI [of _ tot] exI [of _ "Some err"] exI [of _ w2] exI [of _ t] exI [of _ "length prefix + m"]
            exI [of _ "length prefix + j"]) simp
    next
      case x: (Inr x)
      then obtain t where t: "taken g w2 = taken g w @ t" "accepted g w2 = accepted g w @ prefix @ t"
        "tot = of_nat (length (prefix @ t))" "within ?lim ?p (length t)" and x_limit: "x = Limit \<longleftrightarrow> at_limit tot ?lim"
        using r(2) w1 by (auto simp: copied_def forwarded_def)
      let ?err = "if x = Eof \<and> limit \<noteq> None then Some (ReadErr A (SimpleError UnexpectedEof)) else None"
      have "copy_to linux S src dst prefix limit d w = Some (tot, ?err, w2)"
        using q(1) r(1) Inr x by (cases x) (simp_all add: copy_to_def)
      moreover have "case limit of None \<Rightarrow> True | Some n \<Rightarrow> length t = unat n" if "?err = None"
      proof (cases limit)
        case (Some n)
        then have l: "length prefix + unat n \<le> u64_max" "length t \<le> unat n" using assms(3) room [OF t(4)] by auto
        have "unat (?p + n) \<le> unat tot" using that x_limit Some by (cases x) (auto simp: at_limit_def word_le_nat_alt)
        moreover have "unat tot = length prefix + length t" using t(3) l by (simp add: unat_word_ariths unat_of_nat)
        ultimately show ?thesis using Some l limit_end by simp
      qed simp
      ultimately show ?thesis using t(1,2,3) room [OF t(4)]
        by (intro exI [of _ tot] exI [of _ ?err] exI [of _ w2] exI [of _ t] exI [of _ "length (prefix @ t)"]
            exI [of _ "length (prefix @ t)"]) simp
    qed
  qed
qed

text \<open>
  A kernel for examples: what is still to come from the source (an empty chunk is a read that would
  block), then what was taken, accepted and is in the pipe.
\<close>

type_synonym demo_kernel = "bytes list \<times> bytes \<times> bytes \<times> bytes"

fun demo_take :: "nat \<Rightarrow> bytes list \<Rightarrow> (bytes option) \<times> bytes list" where
  "demo_take n [] = (Some [], [])"
| "demo_take n (chunk # rest) =
     (if chunk = [] then (None, rest)
      else (Some (take n chunk), if drop n chunk = [] then rest else drop n chunk # rest))"

definition demo_step :: "(demo_kernel \<Rightarrow> (io_error + 'r) \<times> demo_kernel) \<Rightarrow> (demo_kernel session, 'r) io" where
  "demo_step f w = (case f (ss_kernel (w_kernel w)) of (r, k) \<Rightarrow> (r, on_session (\<lambda>s. s\<lparr>ss_kernel := k\<rparr>) w))"

fun demo_read :: "bool \<Rightarrow> nat \<Rightarrow> demo_kernel \<Rightarrow> (io_error + bytes) \<times> demo_kernel" where
  "demo_read pipe n (coming, t, a, p) =
     (case demo_take n coming of
        (None, rest) \<Rightarrow> (Inl (OsError 11 WouldBlock), rest, t, a, p)
      | (Some got, rest) \<Rightarrow> (Inr got, rest, t @ got, a, if pipe then p @ got else p))"

fun demo_splice :: "raw_fd \<Rightarrow> raw_fd \<Rightarrow> nat \<Rightarrow> demo_kernel \<Rightarrow> (io_error + nat) \<times> demo_kernel" where
  "demo_splice (SockFd c) q n k = (case demo_read True n k of (r, k1) \<Rightarrow> (map_sum id length r, k1))"
| "demo_splice f q n (coming, t, a, p) = (Inr (min n (length p)), coming, t, a @ take n p, drop n p)"

definition demo_streams :: "demo_kernel streams" where
  "demo_streams = \<lparr>s_out = demo_out, s_peek = (\<lambda>c w. (Inr (), w)), s_read = (\<lambda>c n. demo_step (demo_read False n)),
     s_write = (\<lambda>c data. demo_step (\<lambda>(coming, t, a, p). (Inr (length data), coming, t, a @ data, p))),
     s_shutdown = (\<lambda>c how w. w), s_linger = (\<lambda>c w. w), s_disconnect = (\<lambda>c w. (True, w)),
     s_splice = (\<lambda>f q n. demo_step (demo_splice f q n)), s_new_pipe = (\<lambda>w. (Inr 0, w)),
     s_tls = undefined, s_noise = undefined\<rparr>"

definition demo_slack :: "bytes list \<Rightarrow> nat" where
  "demo_slack coming = (\<Sum>chunk \<leftarrow> coming. length chunk + 1)"

definition demo_ghost :: "demo_kernel ghost" where
  "demo_ghost = \<lparr>g_taken = (\<lambda>(coming, t, a, p). t), g_accepted = (\<lambda>(coming, t, a, p). a), g_piped = (\<lambda>(coming, t, a, p). p),
     g_slack = (\<lambda>(coming, t, a, p). demo_slack coming)\<rparr>"

lemma demo_take_slack:
  "demo_take n coming = (None, rest) \<Longrightarrow> demo_slack rest < demo_slack coming"
  "demo_take n coming = (Some got, rest) \<Longrightarrow> length got \<le> n \<and> demo_slack rest \<le> demo_slack coming \<and>
     (got \<noteq> [] \<longrightarrow> demo_slack rest < demo_slack coming)"
  by (cases coming; auto simp: demo_slack_def split: if_splits)+

lemma demo_call_ok:
  assumes "\<And>coming t a p. case f (coming, t, a, p) of (r, coming', t', a', p') \<Rightarrow>
      (case r of Inl _ \<Rightarrow> t' = t \<and> a' = a \<and> p' = p \<and> demo_slack coming' < demo_slack coming
       | Inr x \<Rightarrow> \<exists>tt aa i out. P x (tt, aa, i, out, False) \<and> t' = t @ tt \<and> a' = a @ aa \<and> out @ p' = p @ i \<and>
           demo_slack coming' \<le> demo_slack coming \<and> (tt \<noteq> [] \<longrightarrow> demo_slack coming' < demo_slack coming))"
  shows "call_ok demo_ghost P (demo_step f)"
  unfolding call_ok_def
proof
  fix w :: "demo_kernel cworld"
  obtain coming t a p where k: "ss_kernel (w_kernel w) = (coming, t, a, p)" by (metis prod_cases4)
  obtain r coming' t' a' p' where f: "f (coming, t, a, p) = (r, coming', t', a', p')" by (metis prod_cases5)
  note views = moved_def taken_def accepted_def piped_def slack_def demo_ghost_def on_session_def
  show "does demo_ghost P (fst (demo_step f w)) w (snd (demo_step f w))"
  proof (cases r)
    case (Inl err)
    then show ?thesis using assms [where coming = coming and t = t and a = a and p = p] k f by (simp add: demo_step_def views)
  next
    case (Inr x)
    then obtain tt aa i out where "P x (tt, aa, i, out, False)" "t' = t @ tt" "a' = a @ aa" "out @ p' = p @ i"
      "demo_slack coming' \<le> demo_slack coming" "tt \<noteq> [] \<longrightarrow> demo_slack coming' < demo_slack coming"
      using assms [where coming = coming and t = t and a = a and p = p] f by auto
    then show ?thesis
      using k f Inr by (auto simp: demo_step_def views intro!: exI [of _ "(tt, aa, i, out, False)"])
  qed
qed

lemma demo_streams_ok: "streams_ok demo_ghost demo_streams (TcpStream 0) (TcpStream 1)"
proof -
  have "outside_ok demo_ghost demo_out"
    by (auto simp: outside_ok_def demo_out_def moved_def taken_def accepted_def piped_def slack_def)
  moreover have "call_ok demo_ghost (reads n) (demo_step (demo_read False n))" for n
    by (rule demo_call_ok) (auto simp: reads_def dest: demo_take_slack split: prod.splits option.splits)
  moreover have "call_ok demo_ghost (splices_in n) (demo_step (demo_splice (SockFd c) q n))" for c q n
    by (rule demo_call_ok) (auto simp: splices_in_def dest: demo_take_slack split: prod.splits option.splits)
  moreover have "call_ok demo_ghost (splices_out n) (demo_step (demo_splice (PipeRead p) q n))" for p q n
    by (rule demo_call_ok) (auto simp: splices_out_def intro!: exI [of _ "take n _"])
  moreover have "call_ok demo_ghost (writes data) (demo_step (\<lambda>(coming, t, a, p). (Inr (length data), coming, t, a @ data, p)))" for data
    by (rule demo_call_ok) (auto simp: writes_def)
  ultimately show ?thesis
    by (simp add: streams_ok_def demo_streams_def call_ok_def waits_def)
qed

definition demo_session :: "demo_kernel cworld" where
  "demo_session = demo_world \<lparr>ss_progress = 0, ss_writing = 0, ss_ended_into = (\<lambda>_. False), ss_first_err = None, ss_deadline = Never,
     ss_b_to_a = 0, ss_thread = 0, ss_buffers = (\<lambda>_. []), ss_pipes = (\<lambda>_. []), ss_kernel = ([[3, 4], [], [5, 6]], [], [], [])\<rparr>"

lemma demo_session_views:
  "piped demo_ghost demo_session = []" "taken demo_ghost demo_session = []" "accepted demo_ghost demo_session = []"
  by (simp_all add: demo_session_def demo_world_def demo_ghost_def piped_def taken_def accepted_def)

theorem copy_to_exact_witness:
  "\<exists>tot err w' t k j. copy_to True demo_streams (TcpStream 0) (TcpStream 1) [1, 2] (Some 3) Never demo_session =
     Some (tot, err, w') \<and> taken demo_ghost w' = t \<and> accepted demo_ghost w' = take k ([1, 2] @ t) \<and>
     tot = of_nat j \<and> j \<le> k \<and> k \<le> length ([1, 2] @ t) \<and> length t \<le> 3 \<and> (err = None \<longrightarrow> j = length ([1, 2] @ t) \<and> length t = 3)"
  using copy_to_exact [OF demo_streams_ok demo_session_views(1), where limit = "Some 3" and prefix = "[1, 2]" and linux = True and d = Never]
  unfolding demo_session_views(2,3) by simp

text \<open>
  The end of the copy is computed without a check for overflow.  A limit so large that the prefix's
  length pushes it past the largest 64-bit number makes the copy end at once, as a success.
\<close>

lemma copy_to_limit_wraps:
  assumes "prefix \<noteq> []" "stream_write_all S dst prefix (shared_new d w) = Some (Inr (), w1)"
    and "length prefix \<le> u64_max" "u64_max < length prefix + unat n"
  shows "\<exists>w'. copy_to linux S src dst prefix (Some n) d w = Some (of_nat (length prefix), None, w')"
proof -
  let ?p = "of_nat (length prefix) :: u64"
  obtain N where N: "unat n = N" "N \<le> u64_max" using unat_u64_bound [of n] by blast
  have "unat ?p = length prefix" using assms(3) by (simp add: unat_of_nat)
  moreover have "unat (?p + n) = length prefix + N - (u64_max + 1)"
    using assms(3,4) N by (simp add: unat_word_ariths unat_of_nat le_mod_geq)
  ultimately have "at_limit ?p (Some (?p + n))"
    using N(2) by (simp add: at_limit_def word_le_nat_alt)
  then show ?thesis
    using assms(1,2) splice_copy.simps [of S src _ _ "(A, B)" "Some (?p + n)" None 0 ?p w1] buffered.simps [of S src dst "(A, B)" "Some (?p + n)" 0 ?p w1]
    by (auto simp: copy_to_def one_way_def Let_def split: option.splits)
qed

section \<open>Copying both ways\<close>

text \<open>
  What the directions tell each other, in any order: errors, and ends passed on.  The error reported is
  the first; when it came, each stream was aborted unless everything sent to it was complete, and then
  it was only stopped from reading.
\<close>

datatype copy_event = Failed copy_err | EndedInto side

fun copy_note :: "'k streams \<Rightarrow> socket \<Rightarrow> socket \<Rightarrow> copy_event \<Rightarrow> 'k cworld \<Rightarrow> 'k cworld" where
  "copy_note S a b (Failed err) w = fail S err a b w"
| "copy_note S a b (EndedInto side) w = ended_into side w"

lemma first_error_wins:
  assumes "ss_first_err (w_kernel w) = None" "\<forall>e \<in> set pre. \<exists>side. e = EndedInto side"
    and "\<And>how s w. w_kernel (shutdown_stream how S s w) = (w_kernel w)\<lparr>ss_kernel := ss_kernel (w_kernel (shutdown_stream how S s w))\<rparr>"
    and "\<And>s w. w_kernel (abort S s w) = (w_kernel w)\<lparr>ss_kernel := ss_kernel (w_kernel (abort S s w))\<rparr>"
  shows "let w0 = on_session (\<lambda>k. k\<lparr>ss_first_err := Some err\<rparr>) (fold (copy_note S a b) pre w);
      w1 = (if EndedInto A \<in> set pre \<or> ss_ended_into (w_kernel w) A then stop_reading S a w0 else abort S a w0);
      w2 = (if EndedInto B \<in> set pre \<or> ss_ended_into (w_kernel w) B then stop_reading S b w1 else abort S b w1);
      w' = fold (copy_note S a b) (pre @ Failed err # post) w
    in ss_first_err (w_kernel w') = Some err \<and> ss_kernel (w_kernel w') = ss_kernel (w_kernel w2)"
proof -
  have pre: "ss_first_err (w_kernel (fold (copy_note S a b) pre w)) = None \<and>
      (\<forall>side. ss_ended_into (w_kernel (fold (copy_note S a b) pre w)) side \<longleftrightarrow> EndedInto side \<in> set pre \<or> ss_ended_into (w_kernel w) side)"
    using assms(1,2) by (induction pre arbitrary: w) (auto simp: ended_into_def on_session_def)
  have post: "ss_first_err (w_kernel v) = Some err \<Longrightarrow> ss_first_err (w_kernel (fold (copy_note S a b) post v)) = Some err \<and>
      ss_kernel (w_kernel (fold (copy_note S a b) post v)) = ss_kernel (w_kernel v)" for v
  proof (induction post arbitrary: v)
    case (Cons e post)
    have "ss_first_err (w_kernel (copy_note S a b e v)) = Some err \<and> ss_kernel (w_kernel (copy_note S a b e v)) = ss_kernel (w_kernel v)"
      using Cons.prems by (cases e) (auto simp: fail_def ended_into_def on_session_def)
    then show ?case using Cons.IH by simp
  qed simp
  have keep: "ss_first_err (w_kernel (shutdown_stream how S s v)) = ss_first_err (w_kernel v)"
    "ss_ended_into (w_kernel (shutdown_stream how S s v)) = ss_ended_into (w_kernel v)"
    "ss_first_err (w_kernel (abort S s v)) = ss_first_err (w_kernel v)"
    "ss_ended_into (w_kernel (abort S s v)) = ss_ended_into (w_kernel v)" for how s v
    using arg_cong [OF assms(3) [of how s v], of ss_first_err] arg_cong [OF assms(3) [of how s v], of ss_ended_into]
      arg_cong [OF assms(4) [of s v], of ss_first_err] arg_cong [OF assms(4) [of s v], of ss_ended_into] by simp_all
  show ?thesis
    using pre post by (simp add: Let_def fail_def end_stream_def stop_reading_def keep on_session_def)
qed

end
