(* ===== verification/Files.thy ===== *)
theory Files
  imports Stdin
begin

text \<open>
  Files (\<^verbatim>\<open>src/files.rs\<close>): replacing a file atomically, creating one only if nothing is there, and the other
  hosted file functions, over a model of what they use of \<^verbatim>\<open>std::fs\<close> and \<^verbatim>\<open>std::path\<close>.

  A path is whether it is absolute and its components.  The file system maps paths to inodes and inodes
  to contents; a crash or another program may look at it after any call, so the state has the views of
  all files after each.  Which calls fail, how much a failed write got through, and the random bytes
  are parameters.
\<close>

section \<open>Paths\<close>

type_synonym path = "bool \<times> str list"

fun split_slash :: "str \<Rightarrow> str list" where
  "split_slash [] = [[]]"
| "split_slash (c # cs) =
     (if c = 47 then [] # split_slash cs
      else case split_slash cs of [] \<Rightarrow> [[c]] | part # parts \<Rightarrow> (c # part) # parts)"

text \<open>\<^verbatim>\<open>Path::components\<close>: empty parts and \<^verbatim>\<open>.\<close> go, but for a \<^verbatim>\<open>.\<close> at the start of a relative path.\<close>

definition path_of :: "str \<Rightarrow> path" where
  "path_of text =
     (let absolute = (text \<noteq> [] \<and> hd text = 47); parts = split_slash text;
          rest = filter (\<lambda>part. part \<noteq> [] \<and> part \<noteq> lit ''.'') parts
      in (absolute, if \<not> absolute \<and> hd parts = lit ''.'' then lit ''.'' # rest else rest))"

fun file_name :: "path \<Rightarrow> str option" where
  "file_name (absolute, comps) =
     (if comps = [] \<or> last comps = lit ''.'' \<or> last comps = lit ''..'' then None else Some (last comps))"

fun parent :: "path \<Rightarrow> path option" where
  "parent (absolute, comps) = (if comps = [] then None else Some (absolute, butlast comps))"

fun join :: "path \<Rightarrow> str \<Rightarrow> path" where
  "join (absolute, comps) name = (absolute, comps @ [name])"

text \<open>The file a path leads to: \<^verbatim>\<open>.\<close> stays where it is.\<close>

fun resolve :: "path \<Rightarrow> path" where
  "resolve (absolute, comps) = (absolute, filter (\<lambda>part. part \<noteq> lit ''.'') comps)"

definition split_path :: "path \<Rightarrow> io_error + path \<times> str" where
  "split_path p =
     (case file_name p of
        None \<Rightarrow> Inl (CustomError InvalidInput (lit ''not a file path''))
      | Some name \<Rightarrow>
          Inr (case parent p of
                 Some dir \<Rightarrow> if dir = (False, []) then (False, [lit ''.'']) else dir
               | None \<Rightarrow> (False, [lit ''.'']), name))"

section \<open>The file system\<close>

record disk =
  d_names :: "path \<Rightarrow> nat option"
  d_data :: "nat \<Rightarrow> bytes"
  d_mode :: "nat \<Rightarrow> u32"
  d_synced :: "nat \<Rightarrow> bool"
  d_next :: nat
  d_calls :: nat
  d_views :: "(path \<Rightarrow> bytes option) list"

record os =
  os_fault :: "nat \<Rightarrow> io_error option"
  os_written :: "nat \<Rightarrow> nat"
  os_random :: "nat \<Rightarrow> bytes option"

type_synonym 'a fs = "disk \<Rightarrow> (io_error + 'a) \<times> disk"

definition view :: "disk \<Rightarrow> path \<Rightarrow> bytes option" where
  "view d p = map_option (d_data d) (d_names d p)"

definition tick :: "disk \<Rightarrow> disk" where
  "tick d = d\<lparr>d_calls := d_calls d + 1, d_views := d_views d @ [view d]\<rparr>"

text \<open>A call that fails, or takes effect.\<close>

definition fs_call :: "os \<Rightarrow> 'a fs \<Rightarrow> 'a fs" where
  "fs_call os f d =
     (case os_fault os (d_calls d) of
        Some err \<Rightarrow> (Inl err, tick d)
      | None \<Rightarrow> (case f d of (r, d1) \<Rightarrow> (r, tick d1)))"

definition not_found :: io_error where "not_found = OsError 2 NotFound"
definition already_exists :: io_error where "already_exists = OsError 17 AlreadyExists"

record open_options =
  oo_create :: bool
  oo_create_new :: bool
  oo_truncate :: bool
  oo_append :: bool
  oo_mode :: u32

definition new_file :: "u32 \<Rightarrow> path \<Rightarrow> disk \<Rightarrow> disk" where
  "new_file mode p d =
     d\<lparr>d_names := (d_names d)(p \<mapsto> d_next d), d_data := (d_data d)(d_next d := []), d_mode := (d_mode d)(d_next d := mode),
       d_synced := (d_synced d)(d_next d := False), d_next := d_next d + 1\<rparr>"

text \<open>\<^verbatim>\<open>OpenOptions::open\<close> for writing: the inode.\<close>

definition open_file :: "os \<Rightarrow> open_options \<Rightarrow> path \<Rightarrow> nat fs" where
  "open_file os opts p = fs_call os (\<lambda>d.
     case d_names d (resolve p) of
       None \<Rightarrow> if oo_create opts \<or> oo_create_new opts then (Inr (d_next d), new_file (oo_mode opts) (resolve p) d) else (Inl not_found, d)
     | Some i \<Rightarrow>
         if oo_create_new opts then (Inl already_exists, d)
         else (Inr i, if oo_truncate opts then d\<lparr>d_data := (d_data d)(i := []), d_synced := (d_synced d)(i := False)\<rparr> else d))"

text \<open>\<^verbatim>\<open>write_all\<close> to a file just created, truncated or opened for appending; a failed one may have got part of the way.\<close>

definition append_bytes :: "nat \<Rightarrow> bytes \<Rightarrow> disk \<Rightarrow> disk" where
  "append_bytes i data d = d\<lparr>d_data := (d_data d)(i := d_data d i @ data), d_synced := (d_synced d)(i := False)\<rparr>"

definition file_write_all :: "os \<Rightarrow> nat \<Rightarrow> bytes \<Rightarrow> unit fs" where
  "file_write_all os i data d =
     (case os_fault os (d_calls d) of
        Some err \<Rightarrow> (Inl err, tick (append_bytes i (take (os_written os (d_calls d)) data) d))
      | None \<Rightarrow> (Inr (), tick (append_bytes i data d)))"

definition sync_all :: "os \<Rightarrow> nat \<Rightarrow> unit fs" where
  "sync_all os i = fs_call os (\<lambda>d. (Inr (), d\<lparr>d_synced := (d_synced d)(i := True)\<rparr>))"

definition remove_file :: "os \<Rightarrow> path \<Rightarrow> unit fs" where
  "remove_file os p = fs_call os (\<lambda>d.
     if d_names d (resolve p) = None then (Inl not_found, d)
     else (Inr (), d\<lparr>d_names := (d_names d)(resolve p := None)\<rparr>))"

definition rename_file :: "os \<Rightarrow> path \<Rightarrow> path \<Rightarrow> unit fs" where
  "rename_file os p q = fs_call os (\<lambda>d.
     if d_names d (resolve p) = None then (Inl not_found, d)
     else if d_names d (resolve p) = d_names d (resolve q) then (Inr (), d)
     else (Inr (), d\<lparr>d_names := (d_names d)(resolve q := d_names d (resolve p), resolve p := None)\<rparr>))"

definition hard_link :: "os \<Rightarrow> path \<Rightarrow> path \<Rightarrow> unit fs" where
  "hard_link os p q = fs_call os (\<lambda>d.
     if d_names d (resolve p) = None then (Inl not_found, d)
     else if d_names d (resolve q) \<noteq> None then (Inl already_exists, d)
     else (Inr (), d\<lparr>d_names := (d_names d)(resolve q := d_names d (resolve p))\<rparr>))"

definition read_file :: "os \<Rightarrow> path \<Rightarrow> bytes fs" where
  "read_file os p = fs_call os (\<lambda>d. (case view d (resolve p) of None \<Rightarrow> Inl not_found | Some data \<Rightarrow> Inr data, d))"

definition symlink_metadata :: "os \<Rightarrow> path \<Rightarrow> unit fs" where
  "symlink_metadata os p = fs_call os (\<lambda>d. (if d_names d (resolve p) = None then Inl not_found else Inr (), d))"

text \<open>Opening and flushing a directory: calls that may fail and change no file.\<close>

definition sync_directory :: "os \<Rightarrow> disk \<Rightarrow> disk" where
  "sync_directory os d =
     (case fs_call os (\<lambda>d. (Inr (), d)) d of
        (Inl _, d1) \<Rightarrow> d1
      | (Inr _, d1) \<Rightarrow> snd (fs_call os (\<lambda>d. (Inr (), d)) d1))"

section \<open>Writing files\<close>

text \<open>The hexadecimal digits of a byte, and the name of a temporary file.\<close>

definition hex_digit :: "nat \<Rightarrow> nat" where
  "hex_digit n = (if n < 10 then 48 + n else 87 + n)"

definition hex_text :: "bytes \<Rightarrow> str" where
  "hex_text bs = concat (map (\<lambda>b. [hex_digit (unat b div 16), hex_digit (unat b mod 16)]) bs)"

definition temp_path :: "path \<Rightarrow> str \<Rightarrow> bytes \<Rightarrow> path" where
  "temp_path dir name random = join dir (lit ''.'' @ name @ lit ''.'' @ hex_text random @ lit ''.tmp'')"

definition create_new :: "u32 \<Rightarrow> open_options" where
  "create_new mode = \<lparr>oo_create = False, oo_create_new = True, oo_truncate = False, oo_append = False, oo_mode = mode\<rparr>"

text \<open>The loop of \<^verbatim>\<open>write_temp\<close>.  The generator is asked after as many calls as have been made.\<close>

function temp_loop :: "os \<Rightarrow> path \<Rightarrow> str \<Rightarrow> bytes \<Rightarrow> u32 \<Rightarrow> nat \<Rightarrow> path fs" where
  "temp_loop os dir name data mode attempt d =
     (case os_random os (d_calls d) of
        None \<Rightarrow> (Inl (CustomError OtherError (lit ''the secure random generator failed'')), d)
      | Some random \<Rightarrow>
          let temp = temp_path dir name random
          in case open_file os (create_new mode) temp d of
               (Inl err, d1) \<Rightarrow>
                 if err_kind err = AlreadyExists \<and> attempt < 8 then temp_loop os dir name data mode (attempt + 1) d1
                 else (Inl err, d1)
             | (Inr i, d1) \<Rightarrow>
                 (case file_write_all os i data d1 of
                    (Inl err, d2) \<Rightarrow> (Inl err, snd (remove_file os temp d2))
                  | (Inr _, d2) \<Rightarrow>
                      (case sync_all os i d2 of
                         (Inl err, d3) \<Rightarrow> (Inl err, snd (remove_file os temp d3))
                       | (Inr _, d3) \<Rightarrow> (Inr temp, d3))))"
  by pat_completeness auto
termination by (relation "measure (\<lambda>(os, dir, name, data, mode, attempt, d). 8 - attempt)") auto

declare temp_loop.simps [simp del]

definition write_temp :: "os \<Rightarrow> path \<Rightarrow> bytes \<Rightarrow> u32 \<Rightarrow> path fs" where
  "write_temp os p data mode d =
     (case split_path p of
        Inl err \<Rightarrow> (Inl err, d)
      | Inr (dir, name) \<Rightarrow> temp_loop os dir name data mode 0 d)"

definition sync_dir :: "os \<Rightarrow> path \<Rightarrow> disk \<Rightarrow> disk" where
  "sync_dir os p d = (case split_path p of Inl _ \<Rightarrow> d | Inr _ \<Rightarrow> sync_directory os d)"

definition write_atomic :: "os \<Rightarrow> path \<Rightarrow> bytes \<Rightarrow> u32 \<Rightarrow> unit fs" where
  "write_atomic os p data mode d =
     (case write_temp os p data mode d of
        (Inl err, d1) \<Rightarrow> (Inl err, d1)
      | (Inr temp, d1) \<Rightarrow>
          (case rename_file os temp p d1 of
             (Inl err, d2) \<Rightarrow> (Inl err, snd (remove_file os temp d2))
           | (Inr _, d2) \<Rightarrow> (Inr (), sync_dir os p d2)))"

definition no_hard_links :: "io_error \<Rightarrow> bool" where
  "no_hard_links err \<longleftrightarrow> err_kind err = Unsupported \<or> raw_os_error err \<in> {Some 1, Some 95, Some 38}"

definition write_new :: "os \<Rightarrow> path \<Rightarrow> bytes \<Rightarrow> u32 \<Rightarrow> unit fs" where
  "write_new os p data mode d =
     (case write_temp os p data mode d of
        (Inl err, d1) \<Rightarrow> (Inl err, d1)
      | (Inr temp, d1) \<Rightarrow>
          (case hard_link os temp p d1 of
             (linked, d2) \<Rightarrow>
               let d3 = snd (remove_file os temp d2)
               in case linked of
                    Inr _ \<Rightarrow> (Inr (), sync_dir os p d3)
                  | Inl err \<Rightarrow>
                      if no_hard_links err
                      then (case open_file os (create_new mode) p d3 of
                              (Inl err, d4) \<Rightarrow> (Inl err, d4)
                            | (Inr i, d4) \<Rightarrow>
                                (case file_write_all os i data d4 of
                                   (Inl err, d5) \<Rightarrow> (Inl err, snd (remove_file os p d5))
                                 | (Inr _, d5) \<Rightarrow>
                                     (case sync_all os i d5 of
                                        (Inl err, d6) \<Rightarrow> (Inl err, snd (remove_file os p d6))
                                      | (Inr _, d6) \<Rightarrow> (Inr (), sync_dir os p d6))))
                      else (Inl err, d3)))"

text \<open>The hosted functions, on the helper thread.\<close>

definition file_write :: "os \<Rightarrow> str \<Rightarrow> bytes \<Rightarrow> u8 \<Rightarrow> u32 \<Rightarrow> unit fs" where
  "file_write os text data how mode d =
     (let p = path_of text
      in if how = 2 then write_new os p data mode d
         else if how = 3 then write_atomic os p data mode d
         else case open_file os \<lparr>oo_create = True, oo_create_new = False, oo_truncate = (how = 0), oo_append = (how \<noteq> 0), oo_mode = mode\<rparr> p d of
                (Inl err, d1) \<Rightarrow> (Inl err, d1)
              | (Inr i, d1) \<Rightarrow> file_write_all os i data d1)"

definition file_read :: "os \<Rightarrow> str \<Rightarrow> bytes fs" where
  "file_read os text = read_file os (path_of text)"

definition file_rename :: "os \<Rightarrow> str \<Rightarrow> str \<Rightarrow> unit fs" where
  "file_rename os from_text to_text = rename_file os (path_of from_text) (path_of to_text)"

definition file_delete :: "os \<Rightarrow> str \<Rightarrow> unit fs" where
  "file_delete os text = remove_file os (path_of text)"

definition file_exists :: "os \<Rightarrow> str \<Rightarrow> bool fs" where
  "file_exists os text d =
     (case symlink_metadata os (path_of text) d of
        (Inr _, d1) \<Rightarrow> (Inr True, d1)
      | (Inl err, d1) \<Rightarrow> (if err_kind err = NotFound then Inr False else Inl err, d1))"

text \<open>\<^verbatim>\<open>roc_env_var\<close>: \<open>var_os\<close> is the environment.\<close>

datatype env_value = Found str | Missing | NotUtf8

definition env_var :: "(str \<Rightarrow> bytes option) \<Rightarrow> str \<Rightarrow> env_value" where
  "env_var var_os key =
     (case (if key = [] \<or> 61 \<in> set key \<or> 0 \<in> set key then None else var_os key) of
        Some value \<Rightarrow> (case from_utf8 (map unat value) of Some text \<Rightarrow> Found text | None \<Rightarrow> NotUtf8)
      | None \<Rightarrow> Missing)"

section \<open>What the calls leave alone\<close>

declare split_paired_All [simp del] split_paired_Ex [simp del]

definition fs_ok :: "disk \<Rightarrow> bool" where
  "fs_ok d \<longleftrightarrow> (\<forall>q i. d_names d q = Some i \<longrightarrow> i < d_next d)"

text \<open>
  From \<open>d\<close> to \<open>d'\<close> only the names in \<open>P\<close> and new inodes changed, and nothing else could be seen to change
  on the way.
\<close>

definition leaves :: "(path \<Rightarrow> bool) \<Rightarrow> disk \<Rightarrow> disk \<Rightarrow> bool" where
  "leaves P d d' \<longleftrightarrow> fs_ok d' \<and> d_next d \<le> d_next d' \<and> (\<forall>i < d_next d. d_data d' i = d_data d i) \<and>
     (\<forall>q. \<not> P q \<longrightarrow> d_names d' q = d_names d q) \<and>
     (\<exists>vs. d_views d' = d_views d @ vs \<and> (\<forall>v \<in> set vs. \<forall>q. \<not> P q \<longrightarrow> v q = view d q))"

lemma leaves_refl: "fs_ok d \<Longrightarrow> leaves P d d"
  by (simp add: leaves_def)

lemma leaves_view: "leaves P d d' \<Longrightarrow> fs_ok d \<Longrightarrow> \<not> P q \<Longrightarrow> view d' q = view d q"
  by (cases "d_names d q") (auto simp: leaves_def view_def fs_ok_def)

lemma leaves_trans:
  assumes "leaves P d d1" "leaves P d1 d2" "fs_ok d"
  shows "leaves P d d2"
proof -
  obtain vs us where "d_views d1 = d_views d @ vs" "\<forall>v \<in> set vs. \<forall>q. \<not> P q \<longrightarrow> v q = view d q"
    "d_views d2 = d_views d1 @ us" "\<forall>v \<in> set us. \<forall>q. \<not> P q \<longrightarrow> v q = view d1 q"
    using assms(1,2) unfolding leaves_def by blast
  then have "d_views d2 = d_views d @ (vs @ us) \<and> (\<forall>v \<in> set (vs @ us). \<forall>q. \<not> P q \<longrightarrow> v q = view d q)"
    using leaves_view [OF assms(1,3)] by auto
  then show ?thesis using assms(1,2) unfolding leaves_def by fastforce
qed

lemma leaves_tick:
  assumes "fs_ok d" "fs_ok d'" "d_next d \<le> d_next d'" "\<And>i. i < d_next d \<Longrightarrow> d_data d' i = d_data d i"
    "\<And>q. \<not> P q \<Longrightarrow> d_names d' q = d_names d q" "d_views d' = d_views d"
  shows "leaves P d (tick d')"
proof -
  have "view d' q = view d q" if "\<not> P q" for q
    using assms that by (cases "d_names d q") (auto simp: view_def fs_ok_def)
  then show ?thesis using assms by (auto simp: leaves_def tick_def fs_ok_def)
qed

lemma fs_ok_tick [simp]: "fs_ok (tick d) = fs_ok d"
  by (simp add: fs_ok_def tick_def)

lemma remove_file_leaves: "fs_ok d \<Longrightarrow> P (resolve p) \<Longrightarrow> leaves P d (snd (remove_file os p d))"
  by (auto simp: remove_file_def fs_call_def split: option.splits intro!: leaves_tick) (auto simp: fs_ok_def)

lemma leaves_write:
  assumes "leaves P d0 d" "fs_ok d0" "d_next d0 \<le> i" "d_names d' = d_names d" "d_next d' = d_next d" "d_views d' = d_views d"
    and "\<And>j. j \<noteq> i \<Longrightarrow> d_data d' j = d_data d j"
  shows "leaves P d0 (tick d')"
proof -
  have v: "view d' q = view d0 q" if "\<not> P q" for q
  proof -
    have "d_data d' j = d_data d j" if "d_names d q = Some j" for j
    proof -
      have "d_names d0 q = Some j" using that \<open>\<not> P q\<close> assms(1) by (simp add: leaves_def)
      then have "j < d_next d0" using assms(2) by (auto simp: fs_ok_def)
      then show ?thesis using assms(3,7) by simp
    qed
    then have "view d' q = view d q" using assms(4) by (cases "d_names d q") (simp_all add: view_def)
    then show ?thesis using leaves_view [OF assms(1,2) that] by simp
  qed
  obtain vs where "d_views d = d_views d0 @ vs" "\<forall>v \<in> set vs. \<forall>q. \<not> P q \<longrightarrow> v q = view d0 q"
    using assms(1) unfolding leaves_def by blast
  then have "d_views (tick d') = d_views d0 @ (vs @ [view d']) \<and> (\<forall>v \<in> set (vs @ [view d']). \<forall>q. \<not> P q \<longrightarrow> v q = view d0 q)"
    using v assms(6) by (auto simp: tick_def)
  moreover have "d_data d' j = d_data d j" if "j < d_next d0" for j using assms(3,7) that by simp
  ultimately show ?thesis using assms(1,4,5) unfolding leaves_def by (auto simp: fs_ok_def tick_def)
qed

lemma file_write_all_leaves:
  "leaves P d0 d \<Longrightarrow> fs_ok d0 \<Longrightarrow> d_next d0 \<le> i \<Longrightarrow> leaves P d0 (snd (file_write_all os i data d))"
  by (auto simp: file_write_all_def append_bytes_def split: option.splits intro!: leaves_write)

lemma sync_all_leaves: "leaves P d0 d \<Longrightarrow> fs_ok d0 \<Longrightarrow> d_next d0 \<le> i \<Longrightarrow> leaves P d0 (snd (sync_all os i d))"
  by (auto simp: sync_all_def fs_call_def split: option.splits intro!: leaves_write)

lemma leaves_ok: "leaves P d d' \<Longrightarrow> fs_ok d'"
  by (simp add: leaves_def)

lemma fs_ok_new_file: "fs_ok d \<Longrightarrow> fs_ok (new_file mode p d)"
  by (auto simp: fs_ok_def new_file_def less_Suc_eq split: if_splits)

text \<open>Creating a file that must not be there: it fails and changes nothing, or there is a new empty file.\<close>

lemma create_new_spec:
  assumes "fs_ok d" "open_file os (create_new mode) p d = (r, d')" "d_names d (resolve p) = None \<longrightarrow> P (resolve p)"
  shows "leaves P d d' \<and> (\<forall>q. q \<noteq> resolve p \<longrightarrow> d_names d' q = d_names d q) \<and>
    (case r of Inl _ \<Rightarrow> d_names d' = d_names d
     | Inr i \<Rightarrow> i = d_next d \<and> d_names d (resolve p) = None \<and> d_names d' (resolve p) = Some i \<and> d_data d' i = [])"
proof (cases "os_fault os (d_calls d) = None \<and> d_names d (resolve p) = None")
  case True
  then have "r = Inr (d_next d)" "d' = tick (new_file mode (resolve p) d)"
    using assms(2) by (auto simp: open_file_def fs_call_def create_new_def)
  moreover have "leaves P d (tick (new_file mode (resolve p) d))"
    using True assms(1,3) fs_ok_new_file by (intro leaves_tick) (auto simp: new_file_def)
  ultimately show ?thesis using True by (simp add: tick_def new_file_def)
next
  case False
  then have "(\<exists>err. r = Inl err) \<and> d' = tick d"
    using assms(2) by (auto simp: open_file_def fs_call_def create_new_def split: option.splits)
  then show ?thesis using leaves_tick [OF assms(1) assms(1)] by (auto simp: tick_def)
qed

lemma file_write_all_spec:
  "file_write_all os i data d = (r, d') \<Longrightarrow> d_names d' = d_names d \<and> d_next d' = d_next d \<and> (r = Inr () \<longrightarrow> d_data d' i = d_data d i @ data)"
  by (auto simp: file_write_all_def append_bytes_def tick_def split: option.splits)

lemma sync_all_spec:
  "sync_all os i d = (r, d') \<Longrightarrow> d_names d' = d_names d \<and> d_next d' = d_next d \<and> d_data d' = d_data d \<and> (r = Inr () \<longrightarrow> d_synced d' i)"
  by (auto simp: sync_all_def fs_call_def tick_def split: option.splits)

text \<open>A file written to a new name: complete and flushed, or taken away again as far as that works.\<close>

definition temp_written :: "(path \<Rightarrow> bool) \<Rightarrow> bytes \<Rightarrow> disk \<Rightarrow> (io_error + path) \<times> disk \<Rightarrow> bool" where
  "temp_written P data d x = (case x of (r, d') \<Rightarrow> leaves P d d' \<and> (case r of Inl _ \<Rightarrow> True
     | Inr temp \<Rightarrow> P (resolve temp) \<and> d_names d (resolve temp) = None \<and> (\<forall>q. q \<noteq> resolve temp \<longrightarrow> d_names d' q = d_names d q) \<and>
         (\<exists>i. d_next d \<le> i \<and> d_names d' (resolve temp) = Some i \<and> d_data d' i = data \<and> d_synced d' i)))"

lemma temp_written_after:
  assumes "leaves P d d1" "d_names d1 = d_names d" "fs_ok d" "temp_written P data d1 x"
  shows "temp_written P data d x"
proof -
  obtain r d' where x: "x = (r, d')" by fastforce
  have "leaves P d d'" using leaves_trans [OF assms(1) _ assms(3)] assms(4) x by (simp add: temp_written_def)
  moreover have "d_next d \<le> d_next d1" using assms(1) by (simp add: leaves_def)
  ultimately show ?thesis
    using assms(2,4) x by (cases r) (auto simp: temp_written_def intro: order_trans)
qed

lemma temp_loop_spec:
  assumes "fs_ok d" "\<forall>random. d_names d (resolve (temp_path dir name random)) = None \<longrightarrow> P (resolve (temp_path dir name random))"
  shows "temp_written P data d (temp_loop os dir name data mode attempt d)"
  using assms
proof (induction os dir name data mode attempt d rule: temp_loop.induct)
  case (1 os dir name data mode attempt d)
  show ?case
  proof (cases "os_random os (d_calls d)")
    case None
    then show ?thesis using 1(2) by (subst temp_loop.simps) (simp add: temp_written_def leaves_refl)
  next
    case (Some random)
    let ?t = "temp_path dir name random"
    obtain r d1 where o: "open_file os (create_new mode) ?t d = (r, d1)" by fastforce
    note c = create_new_spec [OF 1(2) o, of P] 1(3)
    show ?thesis
    proof (cases r)
      case (Inl err)
      have l: "leaves P d d1" "d_names d1 = d_names d" using c Inl by auto
      show ?thesis
      proof (cases "err_kind err = AlreadyExists \<and> attempt < 8")
        case True
        have "temp_written P data d1 (temp_loop os dir name data mode (attempt + 1) d1)"
          using 1(1) [OF Some refl o [symmetric] Inl True] leaves_ok [OF l(1)] 1(3) l(2) by simp
        moreover have "temp_loop os dir name data mode attempt d = temp_loop os dir name data mode (attempt + 1) d1"
          by (subst temp_loop.simps) (use Some o Inl True in simp)
        moreover have "d_next d \<le> d_next d1" using l(1) by (simp add: leaves_def)
        ultimately show ?thesis using temp_written_after [OF l 1(2)] by simp
      next
        case False
        then show ?thesis using Some o Inl l by (subst temp_loop.simps) (auto simp: temp_written_def Let_def)
      qed
    next
      case (Inr i)
      have l: "leaves P d d1" "i = d_next d" "d_names d (resolve ?t) = None" "d_names d1 (resolve ?t) = Some i" "d_data d1 i = []"
        "\<forall>q. q \<noteq> resolve ?t \<longrightarrow> d_names d1 q = d_names d q"
        using c Inr by auto
      have Pt: "P (resolve ?t)" using 1(3) l(3) by blast
      obtain v d2 where w: "file_write_all os i data d1 = (v, d2)" by fastforce
      have l2: "leaves P d d2" using file_write_all_leaves [OF l(1) 1(2), of i os data] w l(2) by simp
      note w2 = file_write_all_spec [OF w]
      obtain u d3 where y: "sync_all os i d2 = (u, d3)" by fastforce
      have l3: "leaves P d d3" using sync_all_leaves [OF l2 1(2), of i os] y l(2) by simp
      note w3 = sync_all_spec [OF y]
      have rm: "leaves P d (snd (remove_file os ?t e))" if "leaves P d e" for e
        using leaves_trans [OF that _ 1(2)] remove_file_leaves [where P = P and p = ?t, OF leaves_ok [OF that] Pt] by blast
      note run = temp_loop.simps [of os dir name data mode attempt d]
      consider err where "v = Inl err" | err where "v = Inr ()" "u = Inl err" | "v = Inr ()" "u = Inr ()"
        by (cases v; cases u) auto
      then show ?thesis
      proof cases
        case (1 err)
        then show ?thesis using rm [OF l2] Some o Inr w by (simp add: run temp_written_def)
      next
        case (2 err)
        then show ?thesis using rm [OF l3] Some o Inr w y by (simp add: run temp_written_def)
      next
        case 3
        then show ?thesis using l3 l Pt w2 w3 Some o Inr w y by (simp add: run temp_written_def)
      qed
    qed
  qed
qed

section \<open>Replacing a file\<close>

text \<open>The names \<^verbatim>\<open>write_temp\<close> may use: never the file's own.\<close>

definition temp_of :: "path \<Rightarrow> path \<Rightarrow> bool" where
  "temp_of p q \<longleftrightarrow> (case split_path p of Inl _ \<Rightarrow> False
     | Inr (dir, name) \<Rightarrow> \<exists>random. q = resolve (temp_path dir name random))"

lemma temp_not_path: "temp_of p q \<Longrightarrow> q \<noteq> resolve p"
proof -
  assume t: "temp_of p q"
  obtain a comps where p: "p = (a, comps)" by fastforce
  obtain dir name random where s: "split_path p = Inr (dir, name)" "q = resolve (temp_path dir name random)"
    using t by (auto simp: temp_of_def split: sum.splits)
  then have name: "comps \<noteq> []" "last comps = name" "name \<noteq> lit ''.''"
    by (auto simp: p split_path_def split: option.splits if_splits)
  let ?long = "lit ''.'' @ name @ lit ''.'' @ hex_text random @ lit ''.tmp''"
  obtain b ds where dir: "dir = (b, ds)" by fastforce
  have "length ?long > length name" "?long \<noteq> lit ''.''" by (simp_all add: lit_def)
  then have "snd q \<noteq> [] \<and> last (snd q) = ?long" by (simp add: s(2) temp_path_def dir)
  moreover have "last (snd (resolve p)) = name"
  proof -
    obtain cs where "comps = cs @ [name]" using name(1,2) by (metis append_butlast_last_id)
    then show ?thesis using name(3) by (simp add: p)
  qed
  ultimately show ?thesis using \<open>length ?long > length name\<close> by (metis less_irrefl)
qed

lemma write_temp_spec:
  assumes "fs_ok d"
  shows "temp_written (\<lambda>q. temp_of p q \<and> d_names d q = None) data d (write_temp os p data mode d)"
proof (cases "split_path p")
  case (Inl err)
  then show ?thesis using assms by (simp add: write_temp_def temp_written_def leaves_refl)
next
  case (Inr x)
  obtain dir name where "x = (dir, name)" by fastforce
  then show ?thesis
    using temp_loop_spec [OF assms, of dir name "\<lambda>q. temp_of p q \<and> d_names d q = None" data os mode 0] Inr
    by (auto simp: write_temp_def temp_of_def)
qed

lemma sync_dir_leaves: "fs_ok d \<Longrightarrow> leaves P d (sync_dir os p d)"
proof -
  assume ok: "fs_ok d"
  have t: "leaves P d (tick d)" using leaves_tick [OF ok ok] by simp
  then have "leaves P d (tick (tick d))" using leaves_trans [OF t leaves_tick ok] ok by simp
  then show ?thesis
    using t leaves_refl [OF ok] by (auto simp: sync_dir_def sync_directory_def fs_call_def split: sum.splits option.splits)
qed

lemma sync_dir_same:
  "d_names (sync_dir os p d) = d_names d" "d_data (sync_dir os p d) = d_data d" "d_synced (sync_dir os p d) = d_synced d"
  by (auto simp: sync_dir_def sync_directory_def fs_call_def tick_def split: sum.splits option.splits)

definition seen :: "path \<Rightarrow> bytes \<Rightarrow> disk \<Rightarrow> disk \<Rightarrow> bool" where
  "seen p data d d' \<longleftrightarrow> (\<exists>vs. d_views d' = d_views d @ vs \<and>
     (\<forall>v \<in> set vs. (v (resolve p) = view d (resolve p) \<or> v (resolve p) = Some data) \<and>
        (\<forall>q. q \<noteq> resolve p \<longrightarrow> v q = view d q \<or> temp_of p q \<and> view d q = None)))"

lemma leaves_seen: "leaves (\<lambda>q. temp_of p q \<and> d_names d q = None) d d' \<Longrightarrow> seen p data d d'"
  using temp_not_path [of p] unfolding leaves_def seen_def view_def by fastforce

lemma seen_trans:
  assumes "seen p data d d1" "d_views d2 = d_views d1 @ us"
    "\<forall>v \<in> set us. v (resolve p) = Some data \<and> (\<forall>q. q \<noteq> resolve p \<longrightarrow> v q = view d q)"
  shows "seen p data d d2"
proof -
  obtain vs where "d_views d1 = d_views d @ vs" "\<forall>v \<in> set vs. (v (resolve p) = view d (resolve p) \<or> v (resolve p) = Some data) \<and>
        (\<forall>q. q \<noteq> resolve p \<longrightarrow> v q = view d q \<or> temp_of p q \<and> view d q = None)"
    using assms(1) unfolding seen_def by blast
  then show ?thesis unfolding seen_def using assms(2,3) by (intro exI [of _ "vs @ us"]) auto
qed

text \<open>A temporary file renamed into place.\<close>

lemma rename_into_place:
  assumes ok: "fs_ok d" and tw: "temp_written (\<lambda>q. temp_of p q \<and> d_names d q = None) data d (Inr temp, d1)"
    and rn: "rename_file os temp p d1 = (Inr (), d2)"
  shows "seen p data d (sync_dir os p d2) \<and> view (sync_dir os p d2) (resolve p) = Some data \<and>
    (\<exists>i. d_names d2 (resolve p) = Some i \<and> d_synced d2 i) \<and> (\<forall>q. q \<noteq> resolve p \<longrightarrow> view (sync_dir os p d2) q = view d q)"
proof -
  let ?t = "resolve temp"
  obtain i where i: "d_next d \<le> i" "d_names d1 ?t = Some i" "d_data d1 i = data" "d_synced d1 i"
    and t: "temp_of p ?t" "d_names d ?t = None" "\<forall>q. q \<noteq> ?t \<longrightarrow> d_names d1 q = d_names d q"
    and l: "leaves (\<lambda>q. temp_of p q \<and> d_names d q = None) d d1"
    using tw by (auto simp: temp_written_def)
  have p: "?t \<noteq> resolve p" using temp_not_path [OF t(1)] .
  have "d_names d1 (resolve p) \<noteq> Some i" using t(3) p i(1) ok by (auto simp: fs_ok_def dest: leD)
  then have d2: "d2 = tick (d1\<lparr>d_names := (d_names d1)(resolve p \<mapsto> i, ?t := None)\<rparr>)"
    using rn i(2) by (auto simp: rename_file_def fs_call_def split: option.splits if_splits)
  have "d_data d1 j = d_data d j" if "d_names d q = Some j" for q j using l ok that by (auto simp: leaves_def fs_ok_def)
  then have v2: "view d2 (resolve p) = Some data" "q \<noteq> resolve p \<Longrightarrow> view d2 q = view d q" for q
    using i t p by (cases "d_names d q"; auto simp: d2 view_def tick_def)+
  have ok2: "fs_ok d2" using leaves_ok [OF l] i(2) by (auto simp: d2 fs_ok_def tick_def split: if_splits)
  have sl: "leaves (\<lambda>_. False) d2 (sync_dir os p d2)" using sync_dir_leaves [OF ok2] .
  then obtain us where "d_views (sync_dir os p d2) = d_views d2 @ us" "\<forall>v \<in> set us. \<forall>q. v q = view d2 q"
    unfolding leaves_def by auto
  moreover have "d_views d2 = d_views d1 @ [view d2]" by (simp add: d2 tick_def view_def fun_eq_iff)
  ultimately have "d_views (sync_dir os p d2) = d_views d1 @ (view d2 # us) \<and> (\<forall>v \<in> set (view d2 # us). \<forall>q. v q = view d2 q)" by simp
  then have "seen p data d (sync_dir os p d2)"
    using v2 by (intro seen_trans [OF leaves_seen [OF l], of "sync_dir os p d2" "view d2 # us" data]) auto
  moreover have "view (sync_dir os p d2) q = view d2 q" for q using leaves_view [OF sl ok2] by simp
  moreover have "d_names d2 (resolve p) = Some i \<and> d_synced d2 i" using i(4) p by (simp add: d2 tick_def)
  ultimately show ?thesis using v2 by simp
qed

text \<open>
  C7. Replacing a file atomically: at no point, even between two system calls, does the file have anything
  but its old contents or all of the new; nothing else is touched but a temporary file of a name that
  was free.  On success the file has the new contents, flushed, and nothing else has changed; on
  failure it is as it was.
\<close>

theorem write_atomic_all_or_nothing:
  assumes "fs_ok d" "write_atomic os p data mode d = (r, d')"
  shows "(\<exists>vs. d_views d' = d_views d @ vs \<and> (\<forall>v \<in> set vs. (v (resolve p) = view d (resolve p) \<or> v (resolve p) = Some data) \<and>
      (\<forall>q. q \<noteq> resolve p \<longrightarrow> v q = view d q \<or> temp_of p q \<and> view d q = None))) \<and>
    (case r of Inl _ \<Rightarrow> view d' (resolve p) = view d (resolve p)
     | Inr _ \<Rightarrow> view d' (resolve p) = Some data \<and> (\<exists>i. d_names d' (resolve p) = Some i \<and> d_synced d' i) \<and>
         (\<forall>q. q \<noteq> resolve p \<longrightarrow> view d' q = view d q))"
proof -
  let ?P = "\<lambda>q. temp_of p q \<and> d_names d q = None"
  have notP: "\<not> ?P (resolve p)" using temp_not_path by blast
  have failed: "seen p data d e \<and> view e (resolve p) = view d (resolve p)" if "leaves ?P d e" for e
    using leaves_seen [OF that] leaves_view [OF that assms(1) notP] by simp
  obtain x d1 where t: "write_temp os p data mode d = (x, d1)" by fastforce
  note tw = write_temp_spec [OF assms(1), of p data os mode, unfolded t]
  have l: "leaves ?P d d1" using tw by (simp add: temp_written_def)
  have "seen p data d d' \<and> (case r of Inl _ \<Rightarrow> view d' (resolve p) = view d (resolve p)
     | Inr _ \<Rightarrow> view d' (resolve p) = Some data \<and> (\<exists>i. d_names d' (resolve p) = Some i \<and> d_synced d' i) \<and>
         (\<forall>q. q \<noteq> resolve p \<longrightarrow> view d' q = view d q))"
  proof (cases x)
    case (Inl err)
    then show ?thesis using failed [OF l] assms(2) t by (auto simp: write_atomic_def)
  next
    case (Inr temp)
    obtain y d2 where y: "rename_file os temp p d1 = (y, d2)" by fastforce
    show ?thesis
    proof (cases y)
      case (Inl err)
      have Pt: "?P (resolve temp)" and "d_names d1 (resolve temp) \<noteq> None" using tw Inr by (auto simp: temp_written_def)
      then have "d2 = tick d1" using y Inl by (auto simp: rename_file_def fs_call_def split: option.splits if_splits)
      then have l2: "leaves ?P d d2" using leaves_trans [OF l leaves_tick assms(1)] leaves_ok [OF l] by simp
      have "leaves ?P d (snd (remove_file os temp d2))"
        using leaves_trans [OF l2 remove_file_leaves [where P = ?P, OF leaves_ok [OF l2] Pt] assms(1)] .
      then show ?thesis using failed assms(2) t Inr y Inl by (auto simp: write_atomic_def)
    next
      case u: (Inr u)
      have "r = Inr ()" "d' = sync_dir os p d2" using assms(2) t Inr y u by (auto simp: write_atomic_def)
      then show ?thesis using rename_into_place [OF assms(1) tw [unfolded Inr]] y u by (simp add: sync_dir_same)
    qed
  qed
  then show ?thesis unfolding seen_def .
qed

section \<open>Creating a file only if nothing is there\<close>

lemma leaves_mono: "leaves P d d' \<Longrightarrow> (\<And>q. P q \<Longrightarrow> Q q) \<Longrightarrow> leaves Q d d'"
  unfolding leaves_def by blast

lemma hard_link_spec:
  assumes "fs_ok d" "hard_link os t p d = (r, d')" "d_names d (resolve p) = None \<longrightarrow> P (resolve p)"
  shows "leaves P d d' \<and> d_data d' = d_data d \<and> d_synced d' = d_synced d \<and>
    (r = Inr () \<longrightarrow> d_names d (resolve p) = None \<and> d_names d' (resolve p) = d_names d (resolve t) \<and> d_names d (resolve t) \<noteq> None)"
proof (cases "os_fault os (d_calls d) = None \<and> d_names d (resolve t) \<noteq> None \<and> d_names d (resolve p) = None")
  case True
  let ?d = "d\<lparr>d_names := (d_names d)(resolve p := d_names d (resolve t))\<rparr>"
  have "r = Inr ()" "d' = tick ?d" using True assms(2) by (auto simp: hard_link_def fs_call_def)
  moreover have "leaves P d (tick ?d)" using True assms(1,3) by (intro leaves_tick) (auto simp: fs_ok_def)
  ultimately show ?thesis using True by (simp add: tick_def)
next
  case False
  then have "(\<exists>err. r = Inl err) \<and> d' = tick d"
    using assms(2) by (auto simp: hard_link_def fs_call_def split: option.splits if_splits)
  then show ?thesis using leaves_tick [OF assms(1) assms(1)] by (auto simp: tick_def)
qed

lemma remove_file_same:
  "d_data (snd (remove_file os t d)) = d_data d" "d_synced (snd (remove_file os t d)) = d_synced d"
  "q \<noteq> resolve t \<Longrightarrow> d_names (snd (remove_file os t d)) q = d_names d q"
  by (auto simp: remove_file_def fs_call_def tick_def split: option.splits)

text \<open>What has been written at \<open>p\<close>, which was free.\<close>

definition created :: "path \<Rightarrow> bytes \<Rightarrow> disk \<Rightarrow> disk \<Rightarrow> bool" where
  "created p data d d' \<longleftrightarrow> d_names d (resolve p) = None \<and>
     (\<exists>i. d_names d' (resolve p) = Some i \<and> d_data d' i = data \<and> d_synced d' i)"

definition free_names :: "path \<Rightarrow> disk \<Rightarrow> path \<Rightarrow> bool" where
  "free_names p d q \<longleftrightarrow> d_names d q = None \<and> (q = resolve p \<or> temp_of p q)"

lemma write_direct:
  assumes "fs_ok d0" "leaves (free_names p d0) d0 d" "open_file os (create_new mode) p d = (Inr i, d1)"
    "file_write_all os i data d1 = (v, d2)" "sync_all os i d2 = (u, d3)"
  shows "leaves (free_names p d0) d0 d2" "leaves (free_names p d0) d0 d3" "v = Inr () \<Longrightarrow> u = Inr () \<Longrightarrow> created p data d0 d3"
proof -
  have n: "d_names d (resolve p) = None \<longrightarrow> free_names p d0 (resolve p)"
    using assms(2) by (auto simp: leaves_def free_names_def)
  have c: "leaves (free_names p d0) d d1" "i = d_next d" "d_names d (resolve p) = None" "d_names d1 (resolve p) = Some i" "d_data d1 i = []"
    using create_new_spec [OF leaves_ok [OF assms(2)] assms(3), of "free_names p d0"] n by auto
  have l1: "leaves (free_names p d0) d0 d1" using leaves_trans [OF assms(2) c(1) assms(1)] .
  have i: "d_next d0 \<le> i" using assms(2) c(2) by (simp add: leaves_def)
  show l2: "leaves (free_names p d0) d0 d2" using file_write_all_leaves [OF l1 assms(1) i, of os data] assms(4) by simp
  show "leaves (free_names p d0) d0 d3" using sync_all_leaves [OF l2 assms(1) i, of os] assms(5) by simp
  show "created p data d0 d3" if "v = Inr ()" "u = Inr ()"
    using that c n file_write_all_spec [OF assms(4)] sync_all_spec [OF assms(5)] by (simp add: created_def free_names_def)
qed

text \<open>
  C8. Creating a file only if nothing is there never touches what is: a file at that path keeps its
  contents at every point, between system calls too, and the call fails.  Success means the path was
  free and now has exactly the data, flushed; no other name is touched but a temporary one that was
  free.
\<close>

theorem write_new_only_if_absent:
  assumes "fs_ok d" "write_new os p data mode d = (r, d')"
  shows "(\<exists>vs. d_views d' = d_views d @ vs \<and>
      (\<forall>v \<in> set vs. \<forall>q. v q = view d q \<or> view d q = None \<and> (q = resolve p \<or> temp_of p q))) \<and>
    (case r of Inl _ \<Rightarrow> view d (resolve p) \<noteq> None \<longrightarrow> view d' (resolve p) = view d (resolve p)
     | Inr _ \<Rightarrow> view d (resolve p) = None \<and> view d' (resolve p) = Some data \<and> (\<exists>i. d_names d' (resolve p) = Some i \<and> d_synced d' i))"
proof -
  let ?P = "free_names p d"
  obtain x d1 where t: "write_temp os p data mode d = (x, d1)" by fastforce
  note tw = write_temp_spec [OF assms(1), of p data os mode, unfolded t]
  have l1: "leaves ?P d d1" using tw by (auto simp: temp_written_def free_names_def intro: leaves_mono)
  have "leaves ?P d d' \<and> (r = Inr () \<longrightarrow> created p data d d')"
  proof (cases x)
    case (Inl err)
    then show ?thesis using l1 assms(2) t by (auto simp: write_new_def)
  next
    case (Inr temp)
    obtain i where i: "d_names d1 (resolve temp) = Some i" "d_data d1 i = data" "d_synced d1 i"
      and tp: "temp_of p (resolve temp)" "d_names d (resolve temp) = None"
      using tw Inr by (auto simp: temp_written_def)
    have tp2: "?P (resolve temp)" "resolve temp \<noteq> resolve p" using tp temp_not_path by (auto simp: free_names_def)
    obtain y d2 where y: "hard_link os temp p d1 = (y, d2)" by fastforce
    have n: "d_names d1 (resolve p) = None \<longrightarrow> ?P (resolve p)" using l1 by (auto simp: leaves_def free_names_def)
    note hl = hard_link_spec [OF leaves_ok [OF l1] y, of ?P, OF n]
    have l2: "leaves ?P d d2" using leaves_trans [OF l1 _ assms(1)] hl by blast
    let ?d3 = "snd (remove_file os temp d2)"
    have l3: "leaves ?P d ?d3"
      using leaves_trans [OF l2 remove_file_leaves [where P = ?P, OF leaves_ok [OF l2] tp2(1)] assms(1)] .
    have rm: "leaves ?P d (snd (remove_file os p e))" if "leaves ?P d e" "?P (resolve p)" for e
      using leaves_trans [OF that(1) remove_file_leaves [where P = ?P, OF leaves_ok [OF that(1)] that(2)] assms(1)] .
    have sd: "leaves ?P d (sync_dir os p e)" if "leaves ?P d e" for e
      using leaves_trans [OF that sync_dir_leaves [OF leaves_ok [OF that]] assms(1)] .
    have sc: "created p data d (sync_dir os p e) = created p data d e" for e by (simp add: created_def sync_dir_same)
    consider "y = Inr ()" | err where "y = Inl err" "\<not> no_hard_links err" | err where "y = Inl err" "no_hard_links err"
      by (cases y) auto
    then show ?thesis
    proof cases
      case 1
      have "created p data d ?d3"
        using hl 1 i n tp2(2) remove_file_same [where os = os and t = temp and d = d2] by (simp add: created_def free_names_def)
      moreover have "r = Inr ()" "d' = sync_dir os p ?d3" using assms(2) t Inr y 1 by (auto simp: write_new_def Let_def)
      ultimately show ?thesis using sd [OF l3] sc by simp
    next
      case (2 err)
      then have "r = Inl err" "d' = ?d3" using assms(2) t Inr y by (auto simp: write_new_def Let_def)
      then show ?thesis using l3 by simp
    next
      case (3 err)
      obtain q d4 where q: "open_file os (create_new mode) p ?d3 = (q, d4)" by fastforce
      have n3: "d_names ?d3 (resolve p) = None \<longrightarrow> ?P (resolve p)" using l3 by (auto simp: leaves_def free_names_def)
      note c4 = create_new_spec [OF leaves_ok [OF l3] q, of ?P, OF n3]
      have l4: "leaves ?P d d4" using leaves_trans [OF l3 _ assms(1)] c4 by blast
      show ?thesis
      proof (cases q)
        case (Inl e)
        then have "r = Inl e" "d' = d4" using assms(2) t Inr y 3 q by (auto simp: write_new_def Let_def)
        then show ?thesis using l4 by simp
      next
        case j: (Inr j)
        obtain v d5 where v: "file_write_all os j data d4 = (v, d5)" by fastforce
        obtain u d6 where u: "sync_all os j d5 = (u, d6)" by fastforce
        note w = write_direct [OF assms(1) l3 q [unfolded j] v u]
        have Pp: "?P (resolve p)" using c4 j n3 by simp
        note run = assms(2) t Inr y 3 q j v u
        consider e where "v = Inl e" | e where "v = Inr ()" "u = Inl e" | "v = Inr ()" "u = Inr ()" by (cases v; cases u) auto
        then show ?thesis
        proof cases
          case (1 e)
          then have "r = Inl e" "d' = snd (remove_file os p d5)" using run by (auto simp: write_new_def Let_def)
          then show ?thesis using rm [OF w(1) Pp] by simp
        next
          case (2 e)
          then have "r = Inl e" "d' = snd (remove_file os p d6)" using run by (auto simp: write_new_def Let_def)
          then show ?thesis using rm [OF w(2) Pp] by simp
        next
          case 3
          then have "r = Inr ()" "d' = sync_dir os p d6" using run by (auto simp: write_new_def Let_def)
          then show ?thesis using sd [OF w(2)] w(3) 3 sc by simp
        qed
      qed
    qed
  qed
  then have l: "leaves ?P d d'" "r = Inr () \<longrightarrow> created p data d d'" by blast+
  have "\<exists>vs. d_views d' = d_views d @ vs \<and> (\<forall>v \<in> set vs. \<forall>q. v q = view d q \<or> view d q = None \<and> (q = resolve p \<or> temp_of p q))"
    using l(1) unfolding leaves_def free_names_def view_def by fastforce
  moreover have "view d' (resolve p) = view d (resolve p)" if "view d (resolve p) \<noteq> None"
    using leaves_view [OF l(1) assms(1)] that by (auto simp: free_names_def view_def)
  ultimately show ?thesis using l(2) by (cases r) (auto simp: created_def view_def)
qed

text \<open>A directory with one file, and a system whose call number \<open>n\<close> fails.\<close>

definition demo_disk :: disk where
  "demo_disk = \<lparr>d_names = [(False, [lit ''a'']) \<mapsto> 0], d_data = (\<lambda>_. [1]), d_mode = (\<lambda>_. 0), d_synced = (\<lambda>_. True),
     d_next = 1, d_calls = 0, d_views = []\<rparr>"

definition demo_os :: "nat \<Rightarrow> os" where
  "demo_os n = \<lparr>os_fault = (\<lambda>k. if k = n then Some (OsError 5 Uncategorized) else None), os_written = (\<lambda>_. 1), os_random = (\<lambda>_. Some [7])\<rparr>"

lemma demo_disk_ok: "fs_ok demo_disk" "view demo_disk (False, [lit ''a'']) = Some [1]" "view demo_disk (False, [lit ''b'']) = None"
  by (auto simp: fs_ok_def demo_disk_def view_def lit_def split: if_splits)

lemma demo_resolve: "resolve (False, [lit ''a'']) = (False, [lit ''a''])" "resolve (False, [lit ''b'']) = (False, [lit ''b''])"
  by (simp_all add: lit_def)

theorem write_atomic_all_or_nothing_witness:
  "view (snd (write_atomic (demo_os 1) (False, [lit ''a'']) [2, 3] 0 demo_disk)) (False, [lit ''a'']) = Some [1] \<or>
   view (snd (write_atomic (demo_os 1) (False, [lit ''a'']) [2, 3] 0 demo_disk)) (False, [lit ''a'']) = Some [2, 3]"
proof -
  obtain r d' where w: "write_atomic (demo_os 1) (False, [lit ''a'']) [2, 3] 0 demo_disk = (r, d')" by fastforce
  show ?thesis
    using write_atomic_all_or_nothing [OF demo_disk_ok(1) w] demo_disk_ok(2)
    unfolding w demo_resolve by (cases r) simp_all
qed

theorem write_new_only_if_absent_witness:
  "view (snd (write_new (demo_os 9) (False, [lit ''a'']) [2] 0 demo_disk)) (False, [lit ''a'']) = Some [1] \<and>
   (\<exists>err. fst (write_new (demo_os 9) (False, [lit ''a'']) [2] 0 demo_disk) = Inl err)"
proof -
  obtain r d' where w: "write_new (demo_os 9) (False, [lit ''a'']) [2] 0 demo_disk = (r, d')" by fastforce
  show ?thesis
    using write_new_only_if_absent [OF demo_disk_ok(1) w] demo_disk_ok(2)
    unfolding w demo_resolve by (cases r) simp_all
qed

end
