(* ===== verification/Log_Time.thy ===== *)
theory Log_Time
  imports Prelude
begin

text \<open>
  Wall-clock timestamps of log lines (\<^verbatim>\<open>src/log.rs\<close>, section Time): reading the clock, the civil
  date of a day number, and RFC 3339 text.  The \<^verbatim>\<open>i64\<close> values are \<open>int\<close>: a day number made from
  milliseconds stays below \<open>2 ^ 37\<close>, so nothing in the computation comes near the ends of the
  range.  Rust's \<^verbatim>\<open>div_euclid\<close> and \<^verbatim>\<open>rem_euclid\<close> by a positive number are \<open>div\<close> and \<open>mod\<close>, and so
  are \<^verbatim>\<open>/\<close> and \<^verbatim>\<open>%\<close> on what is not negative.
\<close>

section \<open>The clock\<close>

abbreviation i64_max :: int where "i64_max \<equiv> 9223372036854775807"
abbreviation i64_min :: int where "i64_min \<equiv> - 9223372036854775808"

text \<open>\<^verbatim>\<open>now_nanos\<close>, for a system clock \<open>t\<close> nanoseconds after the Unix epoch.\<close>

definition now_nanos :: "int \<Rightarrow> int" where
  "now_nanos t =
     (if 0 \<le> t then if t \<le> i64_max then t else i64_max
      else if - t \<le> i64_max then - (- t) else i64_min)"

definition now_millis :: "int \<Rightarrow> int" where
  "now_millis t = now_nanos t div 1000000"

section \<open>Dates\<close>

type_synonym date = "int \<times> int \<times> int"

definition civil_from_days :: "int \<Rightarrow> date" where
  "civil_from_days days =
     (let z = days + 719468;
          era = z div 146097;
          doe = z mod 146097;
          yoe = (doe - doe div 1460 + doe div 36524 - doe div 146096) div 365;
          doy = doe - (365 * yoe + yoe div 4 - yoe div 100);
          mp = (5 * doy + 2) div 153;
          day = doy - (153 * mp + 2) div 5 + 1;
          month = (if mp < 10 then mp + 3 else mp - 9)
      in (yoe + era * 400 + (if month \<le> 2 then 1 else 0), month, day))"

text \<open>The Gregorian calendar, for comparison.\<close>

definition leap :: "int \<Rightarrow> bool" where
  "leap y \<longleftrightarrow> y mod 4 = 0 \<and> (y mod 100 \<noteq> 0 \<or> y mod 400 = 0)"

definition month_days :: "int \<Rightarrow> int \<Rightarrow> int" where
  "month_days y m =
     (if m = 2 then if leap y then 29 else 28
      else if m = 4 \<or> m = 6 \<or> m = 9 \<or> m = 11 then 30 else 31)"

fun next_day :: "date \<Rightarrow> date" where
  "next_day (y, m, d) =
     (if d < month_days y m then (y, m, d + 1) else if m < 12 then (y, m + 1, 1) else (y + 1, 1, 1))"

fun valid_date :: "date \<Rightarrow> bool" where
  "valid_date (y, m, d) \<longleftrightarrow> 1 \<le> m \<and> m \<le> 12 \<and> 1 \<le> d \<and> d \<le> month_days y m"

text \<open>The number of a date, with years that begin in March.\<close>

definition year_start :: "int \<Rightarrow> int" where
  "year_start y = 365 * y + y div 4 - y div 100"

fun day_number :: "date \<Rightarrow> int" where
  "day_number (y, m, d) =
     (let y1 = (if m \<le> 2 then y - 1 else y); mp = (if m \<le> 2 then m + 9 else m - 3)
      in y1 div 400 * 146097 + year_start (y1 mod 400) + (153 * mp + 2) div 5 + d - 1 - 719468)"

text \<open>The year of a day in its 400-year era.\<close>

definition year_of_era :: "int \<Rightarrow> int" where
  "year_of_era doe = (doe - doe div 1460 + doe div 36524 - doe div 146096) div 365"

lemma div_eqI: "k * q \<le> n \<Longrightarrow> n < k * q + k \<Longrightarrow> n div k = q" for n k q :: int
  using int_div_pos_eq [of n k q "n - k * q"] by simp

lemma div_step: "0 < k \<Longrightarrow> (n + 1) div k = n div k + (if (n + 1) mod k = 0 then 1 else 0)" for n k :: int
proof -
  assume k: "0 < k"
  define q r where d: "q = n div k" "r = n mod k"
  have n: "n = k * q + r" "0 \<le> r" "r < k" using k by (simp_all add: d)
  show ?thesis
  proof (cases "r = k - 1")
    case True
    then have "n + 1 = k * (q + 1)" using n by (simp add: algebra_simps)
    then show ?thesis using k unfolding d(1) [symmetric] by simp
  next
    case False
    then have "(n + 1) div k = q" "(n + 1) mod k = r + 1"
      using n int_div_pos_eq [of "n + 1" k q "r + 1"] int_mod_pos_eq [of "n + 1" k q "r + 1"] by simp_all
    then show ?thesis using n(2) unfolding d(1) [symmetric] by simp
  qed
qed

definition year_days :: "int \<Rightarrow> int" where
  "year_days y = (if leap (y + 1) then 366 else 365)"

lemma next_year_start:
  assumes "0 \<le> y" "y < 399"
  shows "year_start (y + 1) = year_start y + year_days y"
proof -
  have a: "(y + 1) div 4 = y div 4 + (if (y + 1) mod 4 = 0 then 1 else 0)" by (rule div_step) simp
  have b: "(y + 1) div 100 = y div 100 + (if (y + 1) mod 100 = 0 then 1 else 0)" by (rule div_step) simp
  have c: "(y + 1) mod 100 = 0 \<Longrightarrow> (y + 1) mod 4 = 0"
    using mod_mod_cancel [of 4 100 "y + 1"] by simp
  have "(y + 1) mod 400 = y + 1" using assms by simp
  then have n: "(y + 1) mod 400 \<noteq> 0" using assms by simp
  show ?thesis unfolding year_start_def year_days_def leap_def a b using c n by auto
qed

lemma last_year_start: "year_start 399 + year_days 399 = 146097"
  by (simp add: year_start_def year_days_def leap_def)

lemma year_of_era_eq:
  assumes y: "0 \<le> y" "y \<le> 399" and k: "0 \<le> k" "k < year_days y"
  shows "year_of_era (year_start y + k) = y"
proof (cases "y = 399 \<and> k = 365")
  case True
  then show ?thesis by (simp add: year_of_era_def year_start_def)
next
  case False
  define q r c t where d: "q = y div 4" "r = y mod 4" "c = y div 100" "t = y mod 100"
  have yq: "y = 4 * q + r" "0 \<le> r" "r \<le> 3" and yc: "y = 100 * c + t" "0 \<le> t" "t \<le> 99" by (simp_all add: d)
  have c3: "0 \<le> c" "c \<le> 3" "0 \<le> q" using y by (simp_all add: d)
  have qt: "4 * (q - 25 * c) + r = t" using yq yc by simp
  have small_div: "0 \<le> u \<and> u \<le> 24 \<and> (t = 99 \<longrightarrow> r = 3)" if "4 * u + r = t" for u
  proof -
    have u: "0 \<le> u" "u \<le> 24" using that yq(2,3) yc(2,3) by linarith+
    have "3 \<le> r" if "t = 99" using u(2) that \<open>4 * u + r = t\<close> by linarith
    then show ?thesis using u yq(3) by fastforce
  qed
  from small_div [OF qt] have qc: "25 * c \<le> q" "q \<le> 25 * c + 24" "t = 99 \<longrightarrow> r = 3" by simp_all
  define e where e: "e = year_start y + k"
  have es: "e = 365 * y + q - c + k" by (simp add: e year_start_def d)
  have leap: "k = 365 \<Longrightarrow> r = 3 \<and> (t \<noteq> 99 \<or> y = 399)"
  proof -
    assume "k = 365"
    then have l: "leap (y + 1)" using k by (simp add: year_days_def split: if_splits)
    have "(y + 1) mod 4 = 0 \<Longrightarrow> r = 3"
      using int_mod_pos_eq [of "y + 1" 4 q "r + 1"] yq by (cases "r = 3") simp_all
    moreover have "(y + 1) mod 400 = 0 \<Longrightarrow> y = 399" using y by (cases "y = 399") simp_all
    moreover have "t = 99 \<Longrightarrow> (y + 1) mod 100 = 0"
      using int_mod_pos_eq [of "y + 1" 100 "c + 1" 0] yc(1) by simp
    ultimately show ?thesis using l unfolding leap_def by metis
  qed
  have k365: "k \<le> 365" using k by (simp add: year_days_def split: if_splits)
  have small: "e < 146096" and N2: "e div 36524 = c"
  proof -
    have b: "365 * t + (q - 25 * c) + k < 36524" 
    proof (cases "k = 365")
      case True
      then have "t \<noteq> 99" using leap False by blast
      then have "t \<le> 98" using yc(3) by simp
      then show ?thesis using qc(2) True by linarith
    next
      case False
      then show ?thesis using qc(2) yc(3) k365 by linarith
    qed
    have ee: "e = (365 * t + (q - 25 * c) + k) + c * 36524" using es yc by simp
    have b0: "0 \<le> 365 * t + (q - 25 * c) + k" using qc yc k by simp
    then show "e div 36524 = c" using b unfolding ee by simp
    show "e < 146096" using b c3 unfolding ee by simp
  qed
  have e0: "0 \<le> e" using es y qc c3 k by linarith
  then have N3: "e div 146096 = 0" using small by simp
  have N1: "q \<le> e div 1460" "e div 1460 \<le> q + 1" "e div 1460 = q + 1 \<Longrightarrow> 266 \<le> k" "k = 365 \<Longrightarrow> e div 1460 = q + 1"
  proof -
    have ee: "e = (365 * r + (q - c) + k) + q * 1460" using es yq by simp
    have dv: "e div 1460 = (365 * r + (q - c) + k) div 1460 + q" unfolding ee by simp
    have b: "0 \<le> 365 * r + (q - c) + k" "365 * r + (q - c) + k < 2920" using qc c3 yq k k365 y by linarith+
    then have "0 \<le> (365 * r + (q - c) + k) div 1460" "(365 * r + (q - c) + k) div 1460 \<le> 1" by simp_all
    then show "q \<le> e div 1460" "e div 1460 \<le> q + 1" by (simp_all add: dv)
    show "266 \<le> k" if "e div 1460 = q + 1"
    proof -
      have "1460 \<le> 365 * r + (q - c) + k" using that b dv div_eqI [of 1460 0 "365 * r + (q - c) + k"] by (cases "365 * r + (q - c) + k < 1460") auto
      then show ?thesis using yq y c3 by linarith
    qed
    assume "k = 365"
    then have "1460 \<le> 365 * r + (q - c) + k" using leap qc c3 by simp
    then show "e div 1460 = q + 1" using b dv div_eqI [of 1460 1 "365 * r + (q - c) + k"] by simp
  qed
  have "365 * y \<le> e - e div 1460 + c - 0" "e - e div 1460 + c - 0 < 365 * y + 365"
    using N1 es k k365 by (cases "k = 365"; linarith)+
  then have "(e - e div 1460 + e div 36524 - e div 146096) div 365 = y"
    unfolding N2 N3 by (intro div_eqI) simp_all
  then show ?thesis by (simp add: year_of_era_def e)
qed

lemma in_some_year:
  assumes "0 \<le> e" "e < 146097"
  obtains y k where "0 \<le> y" "y \<le> 399" "0 \<le> k" "k < year_days y" "e = year_start y + k"
proof -
  have "\<exists>y k. 0 \<le> y \<and> y \<le> int n \<and> 0 \<le> k \<and> k < year_days y \<and> e = year_start y + k"
    if "n \<le> 399" "e < year_start (int n) + year_days (int n)" for n
    using that
  proof (induction n)
    case 0
    then show ?case using assms by (intro exI [of _ 0] exI [of _ e]) (simp add: year_start_def)
  next
    case (Suc n)
    show ?case
    proof (cases "year_start (int (Suc n)) \<le> e")
      case True
      then show ?thesis using Suc(3) by (intro exI [of _ "int (Suc n)"] exI [of _ "e - year_start (int (Suc n))"]) simp
    next
      case False
      then have "e < year_start (int n) + year_days (int n)"
        using next_year_start [of "int n"] Suc(2) by (simp add: add.commute)
      then obtain y k where "0 \<le> y \<and> y \<le> int n \<and> 0 \<le> k \<and> k < year_days y \<and> e = year_start y + k"
        using Suc(1,2) by auto
      then show ?thesis by (intro exI [of _ y] exI [of _ k]) auto
    qed
  qed
  from this [of 399] show thesis using that assms last_year_start by auto
qed

section \<open>The date is the calendar's\<close>

lemma month_cases: "1 \<le> m \<Longrightarrow> m \<le> 12 \<Longrightarrow>
    m = 1 \<or> m = 2 \<or> m = 3 \<or> m = 4 \<or> m = 5 \<or> m = 6 \<or> m = 7 \<or> m = 8 \<or> m = 9 \<or> m = 10 \<or> m = 11 \<or> m = 12" for m :: int
  by presburger

lemma leap_era: "leap (y mod 400 + 1) = leap (y + 1)"
proof -
  have m: "(y mod 400 + 1) mod k = (y + 1) mod k" if "k dvd 400" for k
  proof -
    have "(y mod 400 + 1) mod k = ((y mod 400) mod k + 1) mod k" by (rule mod_add_left_eq [symmetric])
    also have "\<dots> = (y mod k + 1) mod k" by (simp only: mod_mod_cancel [OF that])
    also have "\<dots> = (y + 1) mod k" by (rule mod_add_left_eq)
    finally show ?thesis .
  qed
  have "4 dvd (400 :: int)" "100 dvd (400 :: int)" "400 dvd (400 :: int)" by simp_all
  from this [THEN m] show ?thesis unfolding leap_def by (simp only:)
qed

text \<open>The month and day of a day of the year that begins in March.\<close>

definition month_of_year :: "int \<Rightarrow> int \<times> int" where
  "month_of_year doy =
     (let mp = (5 * doy + 2) div 153
      in (if mp < 10 then mp + 3 else mp - 9, doy - (153 * mp + 2) div 5 + 1))"

definition day_of_year :: "int \<Rightarrow> int \<Rightarrow> int" where
  "day_of_year m d = (153 * (if m \<le> 2 then m + 9 else m - 3) + 2) div 5 + d - 1"

lemma month_of_year_day:
  assumes "1 \<le> m" "m \<le> 12" "1 \<le> d" "d \<le> month_days y m"
  shows "month_of_year (day_of_year m d) = (m, d)"
proof -
  have "d \<le> (if m = 2 then 29 else if m = 4 \<or> m = 6 \<or> m = 9 \<or> m = 11 then 30 else 31)"
    using assms(4) by (auto simp: month_days_def split: if_splits)
  with month_cases [OF assms(1,2)] assms(3)
  have "153 * (if m \<le> 2 then m + 9 else m - 3) \<le> 5 * day_of_year m d + 2 \<and>
      5 * day_of_year m d + 2 < 153 * (if m \<le> 2 then m + 9 else m - 3) + 153"
    by (elim disjE) (hypsubst, simp add: day_of_year_def)+
  then have "(5 * day_of_year m d + 2) div 153 = (if m \<le> 2 then m + 9 else m - 3)"
    by (intro div_eqI) simp_all
  then show ?thesis using assms(1,2) by (auto simp: month_of_year_def Let_def day_of_year_def)
qed

lemma civil_split:
  "civil_from_days days =
     (let z = days + 719468; yoe = year_of_era (z mod 146097);
          (m, d) = month_of_year (z mod 146097 - year_start yoe)
      in (yoe + z div 146097 * 400 + (if m \<le> 2 then 1 else 0), m, d))"
  unfolding civil_from_days_def year_of_era_def year_start_def month_of_year_def Let_def prod.case by (rule refl)


lemma civil_day_number:
  assumes "valid_date (y, m, d)"
  shows "civil_from_days (day_number (y, m, d)) = (y, m, d)"
proof -
  define y1 where y1: "y1 = (if m \<le> 2 then y - 1 else y)"
  define k where k: "k = day_of_year m d"
  define e where e: "e = year_start (y1 mod 400) + k"
  have m: "1 \<le> m" "m \<le> 12" "1 \<le> d" "d \<le> month_days y m" using assms by simp_all
  have md: "d \<le> (if m = 2 then if leap y then 29 else 28 else if m = 4 \<or> m = 6 \<or> m = 9 \<or> m = 11 then 30 else 31)"
    using m(4) by (simp add: month_days_def)
  have k0: "0 \<le> k" using month_cases [OF m(1,2)] m(3) by (elim disjE) (simp_all add: k day_of_year_def)
  have k1: "k < year_days (y1 mod 400)"
    using month_cases [OF m(1,2)] m(3) md leap_era [of y1]
    by (elim disjE) (simp_all add: k day_of_year_def year_days_def y1 split: if_splits)
  have y1r: "0 \<le> y1 mod 400" "y1 mod 400 \<le> 399" by simp_all
  have e1: "0 \<le> e" "e < 146097"
  proof -
    show "0 \<le> e" using y1r k0 unfolding e year_start_def by (simp add: zdiv_mono2)
    show "e < 146097"
    proof (cases "y1 mod 400 = 399")
      case True
      then show ?thesis using k1 last_year_start by (simp add: e)
    next
      case False
      then have "y1 mod 400 < 399" using y1r by simp
      moreover have "year_start (y1 mod 400 + 1) \<le> 146097"
        using y1r calculation by (simp add: year_start_def)
      ultimately show ?thesis using k1 next_year_start [of "y1 mod 400"] y1r by (simp add: e)
    qed
  qed
  have z: "day_number (y, m, d) + 719468 = y1 div 400 * 146097 + e"
    by (simp add: Let_def e k y1 day_of_year_def)
  have zd: "(y1 div 400 * 146097 + e) div 146097 = y1 div 400" "(y1 div 400 * 146097 + e) mod 146097 = e"
    using e1 by simp_all
  have ye: "year_of_era e = y1 mod 400" unfolding e by (rule year_of_era_eq [OF y1r k0 k1])
  have "month_of_year (e - year_start (y1 mod 400)) = (m, d)"
    using month_of_year_day [OF m] by (simp add: e k)
  then show ?thesis
    unfolding civil_split z Let_def zd ye by (simp add: y1)
qed

lemma month_of_year_valid:
  assumes "0 \<le> k" "k < year_days y" "month_of_year k = (m, d)"
  shows "1 \<le> m \<and> m \<le> 12 \<and> 1 \<le> d \<and> d \<le> month_days (if m \<le> 2 then y + 1 else y) m \<and> day_of_year m d = k"
proof -
  define p where p: "p = (5 * k + 2) div 153"
  have k: "153 * p \<le> 5 * k + 2" "5 * k + 2 < 153 * p + 153" by (simp_all add: p)
  have yd: "year_days y = (if leap (y + 1) then 366 else 365)" by (rule year_days_def)
  have "0 \<le> p" "p \<le> 11" using k assms(1,2) by (auto simp: yd split: if_splits)
  then have p12: "p = 0 \<or> p = 1 \<or> p = 2 \<or> p = 3 \<or> p = 4 \<or> p = 5 \<or> p = 6 \<or> p = 7 \<or> p = 8 \<or> p = 9 \<or> p = 10 \<or> p = 11"
    by presburger
  have md: "m = (if p < 10 then p + 3 else p - 9)" "d = k - (153 * p + 2) div 5 + 1"
    using assms(3) by (auto simp: month_of_year_def p Let_def)
  show ?thesis using p12 k assms(1,2) unfolding md yd
    by (elim disjE) (simp_all add: month_days_def day_of_year_def split: if_splits)
qed

lemma day_number_eq:
  "day_number (y, m, d) =
     (if m \<le> 2 then (y - 1) div 400 * 146097 + year_start ((y - 1) mod 400) + day_of_year m d - 719468
      else y div 400 * 146097 + year_start (y mod 400) + day_of_year m d - 719468)"
  by (simp add: day_of_year_def Let_def)

declare day_number.simps [simp del]

lemma era_date:
  assumes "0 \<le> y" "y \<le> 399" "0 \<le> k" "k < year_days y" "month_of_year k = (m, d)"
  shows "valid_date (400 * q + y + (if m \<le> 2 then 1 else 0), m, d) \<and>
    day_number (400 * q + y + (if m \<le> 2 then 1 else 0), m, d) = q * 146097 + (year_start y + k) - 719468"
proof -
  let ?y = "400 * q + y"
  have yd: "year_days ?y = year_days y" using leap_era [of ?y] assms(1,2) by (simp add: year_days_def)
  note v = month_of_year_valid [of k ?y m d, unfolded yd, OF assms(3-5)]
  have "?y div 400 = q" "?y mod 400 = y" using assms(1,2) by simp_all
  with v show ?thesis by (cases "m \<le> 2") (simp_all add: day_number_eq)
qed

lemma valid_day_number: "\<exists>y m d. valid_date (y, m, d) \<and> day_number (y, m, d) = n"
proof -
  let ?z = "n + 719468"
  have "0 \<le> ?z mod 146097" "?z mod 146097 < 146097" by simp_all
  then obtain y k where y: "0 \<le> y" "y \<le> 399" "0 \<le> k" "k < year_days y" "?z mod 146097 = year_start y + k"
    by (rule in_some_year)
  obtain m d where "month_of_year k = (m, d)" by (cases "month_of_year k")
  from era_date [OF y(1-4) this, of "?z div 146097"]
  have "valid_date (400 * (?z div 146097) + y + (if m \<le> 2 then 1 else 0), m, d)"
    "day_number (400 * (?z div 146097) + y + (if m \<le> 2 then 1 else 0), m, d) = ?z div 146097 * 146097 + ?z mod 146097 - 719468"
    unfolding y(5) by blast+
  then show ?thesis unfolding div_mult_mod_eq by (metis add_diff_cancel_right')
qed

lemma valid_next_day: "valid_date dt \<Longrightarrow> valid_date (next_day dt)"
  by (cases dt) (auto simp: month_days_def)

lemma next_year:
  "(y - 1) div 400 * 146097 + year_start ((y - 1) mod 400) + (if leap y then 366 else 365) =
     y div 400 * 146097 + year_start (y mod 400)"
proof -
  define q r where d: "q = (y - 1) div 400" "r = (y - 1) mod 400"
  have y: "y = 400 * q + r + 1" and r: "0 \<le> r" "r \<le> 399" by (simp_all add: d)
  have l: "year_days r = (if leap y then 366 else 365)" using leap_era [of "y - 1"] by (simp add: year_days_def d)
  show ?thesis
  proof (cases "r = 399")
    case True
    then have "y = 400 * (q + 1)" using y by simp
    then have "y div 400 = q + 1" "y mod 400 = 0" by simp_all
    then show ?thesis using l True last_year_start unfolding d(1,2) [symmetric] l [symmetric] by (simp add: year_start_def)
  next
    case False
    then have "y div 400 = q" "y mod 400 = r + 1"
      using y r int_div_pos_eq [of y 400 q "r + 1"] int_mod_pos_eq [of y 400 q "r + 1"] by simp_all
    then show ?thesis using next_year_start [of r] r False unfolding d(1,2) [symmetric] l [symmetric] by simp
  qed
qed

lemma day_number_next:
  assumes "valid_date (y, m, d)"
  shows "day_number (next_day (y, m, d)) = day_number (y, m, d) + 1"
proof (cases "d < month_days y m")
  case True
  then show ?thesis by (simp add: day_number_eq day_of_year_def)
next
  case False
  then have d: "d = month_days y m" and m: "1 \<le> m" "m \<le> 12" using assms by simp_all
  show ?thesis using month_cases [OF m] d next_year [of y]
    by (elim disjE) (simp_all add: month_days_def day_number_eq day_of_year_def split: if_splits)
qed

text \<open>
  C27. The date of a day number is the calendar's: day 0 is 1970-01-01, and the date of the next day
  is the Gregorian calendar's next date, over the whole range of years, before the epoch too.
\<close>

theorem calendar_successor:
  "civil_from_days 0 = (1970, 1, 1) \<and> civil_from_days (n + 1) = next_day (civil_from_days n)"
proof
  show "civil_from_days 0 = (1970, 1, 1)" using civil_day_number [of 1970 1 1] by (simp add: month_days_def year_start_def day_number_eq day_of_year_def)
  obtain y m d where v: "valid_date (y, m, d)" "day_number (y, m, d) = n" using valid_day_number by blast
  obtain y' m' d' where nx: "next_day (y, m, d) = (y', m', d')" using prod_cases3 by blast
  have "civil_from_days n = (y, m, d)" using civil_day_number [OF v(1)] unfolding v(2) .
  moreover have "civil_from_days (day_number (y', m', d')) = (y', m', d')"
    using valid_next_day [OF v(1)] civil_day_number [of y' m' d'] unfolding nx by blast
  ultimately show "civil_from_days (n + 1) = next_day (civil_from_days n)"
    using day_number_next [OF v(1)] unfolding nx v(2) by (simp only: nx)
qed


section \<open>RFC 3339\<close>

text \<open>\<^verbatim>\<open>{n:0w}\<close>: the sign counts toward the width.\<close>

definition zero_pad :: "nat \<Rightarrow> str \<Rightarrow> str" where
  "zero_pad w s = replicate (w - length s) 48 @ s"

definition show_padded :: "nat \<Rightarrow> int \<Rightarrow> str" where
  "show_padded w n =
     (if n < 0 then 45 # zero_pad (w - 1) (show_nat (nat (- n))) else zero_pad w (show_nat (nat n)))"

definition rfc3339_millis :: "int \<Rightarrow> str" where
  "rfc3339_millis ms =
     (let days = ms div 86400000;
          of_day = ms mod 86400000;
          (year, month, day) = civil_from_days days
      in show_padded 4 year @ lit ''-'' @ show_padded 2 month @ lit ''-'' @ show_padded 2 day @ lit ''T'' @
         show_padded 2 (of_day div 3600000) @ lit '':'' @ show_padded 2 (of_day div 60000 mod 60) @ lit '':'' @
         show_padded 2 (of_day div 1000 mod 60) @ lit ''.'' @ show_padded 3 (of_day mod 1000) @ lit ''Z'')"

text \<open>Reading such a text, for comparison.\<close>

definition read_digits :: "str \<Rightarrow> int" where
  "read_digits s = foldl (\<lambda>a c. a * 10 + (int c - 48)) 0 s"

definition part :: "nat \<Rightarrow> nat \<Rightarrow> str \<Rightarrow> int" where
  "part i n s = read_digits (take n (drop i s))"

definition read_rfc3339 :: "str \<Rightarrow> int option" where
  "read_rfc3339 s =
     (if length s = 24 \<and> s ! 4 = 45 \<and> s ! 7 = 45 \<and> s ! 10 = 84 \<and> s ! 13 = 58 \<and> s ! 16 = 58 \<and> s ! 19 = 46 \<and> s ! 23 = 90
      then Some (day_number (part 0 4 s, part 5 2 s, part 8 2 s) * 86400000 +
        part 11 2 s * 3600000 + part 14 2 s * 60000 + part 17 2 s * 1000 + part 20 3 s)
      else None)"

lemma read_digits_zeros: "read_digits (replicate n 48 @ s) = read_digits s"
  by (induction n) (simp_all add: read_digits_def)

lemma read_digits_snoc: "read_digits (s @ [c]) = read_digits s * 10 + (int c - 48)"
  by (simp add: read_digits_def)

lemma read_digits_show_nat: "read_digits (show_nat n) = int n"
proof (induction n rule: show_nat.induct)
  case (1 n)
  show ?case
  proof (cases "n < 10")
    case True
    then show ?thesis by (simp add: show_nat.simps [of n] read_digits_def)
  next
    case False
    then have "read_digits (show_nat n) = int (n div 10) * 10 + int (n mod 10)"
      using 1 by (simp add: show_nat.simps [of n] read_digits_snoc)
    then show ?thesis by (simp add: zdiv_int zmod_int)
  qed
qed

lemma length_show_nat: "n < 10 ^ w \<Longrightarrow> 0 < w \<Longrightarrow> length (show_nat n) \<le> w"
proof (induction n arbitrary: w rule: show_nat.induct)
  case (1 n)
  show ?case
  proof (cases "n < 10")
    case True
    then show ?thesis using 1(3) by (simp add: show_nat.simps [of n])
  next
    case False
    obtain v where w: "w = Suc v" using 1(3) by (cases w) auto
    have "0 < v" using False 1(2) w by (cases v) auto
    moreover have "n div 10 < 10 ^ v" using 1(2) w by (simp add: less_mult_imp_div_less mult.commute)
    ultimately have "length (show_nat (n div 10)) \<le> v" using 1(1) [OF False] by blast
    then show ?thesis using False w by (simp add: show_nat.simps [of n])
  qed
qed

lemma show_padded_field:
  assumes "0 \<le> n" "n < 10 ^ w" "0 < w"
  shows "length (show_padded w n) = w" "read_digits (show_padded w n) = n"
proof -
  have "nat n < 10 ^ w" using assms by (simp add: nat_less_iff)
  then show "length (show_padded w n) = w" using assms length_show_nat by (simp add: show_padded_def zero_pad_def)
  show "read_digits (show_padded w n) = n"
    using assms(1) by (simp add: show_padded_def zero_pad_def read_digits_zeros read_digits_show_nat)
qed

lemma list_2: "length s = 2 \<Longrightarrow> \<exists>x y. s = [x, y]"
  by (cases s; cases "tl s") auto

lemma list_3: "length s = 3 \<Longrightarrow> \<exists>x y z. s = [x, y, z]"
  by (cases s) (auto dest: list_2)

lemma list_4: "length s = 4 \<Longrightarrow> \<exists>w x y z. s = [w, x, y, z]"
  by (cases s) (auto dest: list_3)

lemma read_rfc3339_fields:
  assumes "length a = 4" "length b = 2" "length c = 2" "length e = 2" "length f = 2" "length g = 2" "length h = 3"
  shows "read_rfc3339 (a @ [45] @ b @ [45] @ c @ [84] @ e @ [58] @ f @ [58] @ g @ [46] @ h @ [90]) =
    Some (day_number (read_digits a, read_digits b, read_digits c) * 86400000 + read_digits e * 3600000 +
      read_digits f * 60000 + read_digits g * 1000 + read_digits h)"
proof -
  from assms obtain a0 a1 a2 a3 b0 b1 c0 c1 e0 e1 f0 f1 g0 g1 h0 h1 h2 where
    l: "a = [a0, a1, a2, a3]" "b = [b0, b1]" "c = [c0, c1]" "e = [e0, e1]" "f = [f0, f1]" "g = [g0, g1]" "h = [h0, h1, h2]"
    by (auto dest!: list_2 list_3 list_4)
  show ?thesis unfolding l read_rfc3339_def part_def by simp
qed

lemma mixed_radix:
  "t = x * 1000 + r \<Longrightarrow> x = y * 60 + s \<Longrightarrow> y = z * 60 + u \<Longrightarrow>
     z * 3600000 + u * 60000 + s * 1000 + r = t" for t :: int
  by simp

lemma day_parts:
  "t div 3600000 * 3600000 + t div 60000 mod 60 * 60000 + t div 1000 mod 60 * 1000 + t mod 1000 = t" for t :: int
proof -
  have d: "t div 60000 = t div 1000 div 60" "t div 3600000 = t div 1000 div 60 div 60"
    using zdiv_zmult2_eq [of 60 t 1000] zdiv_zmult2_eq [of 60 t 60000] by simp_all
  show ?thesis unfolding d by (rule mixed_radix) (simp_all only: div_mult_mod_eq)
qed

lemma civil_valid:
  assumes "civil_from_days n = (y, m, d)"
  shows "valid_date (y, m, d) \<and> day_number (y, m, d) = n"
proof -
  obtain y' m' d' where v: "valid_date (y', m', d')" "day_number (y', m', d') = n" using valid_day_number by blast
  have "civil_from_days n = (y', m', d')" using civil_day_number [OF v(1)] unfolding v(2) .
  then show ?thesis using v assms by simp
qed

text \<open>
  C28. A timestamp says the time it was made from: for years 0 to 9999 the RFC 3339 text has 24
  characters and reading its fields gives back the millisecond.
\<close>

theorem rfc3339_roundtrip:
  assumes "civil_from_days (ms div 86400000) = (y, m, d)" "0 \<le> y" "y \<le> 9999"
  shows "read_rfc3339 (rfc3339_millis ms) = Some ms"
proof -
  define t where t: "t = ms mod 86400000"
  have t0: "0 \<le> t" "t < 86400000" by (simp_all add: t)
  have v: "1 \<le> m" "m \<le> 12" "1 \<le> d" "d \<le> 31" and n: "day_number (y, m, d) = ms div 86400000"
    using civil_valid [OF assms(1)] by (auto simp: month_days_def split: if_splits)
  have h: "0 \<le> t div 3600000" "t div 3600000 < 100"
    using t0 div_pos_pos_trivial zdiv_mono1 [of t 86399999 3600000] by (simp_all add: pos_imp_zdiv_nonneg_iff)
  have r: "rfc3339_millis ms = show_padded 4 y @ [45] @ show_padded 2 m @ [45] @ show_padded 2 d @ [84] @
      show_padded 2 (t div 3600000) @ [58] @ show_padded 2 (t div 60000 mod 60) @ [58] @
      show_padded 2 (t div 1000 mod 60) @ [46] @ show_padded 3 (t mod 1000) @ [90]"
    by (simp add: rfc3339_millis_def assms(1) t lit_def Let_def)
  have mod: "x mod 60 < 10 ^ 2" "0 \<le> x mod 60" for x :: int
    using pos_mod_bound [of 60 x] by simp_all
  have last: "t mod 1000 < 10 ^ 3" "0 \<le> t mod 1000" using pos_mod_bound [of 1000 t] by simp_all
  have lo: "0 \<le> m" "0 \<le> d" "m < 10 ^ 2" "d < 10 ^ 2" "y < 10 ^ 4" "t div 3600000 < 10 ^ 2"
    using v assms(2,3) h by simp_all
  note fields = show_padded_field [OF assms(2) lo(5)] show_padded_field [OF lo(1,3)] show_padded_field [OF lo(2,4)]
    show_padded_field [OF h(1) lo(6)] show_padded_field [OF mod(2,1)] show_padded_field [OF last(2,1)]
  have "read_rfc3339 (rfc3339_millis ms) = Some (ms div 86400000 * 86400000 +
      (t div 3600000 * 3600000 + t div 60000 mod 60 * 60000 + t div 1000 mod 60 * 1000 + t mod 1000))"
    unfolding r by (subst read_rfc3339_fields) (simp_all only: fields n add.assoc zero_less_numeral)
  then show ?thesis unfolding day_parts unfolding t div_mult_mod_eq .
qed

theorem rfc3339_roundtrip_witness: "read_rfc3339 (rfc3339_millis 1790771696789) = Some 1790771696789"
  by (rule rfc3339_roundtrip [of _ 2026 9 30]) code_simp+

end
