(* ===== verification/Log_Format.thy ===== *)
theory Log_Format
  imports Log_Time
begin

text \<open>
  How a log line is formatted (\<^verbatim>\<open>src/log.rs\<close>, section Formatting), as text and as JSON.  The source
  appends to a string \<^verbatim>\<open>out\<close>; here the helpers return what they append.  Rust's shortest float text
  (\<^verbatim>\<open>{x:?}\<close>) and \<^verbatim>\<open>is_finite\<close> are the parameters \<open>fl\<close> and \<open>fin\<close>.
\<close>

section \<open>Pieces\<close>

definition utf8 :: "str \<Rightarrow> nat list" where
  "utf8 s = concat (map utf8_char s)"

datatype 'f field_value = VStr str | VU64 u64 | VI64 u64 | VF64 'f | VBool bool

definition LEVELS :: "str list" where
  "LEVELS = [lit ''debug'', lit ''info'', lit ''warn'', lit ''error'']"

definition level_name :: "u8 \<Rightarrow> str" where
  "level_name level = (if unat level < length LEVELS then LEVELS ! unat level else lit ''error'')"

definition RESERVED :: "str list" where
  "RESERVED = [lit ''ts'', lit ''level'', lit ''msg'', lit ''task'']"

abbreviation MAX_STR :: nat where "MAX_STR \<equiv> 16384"
abbreviation MAX_LINE :: nat where "MAX_LINE \<equiv> 65536"

definition TRUNCATED :: str where
  "TRUNCATED = lit ''...(truncated)''"

text \<open>\<^verbatim>\<open>is_char_boundary\<close>, and the characters that end at or before a byte.\<close>

fun is_char_boundary :: "str \<Rightarrow> nat \<Rightarrow> bool" where
  "is_char_boundary [] n = (n = 0)"
| "is_char_boundary (c # s) n = (n = 0 \<or> length (utf8_char c) \<le> n \<and> is_char_boundary s (n - length (utf8_char c)))"

fun slice_to :: "str \<Rightarrow> nat \<Rightarrow> str" where
  "slice_to [] n = []"
| "slice_to (c # s) n =
     (if length (utf8_char c) \<le> n then c # slice_to s (n - length (utf8_char c)) else [])"

text \<open>The loop of \<^verbatim>\<open>capped\<close>.\<close>

fun floor_boundary :: "str \<Rightarrow> nat \<Rightarrow> nat" where
  "floor_boundary s 0 = 0"
| "floor_boundary s (Suc n) = (if is_char_boundary s (Suc n) then Suc n else floor_boundary s n)"

definition capped :: "str \<Rightarrow> str" where
  "capped s = (if utf8_len s \<le> MAX_STR then s else slice_to s (floor_boundary s MAX_STR) @ TRUNCATED)"

definition field_key :: "str \<Rightarrow> str" where
  "field_key key = (if key \<in> set RESERVED then lit ''field.'' @ key else key)"

definition hex_digit :: "nat \<Rightarrow> nat" where
  "hex_digit n = (if n < 10 then 48 + n else 87 + n)"

fun show_hex :: "nat \<Rightarrow> str" where
  "show_hex n = (if n < 16 then [hex_digit n] else show_hex (n div 16) @ [hex_digit (n mod 16)])"

declare show_hex.simps [simp del]

definition show_int :: "int \<Rightarrow> str" where
  "show_int n = (if n < 0 then 45 # show_nat (nat (- n)) else show_nat (nat n))"

definition json_char :: "nat \<Rightarrow> str" where
  "json_char c =
     (if c = 34 then [92, 34] else if c = 92 then [92, 92]
      else if c = 10 then [92, 110] else if c = 13 then [92, 114] else if c = 9 then [92, 116]
      else if c < 32 \<or> c = 127 then [92, 117] @ zero_pad 4 (show_hex c)
      else [c])"

definition json_string :: "str \<Rightarrow> str" where
  "json_string s = [34] @ concat (map json_char s) @ [34]"

definition control_char :: "nat \<Rightarrow> str" where
  "control_char c =
     (if c = 10 then [92, 110] else if c = 13 then [92, 114] else if c = 9 then [92, 116]
      else if c < 32 \<or> c = 127 then [92, 120] @ zero_pad 2 (show_hex c)
      else [c])"

definition escape_controls :: "str \<Rightarrow> str" where
  "escape_controls s = concat (map control_char s)"

definition text_key :: "str \<Rightarrow> str" where
  "text_key key =
     (if key = [] then [95] else []) @
     map (\<lambda>c. if is_whitespace c \<or> is_control c \<or> c = 61 \<or> c = 34 then 95 else c) key"

definition quote_char :: "nat \<Rightarrow> str" where
  "quote_char c = (if c = 34 then [92, 34] else if c = 92 then [92, 92] else escape_controls [c])"

definition quote :: "str \<Rightarrow> str" where
  "quote s = [34] @ concat (map quote_char s) @ [34]"

definition text_value :: "str \<Rightarrow> str" where
  "text_value s =
     (if s \<noteq> [] \<and> \<not> (\<exists>c \<in> set s. is_whitespace c \<or> is_control c \<or> c = 34 \<or> c = 61 \<or> c = 92)
      then s else quote s)"

section \<open>Lines\<close>

definition show_bool :: "bool \<Rightarrow> str" where
  "show_bool b = (if b then lit ''true'' else lit ''false'')"

fun json_value :: "('f \<Rightarrow> bool) \<Rightarrow> ('f \<Rightarrow> str) \<Rightarrow> 'f field_value \<Rightarrow> str" where
  "json_value fin fl (VStr s) = json_string (capped s)"
| "json_value fin fl (VU64 n) = show_nat (unat n)"
| "json_value fin fl (VI64 n) = show_int (sint n)"
| "json_value fin fl (VF64 x) = (if fin x then fl x else lit ''null'')"
| "json_value fin fl (VBool b) = show_bool b"

fun text_field_value :: "('f \<Rightarrow> str) \<Rightarrow> 'f field_value \<Rightarrow> str" where
  "text_field_value fl (VStr s) = text_value (capped s)"
| "text_field_value fl (VU64 n) = show_nat (unat n)"
| "text_field_value fl (VI64 n) = show_int (sint n)"
| "text_field_value fl (VF64 x) = fl x"
| "text_field_value fl (VBool b) = show_bool b"

fun json_fields :: "('f \<Rightarrow> bool) \<Rightarrow> ('f \<Rightarrow> str) \<Rightarrow> str \<Rightarrow> (str \<times> 'f field_value) list \<Rightarrow> str" where
  "json_fields fin fl out [] = out"
| "json_fields fin fl out ((key, v) # fs) =
     (if MAX_LINE < utf8_len out then out @ [44] @ json_string (lit ''truncated'') @ lit '':true''
      else json_fields fin fl (out @ [44] @ json_string (capped (field_key key)) @ [58] @ json_value fin fl v) fs)"

fun text_fields :: "('f \<Rightarrow> str) \<Rightarrow> str \<Rightarrow> (str \<times> 'f field_value) list \<Rightarrow> str" where
  "text_fields fl out [] = out"
| "text_fields fl out ((key, v) # fs) =
     (if MAX_LINE < utf8_len out then out @ lit '' truncated=true''
      else text_fields fl (out @ [32] @ text_key (capped (field_key key)) @ [61] @ text_field_value fl v) fs)"

definition json_head :: "int \<Rightarrow> u8 \<Rightarrow> str \<Rightarrow> nat option \<Rightarrow> str" where
  "json_head ms level message task =
     lit ''{'' @ json_string (lit ''ts'') @ lit '':'' @ [34] @ rfc3339_millis ms @ [34] @
     lit '','' @ json_string (lit ''level'') @ lit '':'' @ [34] @ level_name level @ [34] @
     lit '','' @ json_string (lit ''msg'') @ lit '':'' @ json_string (capped message) @
     (case task of None \<Rightarrow> [] | Some t \<Rightarrow> lit '','' @ json_string (lit ''task'') @ lit '':'' @ show_nat t)"

definition text_head :: "int \<Rightarrow> u8 \<Rightarrow> str \<Rightarrow> str" where
  "text_head ms level message =
     rfc3339_millis ms @ [32] @ map to_ascii_uppercase (level_name level) @ [32] @
     (let m = capped message
      in if 61 \<in> set m \<or> 34 \<in> set m then quote m else escape_controls m)"

definition line_text ::
  "('f \<Rightarrow> bool) \<Rightarrow> ('f \<Rightarrow> str) \<Rightarrow> bool \<Rightarrow> int \<Rightarrow> u8 \<Rightarrow> str \<Rightarrow> (str \<times> 'f field_value) list \<Rightarrow> nat option \<Rightarrow> str" where
  "line_text fin fl json ms level message fields task =
     (if json then json_fields fin fl (json_head ms level message task) fields @ [125]
      else text_fields fl (text_head ms level message) fields @
        (case task of None \<Rightarrow> [] | Some t \<Rightarrow> lit '' task='' @ show_nat t)) @ [10]"

definition format_line ::
  "('f \<Rightarrow> bool) \<Rightarrow> ('f \<Rightarrow> str) \<Rightarrow> bool \<Rightarrow> int \<Rightarrow> u8 \<Rightarrow> str \<Rightarrow> (str \<times> 'f field_value) list \<Rightarrow> nat option \<Rightarrow> nat list" where
  "format_line fin fl json ms level message fields task =
     utf8 (line_text fin fl json ms level message fields task)"

section \<open>One line per call\<close>

definition printable :: "nat \<Rightarrow> bool" where
  "printable c \<longleftrightarrow> 32 \<le> c \<and> c \<noteq> 127"

lemma printable_numeral [simp]:
  "printable (numeral n) \<longleftrightarrow> 32 \<le> (numeral n :: nat) \<and> (numeral n :: nat) \<noteq> 127"
  by (simp add: printable_def)

lemma printable_show_nat: "c \<in> set (show_nat n) \<Longrightarrow> printable c"
  using show_nat_digits [of n] by (force simp: printable_def)

lemma printable_show_int: "c \<in> set (show_int n) \<Longrightarrow> printable c"
  by (auto simp: show_int_def printable_def dest: printable_show_nat split: if_splits)

lemma show_hex_digits: "c \<in> set (show_hex n) \<Longrightarrow> 48 \<le> c \<and> c \<le> 57 \<or> 97 \<le> c \<and> c \<le> 102"
proof (induction n rule: show_hex.induct)
  case (1 n)
  then show ?case by (cases "n < 16") (auto simp: show_hex.simps [of n] hex_digit_def split: if_splits)
qed

lemma printable_zero_pad: "c \<in> set (zero_pad w s) \<Longrightarrow> (\<And>d. d \<in> set s \<Longrightarrow> printable d) \<Longrightarrow> printable c"
  by (auto simp: zero_pad_def printable_def split: if_splits)

lemma printable_show_hex: "c \<in> set (zero_pad w (show_hex n)) \<Longrightarrow> printable c"
  by (rule printable_zero_pad) (auto simp: printable_def dest: show_hex_digits)

lemma printable_json_char: "c \<in> set (json_char d) \<Longrightarrow> printable c"
  unfolding json_char_def using printable_show_hex [of c 4 d] by (simp split: if_splits) (auto simp: printable_def)

lemma printable_control_char: "c \<in> set (control_char d) \<Longrightarrow> printable c"
  unfolding control_char_def using printable_show_hex [of c 2 d] by (simp split: if_splits) (auto simp: printable_def)

lemma printable_json_string: "c \<in> set (json_string s) \<Longrightarrow> printable c"
  by (auto simp: json_string_def printable_json_char)

lemma printable_escape: "c \<in> set (escape_controls s) \<Longrightarrow> printable c"
  by (auto simp: escape_controls_def printable_control_char)

lemma printable_quote_char: "c \<in> set (quote_char d) \<Longrightarrow> printable c"
  using printable_escape [of c "[d]"] by (simp add: quote_char_def split: if_splits) (auto simp: printable_def)

lemma printable_quote: "c \<in> set (quote s) \<Longrightarrow> printable c"
  by (auto simp: quote_def printable_quote_char)

lemma printable_text_key: "c \<in> set (text_key s) \<Longrightarrow> printable c"
  by (auto simp: text_key_def printable_def is_control_def split: if_splits)

definition bare :: "str \<Rightarrow> bool" where
  "bare s \<longleftrightarrow> s \<noteq> [] \<and> \<not> (\<exists>c \<in> set s. is_whitespace c \<or> is_control c \<or> c = 34 \<or> c = 61 \<or> c = 92)"

lemma bareD: "bare s \<Longrightarrow> c \<in> set s \<Longrightarrow> \<not> is_whitespace c \<and> \<not> is_control c \<and> c \<noteq> 34 \<and> c \<noteq> 61 \<and> c \<noteq> 92"
  unfolding bare_def by blast

lemma text_value_eq: "text_value s = (if bare s then s else quote s)"
  by (simp only: text_value_def bare_def)

lemma printable_text_value: "c \<in> set (text_value s) \<Longrightarrow> printable c"
proof (cases "bare s")
  case True
  assume "c \<in> set (text_value s)"
  then have "\<not> is_control c" using bareD [OF True] True by (simp add: text_value_eq)
  then show ?thesis by (auto simp: is_control_def printable_def)
qed (simp add: text_value_eq printable_quote)

lemma printable_show_padded: "c \<in> set (show_padded w n) \<Longrightarrow> printable c"
proof -
  have "printable c" if "c \<in> set (zero_pad w (show_nat n))" for w n
    using that printable_zero_pad printable_show_nat by blast
  moreover have "printable 45" by (simp add: printable_def)
  moreover assume "c \<in> set (show_padded w n)"
  ultimately show ?thesis by (auto simp: show_padded_def split: if_splits)
qed

lemma printable_lit: "\<forall>c \<in> set s. 32 \<le> (of_char c :: nat) \<and> (of_char c :: nat) \<noteq> 127 \<Longrightarrow> c \<in> set (lit s) \<Longrightarrow> printable c"
  by (auto simp: lit_def printable_def)

lemma printable_rfc3339: "c \<in> set (rfc3339_millis ms) \<Longrightarrow> printable c"
proof -
  obtain y m d where "civil_from_days (ms div 86400000) = (y, m, d)" by (cases "civil_from_days (ms div 86400000)")
  moreover assume "c \<in> set (rfc3339_millis ms)"
  ultimately have "(\<exists>w n. c \<in> set (show_padded w n)) \<or> c = 45 \<or> c = 84 \<or> c = 58 \<or> c = 46 \<or> c = 90"
    by (auto simp: rfc3339_millis_def Let_def lit_def)
  then show ?thesis using printable_show_padded by (auto simp: printable_def)
qed

lemma printable_level: "c \<in> set (level_name l) \<Longrightarrow> printable c \<and> printable (to_ascii_uppercase c)"
proof -
  assume "c \<in> set (level_name l)"
  then have "c \<in> set (concat LEVELS)"
    unfolding level_name_def by (auto split: if_splits intro: nth_mem) (auto simp: LEVELS_def)
  then show ?thesis by (auto simp: LEVELS_def lit_def printable_def to_ascii_uppercase_def)
qed


lemma utf8_append [simp]: "utf8 (s @ t) = utf8 s @ utf8 t"
  by (simp add: utf8_def)

lemma utf8_ascii: "(\<And>c. c \<in> set s \<Longrightarrow> c < 128) \<Longrightarrow> utf8 s = s"
  by (induction s) (auto simp: utf8_def)

lemma length_utf8: "length (utf8 s) = utf8_len s"
  by (simp add: utf8_def utf8_len_def length_concat comp_def)

lemma utf8_char_printable: "printable c \<Longrightarrow> b \<in> set (utf8_char c) \<Longrightarrow> printable b"
  by (auto simp: utf8_char_def printable_def split: if_splits)

lemma utf8_printable: "(\<And>c. c \<in> set s \<Longrightarrow> printable c) \<Longrightarrow> b \<in> set (utf8 s) \<Longrightarrow> printable b"
  by (auto simp: utf8_def intro: utf8_char_printable)

text \<open>The text of a float has no control characters: what the formatter relies on.\<close>

definition float_printable :: "('f \<Rightarrow> str) \<Rightarrow> bool" where
  "float_printable fl \<longleftrightarrow> (\<forall>x. \<forall>c \<in> set (fl x). printable c)"

lemma printable_show_bool: "c \<in> set (show_bool b) \<Longrightarrow> printable c"
  by (auto simp: show_bool_def lit_def printable_def split: if_splits)

lemma printable_json_value: "float_printable fl \<Longrightarrow> c \<in> set (json_value fin fl v) \<Longrightarrow> printable c"
  by (cases v) (auto simp: printable_json_string printable_show_nat printable_show_int printable_show_bool
      float_printable_def lit_def split: if_splits)

lemma printable_text_field: "float_printable fl \<Longrightarrow> c \<in> set (text_field_value fl v) \<Longrightarrow> printable c"
  by (cases v) (auto simp: printable_text_value printable_show_nat printable_show_int printable_show_bool
      float_printable_def)

lemma printable_json_fields:
  assumes "float_printable fl"
  shows "(\<And>d. d \<in> set out \<Longrightarrow> printable d) \<Longrightarrow> c \<in> set (json_fields fin fl out fs) \<Longrightarrow> printable c"
proof (induction fs arbitrary: out)
  case (Cons f fs)
  obtain key v where f: "f = (key, v)" by (cases f)
  let ?next = "out @ [44] @ json_string (capped (field_key key)) @ [58] @ json_value fin fl v"
  have p: "printable 44" "printable 58" by (simp_all add: printable_def)
  have n: "printable d" if "d \<in> set ?next" for d
    using that p Cons(2) printable_json_string printable_json_value [OF assms] by auto
  show ?case
  proof (cases "MAX_LINE < utf8_len out")
    case True
    then have "c \<in> set out \<or> c = 44 \<or> c \<in> set (json_string (lit ''truncated'')) \<or> c \<in> set (lit '':true'')"
      using Cons(3) by (auto simp: f)
    then show ?thesis using Cons(2) printable_json_string by (elim disjE) (auto simp: lit_def)
  next
    case False
    then show ?thesis using Cons(1) [of ?next, OF n] Cons(3) by (simp add: f)
  qed
qed simp

lemma printable_text_fields:
  assumes "float_printable fl"
  shows "(\<And>d. d \<in> set out \<Longrightarrow> printable d) \<Longrightarrow> c \<in> set (text_fields fl out fs) \<Longrightarrow> printable c"
proof (induction fs arbitrary: out)
  case (Cons f fs)
  obtain key v where f: "f = (key, v)" by (cases f)
  let ?next = "out @ [32] @ text_key (capped (field_key key)) @ [61] @ text_field_value fl v"
  have p: "printable 32" "printable 61" by (simp_all add: printable_def)
  have n: "printable d" if "d \<in> set ?next" for d
    using that p Cons(2) printable_text_key printable_text_field [OF assms] by auto
  show ?case
  proof (cases "MAX_LINE < utf8_len out")
    case True
    then have "c \<in> set out \<or> c \<in> set (lit '' truncated=true'')" using Cons(3) by (simp add: f)
    then show ?thesis using Cons(2) by (elim disjE) (auto simp: lit_def)
  next
    case False
    then show ?thesis using Cons(1) [of ?next, OF n] Cons(3) by (simp add: f)
  qed
qed simp

lemma printable_json_head: "c \<in> set (json_head ms level message task) \<Longrightarrow> printable c"
proof -
  assume "c \<in> set (json_head ms level message task)"
  then have "c \<in> {123, 58, 34, 44} \<or> (\<exists>s. c \<in> set (json_string s)) \<or> c \<in> set (rfc3339_millis ms) \<or>
      c \<in> set (level_name level) \<or> (\<exists>t. c \<in> set (show_nat t))"
    by (auto simp: json_head_def lit_def split: option.splits)
  then show ?thesis
    using printable_json_string printable_rfc3339 printable_level printable_show_nat
    by (elim disjE exE) (auto simp: printable_def)
qed

lemma printable_text_head: "c \<in> set (text_head ms level message) \<Longrightarrow> printable c"
proof -
  assume "c \<in> set (text_head ms level message)"
  then have "c = 32 \<or> c \<in> set (rfc3339_millis ms) \<or> (\<exists>d \<in> set (level_name level). c = to_ascii_uppercase d) \<or>
      (\<exists>s. c \<in> set (quote s) \<or> c \<in> set (escape_controls s))"
    by (auto simp: text_head_def Let_def split: if_splits)
  then show ?thesis
    using printable_quote printable_rfc3339 printable_level printable_escape
    by (elim disjE exE bexE) (auto simp: printable_def)
qed

text \<open>
  The control characters from U+0080 to U+009F are not escaped in messages and quoted or JSON strings.
\<close>

lemma c1_controls_pass:
  assumes "128 \<le> c" "c \<le> 159"
  shows "is_control c \<and> escape_controls [c] = [c] \<and> quote [c] = [34, c, 34] \<and> json_string [c] = [34, c, 34]"
  using assms by (simp add: is_control_def escape_controls_def control_char_def quote_def quote_char_def json_string_def json_char_def)

text \<open>
  C23. A log call makes exactly one line, whatever the message, keys and values hold: the formatted
  bytes end in a newline, and no byte before it is an ASCII control character, so neither a newline nor an escape
  sequence's first byte, or DEL.  (The control characters past ASCII, U+0080 to U+009F, do pass.)
\<close>

theorem line_is_one_line:
  assumes "float_printable fl"
  shows "\<exists>body. format_line fin fl json ms level message fields task = body @ [10] \<and>
    (\<forall>b \<in> set body. 32 \<le> b \<and> b \<noteq> 127)"
proof -
  let ?body = "butlast (line_text fin fl json ms level message fields task)"
  have l: "line_text fin fl json ms level message fields task = ?body @ [10]"
    unfolding line_text_def by simp
  have p: "printable c" if "c \<in> set ?body" for c
  proof (cases json)
    case True
    then have "c \<in> set (json_fields fin fl (json_head ms level message task) fields) \<or> c = 125"
      using that by (auto simp: line_text_def butlast_append)
    then show ?thesis
      using printable_json_fields [OF assms printable_json_head [where ms = ms and level = level and message = message and task = task]]
      by auto
  next
    case False
    then have "c \<in> set (text_fields fl (text_head ms level message) fields) \<or> c \<in> set (lit '' task='') \<or>
        (\<exists>t. c \<in> set (show_nat t))"
      using that by (auto simp: line_text_def butlast_append split: option.splits)
    then show ?thesis
      using printable_text_fields [OF assms printable_text_head [where ms = ms and level = level and message = message]]
        printable_show_nat
      by (elim disjE exE) (auto simp: lit_def)
  qed
  have "format_line fin fl json ms level message fields task = utf8 ?body @ [10]"
    unfolding format_line_def by (subst l) (simp add: utf8_def)
  moreover have "\<forall>b \<in> set (utf8 ?body). 32 \<le> b \<and> b \<noteq> 127"
    using utf8_printable [OF p] by (simp add: printable_def)
  ultimately show ?thesis by blast
qed

text \<open>A stand-in for float text, for evaluation.\<close>

definition demo_float :: "int \<Rightarrow> str" where
  "demo_float n = show_int n @ lit ''.0''"

lemma demo_float_printable: "float_printable demo_float"
  unfolding float_printable_def demo_float_def
  using printable_show_int by (auto simp: lit_def)

theorem line_is_one_line_witness:
  "\<exists>body. format_line (\<lambda>_. True) demo_float False 0 2 (lit ''a'' @ [10, 27] @ lit ''b'') [(lit ''k'', VF64 2)] (Some 7) = body @ [10] \<and>
    (\<forall>b \<in> set body. 32 \<le> b \<and> b \<noteq> 127)"
  by (rule line_is_one_line [OF demo_float_printable])


section \<open>Reading a JSON line back\<close>

text \<open>A JSON reader for strings (RFC 8259), after the opening quote.\<close>

definition hex_value :: "nat \<Rightarrow> nat option" where
  "hex_value c =
     (if 48 \<le> c \<and> c \<le> 57 then Some (c - 48) else if 97 \<le> c \<and> c \<le> 102 then Some (c - 87)
      else if 65 \<le> c \<and> c \<le> 70 then Some (c - 55) else None)"

fun hex_number :: "str \<Rightarrow> nat option" where
  "hex_number [] = Some 0"
| "hex_number (c # s) = (case (hex_value c, hex_number s) of (Some x, Some y) \<Rightarrow> Some (x * 16 ^ length s + y) | _ \<Rightarrow> None)"

definition unescaped :: "nat \<Rightarrow> nat option" where
  "unescaped c = map_of [(34, 34), (92, 92), (47, 47), (98, 8), (102, 12), (110, 10), (114, 13), (116, 9)] c"

function read_string :: "str \<Rightarrow> (str \<times> str) option" where
  "read_string s =
     (case s of
        [] \<Rightarrow> None
      | c # s1 \<Rightarrow>
          if c = 34 then Some ([], s1)
          else if c < 32 then None
          else if c = 92 then
            (case s1 of
               [] \<Rightarrow> None
             | e # s2 \<Rightarrow>
                 (case (if e = 117 then if length s2 < 4 then None else map_option (\<lambda>x. (x, drop 4 s2)) (hex_number (take 4 s2))
                        else map_option (\<lambda>x. (x, s2)) (unescaped e)) of
                    None \<Rightarrow> None
                  | Some (x, s3) \<Rightarrow>
                      if length s3 < length s then map_option (\<lambda>(t, r). (x # t, r)) (read_string s3) else None))
          else map_option (\<lambda>(t, r). (c # t, r)) (read_string s1))"
  by pat_completeness auto
termination
  by (relation "measure length") auto

declare read_string.simps [simp del]

lemma hex_value_digit: "n < 16 \<Longrightarrow> hex_value (hex_digit n) = Some n"
  by (auto simp: hex_value_def hex_digit_def)

lemma show_hex_byte: "c < 256 \<Longrightarrow> zero_pad 4 (show_hex c) = [48, 48, hex_digit (c div 16), hex_digit (c mod 16)]"
proof (cases "c < 16")
  case True
  have "zero_pad 4 [x] = [48, 48, 48, x]" for x by (simp add: zero_pad_def numeral_3_eq_3)
  then show ?thesis using True by (simp add: show_hex.simps [of c] hex_digit_def [of 0])
next
  case False
  have z: "zero_pad 4 [x, y] = [48, 48, x, y]" for x y by (simp add: zero_pad_def numeral_2_eq_2)
  assume "c < 256"
  then have "c div 16 < 16" by (simp add: less_mult_imp_div_less)
  then show ?thesis using False by (simp add: show_hex.simps [of c] show_hex.simps [of "c div 16"] z)
qed

lemma hex_control:
  assumes "c < 32 \<or> c = 127"
  shows "length (zero_pad 4 (show_hex c)) = 4 \<and> hex_number (zero_pad 4 (show_hex c)) = Some c"
proof -
  have c: "c < 256" "c div 16 < 16" "c mod 16 < 16" using assms by auto
  have "hex_value 48 = Some 0" by (simp add: hex_value_def)
  then show ?thesis by (simp add: show_hex_byte [OF c(1)] hex_value_digit [OF c(2)] hex_value_digit [OF c(3)])
qed

lemma read_json_char:
  "read_string (json_char c @ s) = map_option (\<lambda>(t, r). (c # t, r)) (read_string s)"
proof -
  consider "c = 34 \<or> c = 92 \<or> c = 10 \<or> c = 13 \<or> c = 9" | "c < 32 \<or> c = 127" "c \<noteq> 10" "c \<noteq> 13" "c \<noteq> 9"
    | "32 \<le> c" "c \<noteq> 127" "c \<noteq> 34" "c \<noteq> 92" by linarith
  then show ?thesis
  proof cases
    case 1
    then show ?thesis by (auto simp: json_char_def read_string.simps [of "_ # _"] unescaped_def)
  next
    case 2
    note h = hex_control [OF 2(1)]
    have "json_char c = [92, 117] @ zero_pad 4 (show_hex c)" using 2 by (auto simp: json_char_def)
    then show ?thesis using h by (simp add: read_string.simps [of "_ # _"])
  next
    case 3
    then show ?thesis by (simp add: json_char_def read_string.simps [of "_ # _"])
  qed
qed

lemma read_json_string: "read_string (concat (map json_char s) @ 34 # r) = Some (s, r)"
proof (induction s)
  case Nil
  then show ?case by (simp add: read_string.simps [of "_ # _"])
next
  case (Cons c s)
  then show ?case by (simp add: read_json_char)
qed


text \<open>A reader for an object whose values are strings or plain tokens (numbers, true, false, null).\<close>

datatype json = JText str | JRaw str

definition expect :: "nat \<Rightarrow> str \<Rightarrow> str option" where
  "expect c s = (case s of [] \<Rightarrow> None | d # r \<Rightarrow> if d = c then Some r else None)"

definition read_value :: "str \<Rightarrow> (json \<times> str) option" where
  "read_value s =
     (case expect 34 s of
        Some r \<Rightarrow> map_option (\<lambda>(t, q). (JText t, q)) (read_string r)
      | None \<Rightarrow> Some (JRaw (takeWhile (\<lambda>c. c \<noteq> 44 \<and> c \<noteq> 125) s), dropWhile (\<lambda>c. c \<noteq> 44 \<and> c \<noteq> 125) s))"

definition read_member :: "str \<Rightarrow> ((str \<times> json) \<times> str) option" where
  "read_member s =
     Option.bind (expect 34 s) (\<lambda>r. Option.bind (read_string r) (\<lambda>(k, q).
       Option.bind (expect 58 q) (\<lambda>p. map_option (\<lambda>(v, t). ((k, v), t)) (read_value p))))"

fun read_members :: "nat \<Rightarrow> str \<Rightarrow> ((str \<times> json) list \<times> str) option" where
  "read_members 0 s = None"
| "read_members (Suc n) s =
     (case read_member s of
        None \<Rightarrow> None
      | Some (m, r) \<Rightarrow>
          (case expect 125 r of
             Some q \<Rightarrow> Some ([m], q)
           | None \<Rightarrow> Option.bind (expect 44 r) (\<lambda>q. map_option (\<lambda>(ms, t). (m # ms, t)) (read_members n q))))"

definition read_object :: "str \<Rightarrow> ((str \<times> json) list \<times> str) option" where
  "read_object s = Option.bind (expect 123 s) (\<lambda>r. read_members (length r) r)"

definition ends_value :: "str \<Rightarrow> bool" where
  "ends_value r \<longleftrightarrow> (\<exists>c q. r = c # q \<and> (c = 44 \<or> c = 125))"

definition reads_as :: "str \<Rightarrow> json \<Rightarrow> bool" where
  "reads_as t v \<longleftrightarrow> (\<forall>r. ends_value r \<longrightarrow> read_value (t @ r) = Some (v, r))"

definition token :: "str \<Rightarrow> bool" where
  "token t \<longleftrightarrow> t \<noteq> [] \<and> (\<forall>c \<in> set t. c \<noteq> 34 \<and> c \<noteq> 44 \<and> c \<noteq> 125)"

lemma reads_string: "reads_as (json_string s) (JText s)"
  by (simp add: reads_as_def read_value_def expect_def json_string_def read_json_string)

lemma reads_token: "token t \<Longrightarrow> reads_as t (JRaw t)"
proof -
  assume t: "token t"
  have tw: "takeWhile P (t @ r) = t \<and> dropWhile P (t @ r) = r" if "\<And>c. c \<in> set t \<Longrightarrow> P c" "\<And>c q. r = c # q \<Longrightarrow> \<not> P c" for P r
    using that by (cases r) (simp_all add: takeWhile_append2 dropWhile_append2)
  show ?thesis unfolding reads_as_def
  proof (intro allI impI)
    fix r
    assume "ends_value r"
    then have "takeWhile (\<lambda>c. c \<noteq> 44 \<and> c \<noteq> 125) (t @ r) = t \<and> dropWhile (\<lambda>c. c \<noteq> 44 \<and> c \<noteq> 125) (t @ r) = r"
      using t by (intro tw) (auto simp: token_def ends_value_def)
    moreover have "expect 34 (t @ r) = None" using t by (cases t) (auto simp: token_def expect_def)
    ultimately show "read_value (t @ r) = Some (JRaw t, r)" by (simp add: read_value_def)
  qed
qed

text \<open>Members as text: key, the value's text, the value.\<close>

type_synonym json_member = "str \<times> str \<times> json"

definition member_text :: "json_member \<Rightarrow> str" where
  "member_text m = json_string (fst m) @ [58] @ fst (snd m)"

definition member_pair :: "json_member \<Rightarrow> str \<times> json" where
  "member_pair m = (fst m, snd (snd m))"

definition member_ok :: "json_member \<Rightarrow> bool" where
  "member_ok m \<longleftrightarrow> reads_as (fst (snd m)) (snd (snd m))"

definition more_text :: "json_member list \<Rightarrow> str" where
  "more_text ms = concat (map (\<lambda>m. 44 # member_text m) ms)"

lemma more_text_simps [simp]:
  "more_text [] = []" "more_text (m # ms) = 44 # member_text m @ more_text ms" "more_text (ms @ ns) = more_text ms @ more_text ns"
  by (simp_all add: more_text_def)

lemma read_member_text: "member_ok m \<Longrightarrow> ends_value r \<Longrightarrow> read_member (member_text m @ r) = Some (member_pair m, r)"
  by (simp add: read_member_def member_text_def member_pair_def member_ok_def reads_as_def expect_def
      json_string_def read_json_string)

lemma read_members_text:
  "member_ok m \<Longrightarrow> (\<And>x. x \<in> set ms \<Longrightarrow> member_ok x) \<Longrightarrow> length ms < n \<Longrightarrow>
     read_members n (member_text m @ more_text ms @ 125 # r) = Some (map member_pair (m # ms), r)"
proof (induction ms arbitrary: m n)
  case Nil
  then obtain k where "n = Suc k" by (cases n) auto
  then show ?case using read_member_text [OF Nil(1), of "125 # r"] by (simp add: ends_value_def expect_def)
next
  case (Cons x ms)
  then obtain k where n: "n = Suc k" by (cases n) auto
  have "ends_value (44 # member_text x @ more_text ms @ 125 # r)" by (simp add: ends_value_def)
  from read_member_text [OF Cons(2) this] Cons(1) [of x k] Cons(3,4) show ?case by (simp add: n expect_def)
qed

lemma read_object_text:
  assumes "member_ok m" "\<And>x. x \<in> set ms \<Longrightarrow> member_ok x"
  shows "read_object (123 # member_text m @ more_text ms @ [125]) = Some (map member_pair (m # ms), [])"
proof -
  have "length ms \<le> length (more_text ms)" by (induction ms) simp_all
  then have "length ms < length (member_text m @ more_text ms @ [125])" by simp
  from read_members_text [OF assms this, of "[]"] show ?thesis by (simp add: read_object_def expect_def)
qed

definition plain :: "nat \<Rightarrow> bool" where
  "plain c \<longleftrightarrow> 32 \<le> c \<and> c \<noteq> 127 \<and> c \<noteq> 34 \<and> c \<noteq> 92"

lemma json_char_plain: "plain c \<Longrightarrow> json_char c = [c]"
  by (auto simp: plain_def json_char_def)

lemma json_string_plain: "(\<And>c. c \<in> set s \<Longrightarrow> plain c) \<Longrightarrow> json_string s = [34] @ s @ [34]"
proof -
  assume "\<And>c. c \<in> set s \<Longrightarrow> plain c"
  then have "concat (map json_char s) = s" by (induction s) (simp_all add: json_char_plain)
  then show ?thesis by (simp add: json_string_def)
qed

lemma show_padded_chars: "c \<in> set (show_padded w n) \<Longrightarrow> c = 45 \<or> 48 \<le> c \<and> c \<le> 57"
proof -
  have "48 \<le> c \<and> c \<le> 57" if "c \<in> set (zero_pad w (show_nat n))" for w n
    using that show_nat_digits [of n] by (auto simp: zero_pad_def split: if_splits)
  moreover assume "c \<in> set (show_padded w n)"
  ultimately show ?thesis by (auto simp: show_padded_def split: if_splits)
qed

lemma plain_rfc3339: "c \<in> set (rfc3339_millis ms) \<Longrightarrow> plain c"
proof -
  obtain y m d where "civil_from_days (ms div 86400000) = (y, m, d)" by (cases "civil_from_days (ms div 86400000)")
  moreover assume "c \<in> set (rfc3339_millis ms)"
  ultimately have "(\<exists>w n. c \<in> set (show_padded w n)) \<or> c = 45 \<or> c = 84 \<or> c = 58 \<or> c = 46 \<or> c = 90"
    by (auto simp: rfc3339_millis_def Let_def lit_def)
  then show ?thesis using show_padded_chars by (elim disjE exE) (fastforce simp: plain_def)+
qed

lemma plain_level: "c \<in> set (level_name l) \<Longrightarrow> plain c"
proof -
  assume "c \<in> set (level_name l)"
  then have "c \<in> set (concat LEVELS)"
    unfolding level_name_def by (auto split: if_splits intro: nth_mem) (auto simp: LEVELS_def)
  then show ?thesis by (auto simp: LEVELS_def lit_def plain_def)
qed


text \<open>The members a line should have.\<close>

definition value_json :: "('f \<Rightarrow> bool) \<Rightarrow> ('f \<Rightarrow> str) \<Rightarrow> 'f field_value \<Rightarrow> json" where
  "value_json fin fl v = (case v of VStr s \<Rightarrow> JText (capped s) | _ \<Rightarrow> JRaw (json_value fin fl v))"

definition field_member :: "('f \<Rightarrow> bool) \<Rightarrow> ('f \<Rightarrow> str) \<Rightarrow> str \<times> 'f field_value \<Rightarrow> json_member" where
  "field_member fin fl f = (capped (field_key (fst f)), json_value fin fl (snd f), value_json fin fl (snd f))"

definition text_member :: "str \<Rightarrow> str \<Rightarrow> json_member" where
  "text_member k s = (k, json_string s, JText s)"

definition raw_member :: "str \<Rightarrow> str \<Rightarrow> json_member" where
  "raw_member k s = (k, s, JRaw s)"

definition cut_member :: "bool \<Rightarrow> json_member list" where
  "cut_member b = (if b then [raw_member (lit ''truncated'') (lit ''true'')] else [])"

definition task_member :: "nat option \<Rightarrow> json_member list" where
  "task_member task = (case task of None \<Rightarrow> [] | Some t \<Rightarrow> [raw_member (lit ''task'') (show_nat t)])"

text \<open>The text of a float is a JSON token: no quote, comma or brace in it.\<close>

definition float_token :: "('f \<Rightarrow> str) \<Rightarrow> bool" where
  "float_token fl \<longleftrightarrow> (\<forall>x. token (fl x))"

lemma token_show_nat: "token (show_nat n)"
  using show_nat_digits [of n] by (force simp: token_def)

lemma token_show_int: "token (show_int n)"
  using token_show_nat by (auto simp: show_int_def token_def)

lemma field_member_ok: "float_token fl \<Longrightarrow> member_ok (field_member fin fl f)"
proof -
  assume "float_token fl"
  moreover have "token (lit ''null'')" "token (show_bool b)" for b
    by (auto simp: show_bool_def lit_def token_def)
  ultimately show ?thesis using token_show_nat token_show_int
    by (cases "snd f") (auto simp: member_ok_def field_member_def value_json_def reads_string float_token_def intro!: reads_token)
qed

lemma text_member_ok: "member_ok (text_member k s)" "member_text (text_member k s) = json_string k @ [58] @ json_string s"
  by (simp_all add: member_ok_def text_member_def reads_string member_text_def)

lemma raw_member_ok: "token s \<Longrightarrow> member_ok (raw_member k s)" "member_text (raw_member k s) = json_string k @ [58] @ s"
  by (simp_all add: member_ok_def raw_member_def reads_token member_text_def)

lemma cut_member_ok: "m \<in> set (cut_member b) \<Longrightarrow> member_ok m"
  by (auto simp: cut_member_def lit_def token_def intro!: raw_member_ok split: if_splits)

lemma task_member_ok: "m \<in> set (task_member t) \<Longrightarrow> member_ok m"
  by (auto simp: task_member_def token_show_nat intro!: raw_member_ok split: option.splits)

lemma json_fields_text:
  "\<exists>n \<le> length fs. json_fields fin fl out fs =
     out @ more_text (map (field_member fin fl) (take n fs) @ cut_member (n < length fs)) \<and>
     (n < length fs \<longrightarrow> MAX_LINE < utf8_len (json_fields fin fl out fs))"
proof (induction fs arbitrary: out)
  case Nil
  then show ?case by (simp add: cut_member_def)
next
  case (Cons f fs)
  obtain key v where f: "f = (key, v)" by (cases f)
  let ?next = "out @ [44] @ json_string (capped (field_key key)) @ [58] @ json_value fin fl v"
  show ?case
  proof (cases "MAX_LINE < utf8_len out")
    case True
    then show ?thesis by (intro exI [of _ 0]) (simp add: f cut_member_def raw_member_ok(2) lit_def)
  next
    case False
    obtain n where n: "n \<le> length fs" "json_fields fin fl ?next fs =
         ?next @ more_text (map (field_member fin fl) (take n fs) @ cut_member (n < length fs))"
         "n < length fs \<longrightarrow> MAX_LINE < utf8_len (json_fields fin fl ?next fs)"
      using Cons [of ?next] by blast
    have "json_fields fin fl out (f # fs) =
        out @ more_text (map (field_member fin fl) (take (Suc n) (f # fs)) @ cut_member (Suc n < length (f # fs)))"
      using False n(2) by (simp add: f field_member_def member_text_def)
    moreover have "json_fields fin fl out (f # fs) = json_fields fin fl ?next fs" using False by (simp add: f)
    ultimately show ?thesis using n(1,3) by (intro exI [of _ "Suc n"]) auto
  qed
qed

lemma json_head_text:
  "json_head ms level message task =
     123 # member_text (text_member (lit ''ts'') (rfc3339_millis ms)) @
       more_text ([text_member (lit ''level'') (level_name level), text_member (lit ''msg'') (capped message)] @ task_member task)"
  using json_string_plain [of "rfc3339_millis ms"] plain_rfc3339 json_string_plain [of "level_name level"] plain_level
  by (simp add: json_head_def text_member_ok raw_member_ok task_member_def lit_def split: option.splits)

text \<open>
  C22. A JSON line is one object that reads back as what was logged: its members are the timestamp,
  the level, the message, the task and the fields in order, with the strings the caller gave (cut
  at the limit), so no message, key or value can forge another member.  Fields are left out only
  when the line is past its limit, and then the line says so.
\<close>

theorem json_line_reads_back:
  assumes "float_token fl"
  shows "\<exists>object n. line_text fin fl True ms level message fields task = object @ [10] \<and> n \<le> length fields \<and>
    (n < length fields \<longrightarrow> MAX_LINE < utf8_len object) \<and>
    read_object object = Some (
      [(lit ''ts'', JText (rfc3339_millis ms)), (lit ''level'', JText (level_name level)), (lit ''msg'', JText (capped message))] @
      (case task of None \<Rightarrow> [] | Some t \<Rightarrow> [(lit ''task'', JRaw (show_nat t))]) @
      map (\<lambda>(k, v). (capped (field_key k), value_json fin fl v)) (take n fields) @
      (if n < length fields then [(lit ''truncated'', JRaw (lit ''true''))] else []), [])"
proof -
  let ?head = "json_head ms level message task"
  obtain n where n: "n \<le> length fields" "json_fields fin fl ?head fields =
       ?head @ more_text (map (field_member fin fl) (take n fields) @ cut_member (n < length fields))"
       "n < length fields \<longrightarrow> MAX_LINE < utf8_len (json_fields fin fl ?head fields)"
    using json_fields_text by blast
  let ?obj = "json_fields fin fl ?head fields @ [125]"
  let ?ms = "[text_member (lit ''level'') (level_name level), text_member (lit ''msg'') (capped message)] @ task_member task @
    map (field_member fin fl) (take n fields) @ cut_member (n < length fields)"
  have ok: "member_ok x" if "x \<in> set ?ms" for x
    using that assms by (auto simp: text_member_ok cut_member_ok task_member_ok field_member_ok)
  have "?obj = 123 # member_text (text_member (lit ''ts'') (rfc3339_millis ms)) @ more_text ?ms @ [125]"
    unfolding n(2) unfolding json_head_text by simp
  then have "read_object ?obj = Some (map member_pair (text_member (lit ''ts'') (rfc3339_millis ms) # ?ms), [])"
    using read_object_text [OF text_member_ok(1), of ?ms] ok by simp
  moreover have "map member_pair (map (field_member fin fl) fs) =
      map (\<lambda>(k, v). (capped (field_key k), value_json fin fl v)) fs" for fs
    by (simp add: field_member_def member_pair_def case_prod_beta)
  ultimately have "read_object ?obj = Some (
      [(lit ''ts'', JText (rfc3339_millis ms)), (lit ''level'', JText (level_name level)), (lit ''msg'', JText (capped message))] @
      (case task of None \<Rightarrow> [] | Some t \<Rightarrow> [(lit ''task'', JRaw (show_nat t))]) @
      map (\<lambda>(k, v). (capped (field_key k), value_json fin fl v)) (take n fields) @
      (if n < length fields then [(lit ''truncated'', JRaw (lit ''true''))] else []), [])"
    by (simp add: member_pair_def text_member_def raw_member_def task_member_def cut_member_def split: option.splits)
  then show ?thesis using n(1,3) by (intro exI [of _ ?obj] exI [of _ n]) (auto simp: line_text_def)
qed

lemma demo_float_token: "float_token demo_float"
  using token_show_int by (auto simp: float_token_def demo_float_def lit_def token_def)

theorem json_line_reads_back_witness:
  "\<exists>object n. line_text (\<lambda>_. True) demo_float True 0 1 (lit ''hi'') [] None = object @ [10] \<and> n \<le> (0 :: nat) \<and>
    read_object object = Some ([(lit ''ts'', JText (rfc3339_millis 0)), (lit ''level'', JText (level_name 1)),
      (lit ''msg'', JText (capped (lit ''hi'')))], [])"
  using json_line_reads_back [OF demo_float_token, of "\<lambda>_. True" 0 1 "lit ''hi''" "[]" None] by simp

section \<open>How long a line can get\<close>

lemma json_char_long: "utf8_len (json_char c) \<le> 6 * length (utf8_char c)"
proof -
  have "1 \<le> length (utf8_char c)" using utf8_char_length by blast
  moreover have "utf8_len (zero_pad 4 (show_hex c)) \<le> 4" if "c < 32 \<or> c = 127"
  proof -
    have c: "c < 256" "c div 16 < 16" "c mod 16 < 16" using that by auto
    have "hex_digit n < 128" if "n < 16" for n using that by (simp add: hex_digit_def)
    from this [OF c(2)] this [OF c(3)] have "hex_digit (c div 16) < 128" "hex_digit (c mod 16) < 128" by blast+
    then show ?thesis by (simp add: show_hex_byte [OF c(1)])
  qed
  ultimately show ?thesis by (auto simp: json_char_def)
qed

lemma json_string_long: "utf8_len (json_string s) \<le> 6 * utf8_len s + 2"
proof -
  have "utf8_len (concat (map json_char s)) \<le> 6 * utf8_len s"
    by (induction s) (use json_char_long in \<open>auto simp: add_mono\<close>)
  then show ?thesis by (simp add: json_string_def)
qed

lemma slice_to_long: "utf8_len (slice_to s n) \<le> n"
  by (induction s n rule: slice_to.induct) auto

lemma floor_boundary_le: "floor_boundary s n \<le> n"
  by (induction s n rule: floor_boundary.induct) auto

lemma capped_long: "utf8_len (capped s) \<le> 16398"
proof (cases "utf8_len s \<le> MAX_STR")
  case False
  have "utf8_len (slice_to s (floor_boundary s MAX_STR)) \<le> MAX_STR"
    using slice_to_long floor_boundary_le by (rule order_trans)
  moreover have "utf8_len TRUNCATED = 14" by (simp add: TRUNCATED_def lit_def)
  ultimately show ?thesis using False by (simp add: capped_def)
qed (simp add: capped_def)

lemma json_capped_long: "utf8_len (json_string (capped s)) \<le> 98390"
  using json_string_long [of "capped s"] capped_long [of s] by simp

lemma digits_long: "(\<And>c. c \<in> set s \<Longrightarrow> c < 128) \<Longrightarrow> utf8_len s = length s"
  by (induction s) auto

lemma show_nat_long: "n < 10 ^ w \<Longrightarrow> 0 < w \<Longrightarrow> utf8_len (show_nat n) \<le> w"
  using digits_long [of "show_nat n"] show_nat_digits [of n] length_show_nat [of n w] by force

lemma word_text_long: "utf8_len (show_nat (unat (x :: u64))) \<le> 20" "utf8_len (show_int (sint (y :: u64))) \<le> 21"
proof -
  have u: "unat x < 10 ^ 20" by (rule le_less_trans [OF unat_u64_bound]) simp
  then show "utf8_len (show_nat (unat x)) \<le> 20" by (rule show_nat_long) simp
  have "- (2 ^ 63) \<le> sint y" "sint y < 2 ^ 63" using sint_greater_eq [of y] sint_less [of y] by simp_all
  then have "nat (sint y) < 10 ^ 20" "nat (- sint y) < 10 ^ 20" by simp_all
  then show "utf8_len (show_int (sint y)) \<le> 21"
    using show_nat_long [of "nat (sint y)" 20] show_nat_long [of "nat (- sint y)" 20] by (simp add: show_int_def)
qed

text \<open>The text of a float is no longer than a string value's can be; Rust's is at most 24 bytes.\<close>

definition float_short :: "('f \<Rightarrow> str) \<Rightarrow> bool" where
  "float_short fl \<longleftrightarrow> (\<forall>x. utf8_len (fl x) \<le> 24)"

lemma json_value_long: "float_short fl \<Longrightarrow> utf8_len (json_value fin fl v) \<le> 98390"
proof -
  assume "float_short fl"
  then have "utf8_len (fl x) \<le> 98390" for x unfolding float_short_def by (meson le_trans numeral_le_iff semiring_norm)
  moreover have "utf8_len (show_bool b) \<le> 98390" "utf8_len (lit ''null'') \<le> 98390" for b by (auto simp: show_bool_def lit_def)
  moreover have "utf8_len (show_nat (unat x)) \<le> 98390" "utf8_len (show_int (sint y)) \<le> 98390" for x y :: u64
    using word_text_long(1) [of x] word_text_long(2) [of y] by linarith+
  ultimately show ?thesis using json_capped_long by (cases v) simp_all
qed

lemma json_fields_long:
  assumes "float_short fl"
  shows "utf8_len (json_fields fin fl out fs) \<le> max (utf8_len out) 262318 + 17"
proof (induction fs arbitrary: out)
  case (Cons f fs)
  obtain key v where f: "f = (key, v)" by (cases f)
  let ?next = "out @ [44] @ json_string (capped (field_key key)) @ [58] @ json_value fin fl v"
  show ?case
  proof (cases "MAX_LINE < utf8_len out")
    case True
    have "utf8_len (json_string (lit ''truncated'')) = 11"
      by (simp add: json_string_def json_char_def lit_def)
    then show ?thesis using True by (simp add: f lit_def)
  next
    case False
    then have "utf8_len ?next \<le> 262318"
      using json_capped_long [of "field_key key"] json_value_long [OF assms, of fin v] by simp
    then show ?thesis using Cons [of ?next] False by (simp add: f)
  qed
qed simp

lemma json_head_long:
  assumes "utf8_len (rfc3339_millis ms) \<le> 64" "\<And>t. task = Some t \<Longrightarrow> t < 2 ^ 64"
  shows "utf8_len (json_head ms level message task) \<le> 98600"
proof -
  have "c \<in> set (level_name level) \<Longrightarrow> c < 128" for c
    unfolding level_name_def by (auto simp: LEVELS_def lit_def nth_Cons split: if_splits nat.splits)
  moreover have "length (level_name level) \<le> 5"
    unfolding level_name_def by (auto simp: LEVELS_def lit_def nth_Cons split: nat.splits)
  ultimately have "utf8_len (level_name level) \<le> 5" using digits_long [of "level_name level"] by simp
  moreover have "utf8_len (show_nat t) \<le> 20" if "task = Some t" for t
    using assms(2) [OF that] by (intro show_nat_long) simp_all
  moreover have "utf8_len (json_string (lit ''ts'')) = 4" "utf8_len (json_string (lit ''level'')) = 7"
    "utf8_len (json_string (lit ''msg'')) = 5" "utf8_len (json_string (lit ''task'')) = 6"
    by (simp_all add: json_string_def json_char_def lit_def)
  ultimately show ?thesis using assms(1) json_capped_long [of message]
    by (auto simp: json_head_def lit_def split: option.splits)
qed

text \<open>
  A JSON line is bounded whatever is logged: at most 262,337 bytes, four times the limit the
  formatter looks at between fields.
\<close>

lemma json_line_bounded:
  assumes "float_short fl" "utf8_len (rfc3339_millis ms) \<le> 64" "\<And>t. task = Some t \<Longrightarrow> t < 2 ^ 64"
  shows "length (format_line fin fl True ms level message fields task) \<le> 262337"
  using json_fields_long [OF assms(1), of fin "json_head ms level message task" fields]
    json_head_long [OF assms(2), of task level message] assms(3)
  by (simp add: format_line_def line_text_def length_utf8)

lemma json_line_bounded_example:
  "length (format_line (\<lambda>_. True) (\<lambda>x. lit ''1.5'') True 0 1 (lit ''hi'') [(lit ''k'', VF64 ())] (Some 3)) \<le> 262337"
  by (rule json_line_bounded) (simp add: float_short_def lit_def, code_simp, simp)

text \<open>
  The 64 KiB limit on lines is not one: a message of 16 KiB of control characters alone makes a
  JSON line half as long again, since the limit is only looked at between fields and escaping
  makes a character up to six bytes.
\<close>

lemma long_line:
  "MAX_LINE < length (format_line fin fl True ms level (replicate 16384 1) [] None)"
proof -
  have len: "utf8_len (replicate n c) = n * length (utf8_char c)" for n c by (induction n) simp_all
  have "json_char 1 = [92, 117] @ zero_pad 4 (show_hex 1)" by (simp add: json_char_def)
  then have one: "utf8_len (json_char 1) = 6"
    using show_hex_byte [of 1] by (simp add: hex_digit_def)
  have "utf8_len (concat (map json_char (replicate n 1))) = 6 * n" for n
    using one by (induction n) simp_all
  then have js: "utf8_len (json_string (replicate n 1)) = 6 * n + 2" for n by (simp add: json_string_def)
  have cap: "capped (replicate 16384 1) = replicate 16384 1" using len [of 16384 1] by (simp add: capped_def)
  have "utf8_len (json_string (replicate 16384 1)) \<le> utf8_len (json_head ms level (replicate 16384 1) None)"
    unfolding json_head_def cap by simp
  then show ?thesis using js [of 16384] by (simp add: format_line_def length_utf8 line_text_def del: One_nat_def)
qed

end
