(* ===== verification/Log_Queue.thy ===== *)
theory Log_Queue
  imports Log_Format Limits "HOL-Library.Sublist"
begin

text \<open>
  The queue between log calls and the writer thread (\<^verbatim>\<open>src/log.rs\<close>): appending a line, dropping the
  oldest ones past the cap, taking a batch, and waiting for the queue to empty.  The mutex makes
  each of these one step; the condition variables are the writer's phase.  What the writer has
  handed to stderr is kept as a list of batches with what came out of each.
\<close>

section \<open>Operations\<close>

type_synonym line = "nat list"

record queue =
  q_lines :: "line list"
  q_queued :: nat
  q_in_flight :: nat
  q_dropped :: nat
  q_writing :: bool
  q_sleeping :: bool

definition queue_new :: queue where
  "queue_new = \<lparr>q_lines = [], q_queued = 0, q_in_flight = 0, q_dropped = 0, q_writing = False, q_sleeping = False\<rparr>"

definition log_enabled :: "env \<Rightarrow> u8 \<Rightarrow> bool" where
  "log_enabled e level \<longleftrightarrow> fst (log_level e) \<le> unat level"

text \<open>The loop of \<^verbatim>\<open>push\<close>: the oldest lines go, down to the newest one.\<close>

fun shed :: "nat \<Rightarrow> nat \<Rightarrow> line list \<Rightarrow> nat \<Rightarrow> nat \<Rightarrow> line list \<times> nat \<times> nat" where
  "shed cap infl (x # y # ls) queued dropped =
     (if cap < queued + infl then shed cap infl (y # ls) (queued - length x) (dropped + 1)
      else (x # y # ls, queued, dropped))"
| "shed cap infl ls queued dropped = (ls, queued, dropped)"

text \<open>\<^verbatim>\<open>push\<close>; whether the writer is to be notified.\<close>

definition log_push :: "nat \<Rightarrow> line \<Rightarrow> queue \<Rightarrow> bool \<times> queue" where
  "log_push cap line q =
     (case shed cap (q_in_flight q) (q_lines q @ [line]) (q_queued q + length line) (q_dropped q) of
        (ls, queued, dropped) \<Rightarrow>
          (q_sleeping q, q\<lparr>q_lines := ls, q_queued := queued, q_dropped := dropped, q_sleeping := False\<rparr>))"

text \<open>The writer under the lock: back from writing, about to sleep, taking a batch.\<close>

definition writer_back :: "queue \<Rightarrow> queue" where
  "writer_back q = q\<lparr>q_in_flight := 0\<rparr>"

definition nothing_to_write :: "queue \<Rightarrow> bool" where
  "nothing_to_write q \<longleftrightarrow> q_lines q = [] \<and> q_dropped q = 0"

definition writer_sleep :: "queue \<Rightarrow> queue" where
  "writer_sleep q = q\<lparr>q_writing := False, q_sleeping := True\<rparr>"

definition batch_max :: "nat \<Rightarrow> nat" where
  "batch_max cap = max (cap div 16) 4096"

fun take_batch :: "nat \<Rightarrow> line list \<Rightarrow> line list \<Rightarrow> nat \<Rightarrow> line list \<times> nat \<times> line list" where
  "take_batch most [] taken bytes = (taken, bytes, [])"
| "take_batch most (l # ls) taken bytes =
     (if taken \<noteq> [] \<and> most < bytes + length l then (taken, bytes, l # ls)
      else take_batch most ls (taken @ [l]) (bytes + length l))"

definition writer_take :: "nat \<Rightarrow> queue \<Rightarrow> line list \<times> nat \<times> queue" where
  "writer_take cap q =
     (case take_batch (batch_max cap) (q_lines q) [] 0 of
        (taken, bytes, rest) \<Rightarrow>
          (taken, q_dropped q,
           q\<lparr>q_sleeping := False, q_writing := True, q_lines := rest, q_queued := q_queued q - bytes,
             q_in_flight := bytes, q_dropped := 0\<rparr>))"

text \<open>The bytes of a batch: the report of dropped lines, if there are any, then the lines.\<close>

definition batch_bytes ::
  "('f \<Rightarrow> bool) \<Rightarrow> ('f \<Rightarrow> str) \<Rightarrow> bool \<Rightarrow> int \<Rightarrow> line list \<Rightarrow> nat \<Rightarrow> nat list" where
  "batch_bytes fin fl json ms lines dropped =
     (if 0 < dropped
      then format_line fin fl json ms 2 (lit ''log lines dropped'') [(lit ''count'', VU64 (of_nat dropped))] None else []) @
     concat lines"

text \<open>The condition \<^verbatim>\<open>flush\<close> waits for.\<close>

definition flushed :: "queue \<Rightarrow> bool" where
  "flushed q \<longleftrightarrow> \<not> (q_lines q \<noteq> [] \<or> 0 < q_dropped q \<or> q_writing q)"

section \<open>The queue in use\<close>

text \<open>
  Where the writer thread is.  Every log call goes through \<^verbatim>\<open>WRITER.call_once\<close> first, which starts it, or fails to
  once and for all.
\<close>

datatype writer_phase = NotStarted | NoThread | Running | Asleep | Notified | Writing "line list" nat

definition start_writer :: "bool \<Rightarrow> writer_phase \<Rightarrow> writer_phase" where
  "start_writer spawned p = (if p = NotStarted then if spawned then Running else NoThread else p)"

definition notify :: "bool \<Rightarrow> writer_phase \<Rightarrow> writer_phase" where
  "notify wake p = (if wake \<and> p = Asleep then Notified else p)"

text \<open>
  A batch given to stderr: its lines, the number of dropped lines it reports, and the bytes that came out,
  all of them or, where the write failed, those before the failure.
\<close>

record batch =
  b_lines :: "line list"
  b_report :: nat
  b_out :: "nat list"

record log_sys =
  lg_queue :: queue
  lg_phase :: writer_phase
  lg_pushed :: "line list"
  lg_batches :: "batch list"

definition log_start :: log_sys where
  "log_start = \<lparr>lg_queue = queue_new, lg_phase = NotStarted, lg_pushed = [], lg_batches = []\<rparr>"

text \<open>The writer's own steps.  From its sleep only a notification gets it on.\<close>

inductive writer_step :: "('f \<Rightarrow> bool) \<Rightarrow> ('f \<Rightarrow> str) \<Rightarrow> bool \<Rightarrow> nat \<Rightarrow> log_sys \<Rightarrow> log_sys \<Rightarrow> bool" for fin fl json cap where
  sleeps: "lg_phase g = Running \<Longrightarrow> q = writer_back (lg_queue g) \<Longrightarrow> nothing_to_write q \<Longrightarrow>
    writer_step fin fl json cap g (g\<lparr>lg_queue := writer_sleep q, lg_phase := Asleep\<rparr>)"
| takes: "lg_phase g = Running \<Longrightarrow> q = writer_back (lg_queue g) \<Longrightarrow> \<not> nothing_to_write q \<Longrightarrow>
    writer_take cap q = (ls, n, q') \<Longrightarrow> writer_step fin fl json cap g (g\<lparr>lg_queue := q', lg_phase := Writing ls n\<rparr>)"
| woken: "lg_phase g = Notified \<Longrightarrow> \<not> nothing_to_write (lg_queue g) \<Longrightarrow>
    writer_take cap (lg_queue g) = (ls, n, q') \<Longrightarrow> writer_step fin fl json cap g (g\<lparr>lg_queue := q', lg_phase := Writing ls n\<rparr>)"
| sleeps_again: "lg_phase g = Notified \<Longrightarrow> nothing_to_write (lg_queue g) \<Longrightarrow>
    writer_step fin fl json cap g (g\<lparr>lg_queue := writer_sleep (lg_queue g), lg_phase := Asleep\<rparr>)"
| writes: "lg_phase g = Writing ls n \<Longrightarrow> prefix out (batch_bytes fin fl json ms ls n) \<Longrightarrow>
    writer_step fin fl json cap g
      (g\<lparr>lg_phase := Running, lg_batches := lg_batches g @ [\<lparr>b_lines = ls, b_report = n, b_out = out\<rparr>]\<rparr>)"

text \<open>The condition variable may also return from its wait by itself.\<close>

inductive log_step :: "('f \<Rightarrow> bool) \<Rightarrow> ('f \<Rightarrow> str) \<Rightarrow> bool \<Rightarrow> nat \<Rightarrow> nat \<Rightarrow> log_sys \<Rightarrow> log_sys \<Rightarrow> bool" for fin fl json cap L where
  pushes: "log_push cap line (lg_queue g) = (wake, q') \<Longrightarrow> length line \<le> L \<Longrightarrow>
    log_step fin fl json cap L g
      (g\<lparr>lg_queue := q', lg_phase := notify wake (start_writer spawned (lg_phase g)), lg_pushed := lg_pushed g @ [line]\<rparr>)"
| writer: "writer_step fin fl json cap g g' \<Longrightarrow> log_step fin fl json cap L g g'"
| spurious: "lg_phase g = Asleep \<Longrightarrow> log_step fin fl json cap L g (g\<lparr>lg_phase := Notified\<rparr>)"

section \<open>The invariant\<close>

fun in_hand :: "writer_phase \<Rightarrow> line list" where
  "in_hand (Writing ls n) = ls"
| "in_hand _ = []"

fun to_report :: "writer_phase \<Rightarrow> nat" where
  "to_report (Writing ls n) = n"
| "to_report _ = 0"

definition bytes_of :: "line list \<Rightarrow> nat" where
  "bytes_of ls = sum_list (map length ls)"

definition handed :: "log_sys \<Rightarrow> line list" where
  "handed g = concat (map b_lines (lg_batches g))"

definition reported :: "log_sys \<Rightarrow> nat" where
  "reported g = sum_list (map b_report (lg_batches g))"

definition kept :: "log_sys \<Rightarrow> line list" where
  "kept g = handed g @ in_hand (lg_phase g) @ q_lines (lg_queue g)"

definition queue_ok :: "nat \<Rightarrow> nat \<Rightarrow> queue \<Rightarrow> bool" where
  "queue_ok cap L q \<longleftrightarrow> q_queued q = bytes_of (q_lines q) \<and>
     (\<forall>l \<in> set (q_lines q). length l \<le> L) \<and>
     q_in_flight q \<le> max (batch_max cap) L \<and>
     (length (q_lines q) \<le> 1 \<or> q_queued q + q_in_flight q \<le> cap)"

definition phase_ok :: "log_sys \<Rightarrow> bool" where
  "phase_ok g \<longleftrightarrow> (case lg_phase g of
     NotStarted \<Rightarrow> \<not> q_sleeping (lg_queue g) \<and> nothing_to_write (lg_queue g) \<and> \<not> q_writing (lg_queue g)
   | Asleep \<Rightarrow> q_sleeping (lg_queue g) \<and> nothing_to_write (lg_queue g) \<and> \<not> q_writing (lg_queue g) \<and> q_in_flight (lg_queue g) = 0
   | Notified \<Rightarrow> \<not> q_writing (lg_queue g) \<and> q_in_flight (lg_queue g) = 0
   | Writing ls n \<Rightarrow> q_writing (lg_queue g) \<and> \<not> q_sleeping (lg_queue g)
   | _ \<Rightarrow> \<not> q_sleeping (lg_queue g))"

definition log_inv :: "nat \<Rightarrow> nat \<Rightarrow> log_sys \<Rightarrow> bool" where
  "log_inv cap L g \<longleftrightarrow> queue_ok cap L (lg_queue g) \<and> phase_ok g \<and>
     subseq (kept g) (lg_pushed g) \<and>
     length (lg_pushed g) = length (kept g) + reported g + to_report (lg_phase g) + q_dropped (lg_queue g)"

lemma handed_simps [simp]:
  "handed (g\<lparr>lg_queue := q\<rparr>) = handed g" "handed (g\<lparr>lg_phase := p\<rparr>) = handed g" "handed (g\<lparr>lg_pushed := l\<rparr>) = handed g"
  by (simp_all add: handed_def)

lemma reported_simps [simp]:
  "reported (g\<lparr>lg_queue := q\<rparr>) = reported g" "reported (g\<lparr>lg_phase := p\<rparr>) = reported g" "reported (g\<lparr>lg_pushed := l\<rparr>) = reported g"
  by (simp_all add: reported_def)

lemma bytes_of_simps [simp]: "bytes_of [] = 0" "bytes_of (l # ls) = length l + bytes_of ls" "bytes_of (ls @ ms) = bytes_of ls + bytes_of ms"
  by (simp_all add: bytes_of_def)

lemma shed_spec:
  assumes "shed cap infl ls queued dropped = (ls', queued', dropped')" "queued = bytes_of ls"
  shows "queued' = bytes_of ls' \<and> (\<exists>gone. ls = gone @ ls' \<and> dropped' = dropped + length gone) \<and>
    (length ls' \<le> 1 \<or> queued' + infl \<le> cap) \<and> (ls \<noteq> [] \<longrightarrow> ls' \<noteq> [])"
  using assms
proof (induction cap infl ls queued dropped rule: shed.induct)
  case (1 cap infl x y ls queued dropped)
  show ?case
  proof (cases "cap < queued + infl")
    case True
    then have s: "shed cap infl (y # ls) (queued - length x) (dropped + 1) = (ls', queued', dropped')" using 1(2) by simp
    have "queued - length x = bytes_of (y # ls)" using 1(3) by simp
    from 1(1) [OF True s this] show ?thesis by (auto intro: exI [of _ "x # gone" for gone])
  next
    case False
    then show ?thesis using 1(2,3) by auto
  qed
qed auto

lemma take_batch_spec:
  assumes "take_batch most ls taken bytes = (taken', bytes', rest)" "bytes = bytes_of taken"
  shows "bytes' = bytes_of taken' \<and> taken @ ls = taken' @ rest \<and> (taken \<noteq> [] \<or> ls \<noteq> [] \<longrightarrow> taken' \<noteq> []) \<and>
    ((\<forall>l \<in> set ls. length l \<le> L) \<longrightarrow> bytes \<le> max most L \<longrightarrow> bytes' \<le> max most L)"
  using assms
proof (induction most ls taken bytes rule: take_batch.induct)
  case (2 most l ls taken bytes)
  show ?case
  proof (cases "taken \<noteq> [] \<and> most < bytes + length l")
    case True
    then show ?thesis using 2(2,3) by auto
  next
    case False
    then have t: "take_batch most ls (taken @ [l]) (bytes + length l) = (taken', bytes', rest)" using 2(2) by auto
    have "bytes + length l = bytes_of (taken @ [l])" using 2(3) by simp
    note ih = 2(1) [OF False t this]
    have "bytes + length l \<le> max most L" if "\<forall>x \<in> set (l # ls). length x \<le> L" "bytes \<le> max most L"
      using that False 2(3) by (cases "taken = []") auto
    with ih show ?thesis by auto
  qed
qed auto

lemma writer_take_spec:
  assumes "writer_take cap q = (ls, n, q')" "queue_ok cap L q" "q_in_flight q = 0"
  shows "queue_ok cap L q' \<and> q_lines q = ls @ q_lines q' \<and> n = q_dropped q \<and> q_dropped q' = 0 \<and>
    q_writing q' \<and> \<not> q_sleeping q' \<and> (q_lines q \<noteq> [] \<longrightarrow> ls \<noteq> [])"
proof -
  obtain taken bytes rest where t: "take_batch (batch_max cap) (q_lines q) [] 0 = (taken, bytes, rest)"
    by (cases "take_batch (batch_max cap) (q_lines q) [] 0")
  note s = take_batch_spec [OF t, of L]
  have q': "ls = taken" "n = q_dropped q" "q' = q\<lparr>q_sleeping := False, q_writing := True, q_lines := rest,
      q_queued := q_queued q - bytes, q_in_flight := bytes, q_dropped := 0\<rparr>"
    using assms(1) by (auto simp: writer_take_def t)
  have l: "q_lines q = taken @ rest" "bytes = bytes_of taken" using s by simp_all
  have "queue_ok cap L q'"
    using assms(2,3) s l unfolding queue_ok_def q' by auto
  then show ?thesis using s l unfolding q' by auto
qed

lemma log_push_spec:
  assumes "log_push cap line q = (wake, q')" "queue_ok cap L q" "length line \<le> L"
  shows "queue_ok cap L q' \<and> wake = q_sleeping q \<and> \<not> q_sleeping q' \<and> q_writing q' = q_writing q \<and> q_lines q' \<noteq> [] \<and> q_in_flight q' = q_in_flight q \<and>
    (\<exists>gone. q_lines q @ [line] = gone @ q_lines q' \<and> q_dropped q' = q_dropped q + length gone)"
proof -
  obtain ls queued dropped where s: "shed cap (q_in_flight q) (q_lines q @ [line]) (q_queued q + length line) (q_dropped q) = (ls, queued, dropped)"
    by (cases "shed cap (q_in_flight q) (q_lines q @ [line]) (q_queued q + length line) (q_dropped q)")
  have q': "q' = q\<lparr>q_lines := ls, q_queued := queued, q_dropped := dropped, q_sleeping := False\<rparr>" "wake = q_sleeping q"
    using assms(1) by (auto simp: log_push_def s)
  have "q_queued q + length line = bytes_of (q_lines q @ [line])" using assms(2) by (simp add: queue_ok_def)
  note sp = shed_spec [OF s this]
  then obtain gone where g: "q_lines q @ [line] = gone @ ls" "dropped = q_dropped q + length gone" by blast
  have "\<forall>l \<in> set ls. length l \<le> L"
  proof
    fix l
    assume "l \<in> set ls"
    then have "l \<in> set (q_lines q @ [line])" unfolding g(1) by simp
    then show "length l \<le> L" using assms(2,3) by (auto simp: queue_ok_def)
  qed
  then have "queue_ok cap L q'" using sp assms(2) by (auto simp: queue_ok_def q')
  then show ?thesis using sp g by (auto simp: q')
qed


lemma subseq_drop_middle: "subseq (a @ b @ c) d \<Longrightarrow> subseq (a @ c) d"
  by (meson list_emb_append2 subseq_append_le_same_iff subseq_order.order_trans list_emb_append_mono subseq_order.order_refl)

lemma log_push_inv:
  assumes inv: "log_inv cap L g" and p: "log_push cap line (lg_queue g) = (wake, q')" "length line \<le> L"
  shows "log_inv cap L (g\<lparr>lg_queue := q', lg_phase := notify wake (start_writer spawned (lg_phase g)), lg_pushed := lg_pushed g @ [line]\<rparr>)"
    (is "log_inv cap L ?g")
proof -
  have ok: "queue_ok cap L (lg_queue g)" using inv by (simp add: log_inv_def)
  note s = log_push_spec [OF p(1) ok p(2)]
  obtain gone where gone: "q_lines (lg_queue g) @ [line] = gone @ q_lines q'" "q_dropped q' = q_dropped (lg_queue g) + length gone"
    using s by blast
  have ph: "phase_ok ?g" using inv s by (auto simp: log_inv_def phase_ok_def notify_def start_writer_def split: writer_phase.splits)
  have hand: "in_hand (notify w (start_writer v p)) = in_hand p" "to_report (notify w (start_writer v p)) = to_report p" for w v p
    by (auto simp: notify_def start_writer_def)
  have sub: "subseq (kept g @ [line]) (lg_pushed g @ [line])" using inv by (simp add: log_inv_def)
  have k: "kept g @ [line] = (handed g @ in_hand (lg_phase g)) @ gone @ q_lines q'"
    by (simp add: kept_def flip: gone(1))
  have "subseq ((handed g @ in_hand (lg_phase g)) @ q_lines q') (lg_pushed g @ [line])"
    using sub unfolding k by (rule subseq_drop_middle)
  then have "subseq (kept ?g) (lg_pushed ?g)" by (simp add: kept_def hand)
  moreover have "length (kept g) + 1 = length (kept ?g) + length gone"
    using arg_cong [OF k, of length] by (simp add: kept_def hand)
  ultimately show ?thesis using inv s ph gone(2) by (simp add: log_inv_def hand)
qed

lemma log_take_inv:
  assumes inv: "log_inv cap L g" and t: "writer_take cap q = (ls, n, q')" and q: "q = (lg_queue g)\<lparr>q_in_flight := 0\<rparr>"
    and ph: "in_hand (lg_phase g) = []" "to_report (lg_phase g) = 0"
  shows "log_inv cap L (g\<lparr>lg_queue := q', lg_phase := Writing ls n\<rparr>)"
proof -
  have "queue_ok cap L q" using inv by (auto simp: log_inv_def queue_ok_def q)
  note s = writer_take_spec [OF t this]
  then show ?thesis using inv ph by (simp add: log_inv_def phase_ok_def kept_def q)
qed

lemma queue_ok_frame [simp]:
  "queue_ok cap L (q\<lparr>q_sleeping := b\<rparr>) = queue_ok cap L q" "queue_ok cap L (q\<lparr>q_writing := b\<rparr>) = queue_ok cap L q"
  by (simp_all add: queue_ok_def)

lemma queue_ok_back: "queue_ok cap L q \<Longrightarrow> queue_ok cap L (writer_back q)"
  by (auto simp: queue_ok_def writer_back_def)

lemma writer_step_inv: "writer_step fin fl json cap g g' \<Longrightarrow> log_inv cap L g \<Longrightarrow> log_inv cap L g'"
proof (induction rule: writer_step.induct)
  case (sleeps g q)
  then show ?case
    using queue_ok_back [of cap L "lg_queue g"]
    by (simp add: log_inv_def phase_ok_def writer_sleep_def kept_def nothing_to_write_def)
      (simp add: writer_back_def)
next
  case (takes g q ls n q')
  then show ?case using log_take_inv [OF takes(5,4)] by (simp add: writer_back_def)
next
  case (woken g ls n q')
  then have "lg_queue g = (lg_queue g)\<lparr>q_in_flight := 0\<rparr>" by (auto simp: log_inv_def phase_ok_def)
  then show ?case using log_take_inv [OF woken(4,3)] woken(1) by auto
next
  case (sleeps_again g)
  then show ?case by (auto simp: log_inv_def phase_ok_def writer_sleep_def kept_def nothing_to_write_def)
qed (auto simp: log_inv_def phase_ok_def kept_def handed_def reported_def)

lemma log_step_inv: "log_step fin fl json cap L g g' \<Longrightarrow> log_inv cap L g \<Longrightarrow> log_inv cap L g'"
proof (induction rule: log_step.induct)
  case (spurious g)
  then show ?case by (auto simp: log_inv_def phase_ok_def kept_def)
qed (auto intro: log_push_inv writer_step_inv)

lemma log_start_inv: "log_inv cap L log_start"
  by (simp add: log_inv_def log_start_def phase_ok_def kept_def handed_def reported_def queue_ok_def queue_new_def nothing_to_write_def)

lemma log_reachable: "(log_step fin fl json cap L)\<^sup>*\<^sup>* log_start g \<Longrightarrow> log_inv cap L g"
  by (induction rule: rtranclp_induct) (auto intro: log_start_inv log_step_inv)

text \<open>What came out of every batch is its text or a beginning of it.\<close>

definition batch_ok :: "('f \<Rightarrow> bool) \<Rightarrow> ('f \<Rightarrow> str) \<Rightarrow> bool \<Rightarrow> batch \<Rightarrow> bool" where
  "batch_ok fin fl json b \<longleftrightarrow> (\<exists>ms. prefix (b_out b) (batch_bytes fin fl json ms (b_lines b) (b_report b)))"

lemma batches_ok: "(log_step fin fl json cap L)\<^sup>*\<^sup>* log_start g \<Longrightarrow> \<forall>b \<in> set (lg_batches g). batch_ok fin fl json b"
proof (induction rule: rtranclp_induct)
  case base
  then show ?case by (simp add: log_start_def)
next
  case (step g g')
  from step(2) have "lg_batches g' = lg_batches g \<or> (\<exists>b. lg_batches g' = lg_batches g @ [b] \<and> batch_ok fin fl json b)"
    by (cases rule: log_step.cases) (auto elim!: writer_step.cases simp: batch_ok_def)
  then show ?case using step(3) by auto
qed

section \<open>What the queue guarantees\<close>

text \<open>
  C24. Every line is accounted for: after any run, the lines in the batches given to stderr, in the batch being
  written and still queued are a subsequence of the lines logged, in order, none twice, and all the
  others are counted as dropped.  What came out of a batch is the report of the dropped lines and then its
  lines, whole, or, where the write failed, cut off: the rest of that batch is lost and counted nowhere.
  When a flush finds nothing left, every line logged was in a batch or in the count of a report.
\<close>

theorem log_lines_accounted:
  assumes "(log_step fin fl json cap L)\<^sup>*\<^sup>* log_start g"
  shows "subseq (handed g @ in_hand (lg_phase g) @ q_lines (lg_queue g)) (lg_pushed g) \<and>
    length (lg_pushed g) = length (handed g @ in_hand (lg_phase g) @ q_lines (lg_queue g)) +
      reported g + to_report (lg_phase g) + q_dropped (lg_queue g) \<and>
    (\<forall>b \<in> set (lg_batches g). \<exists>ms. prefix (b_out b) (batch_bytes fin fl json ms (b_lines b) (b_report b))) \<and>
    (flushed (lg_queue g) \<longrightarrow> length (lg_pushed g) = length (handed g) + reported g)"
proof -
  have i: "log_inv cap L g" using log_reachable [OF assms] .
  have "in_hand (lg_phase g) = [] \<and> to_report (lg_phase g) = 0" if "flushed (lg_queue g)"
    using that i by (auto simp: log_inv_def phase_ok_def flushed_def split: writer_phase.splits)
  then show ?thesis using i batches_ok [OF assms] by (auto simp: log_inv_def kept_def flushed_def batch_ok_def)
qed

text \<open>
  C26. Logging is bounded in memory: with no line longer than \<open>L\<close>, the bytes queued and being written stay
  within the cap or, if that is more, within one queued line and one batch, which is a sixteenth of the cap,
  4 KiB or one line, whichever is the most.
\<close>

theorem log_memory_bounded:
  assumes "(log_step fin fl json cap L)\<^sup>*\<^sup>* log_start g"
  shows "bytes_of (q_lines (lg_queue g)) + q_in_flight (lg_queue g) \<le> max cap (L + max (max (cap div 16) 4096) L)"
proof -
  have i: "queue_ok cap L (lg_queue g)" using log_reachable [OF assms(1)] by (simp add: log_inv_def)
  then have f: "q_in_flight (lg_queue g) \<le> max (max (cap div 16) 4096) L" by (simp add: queue_ok_def batch_max_def)
  show ?thesis
  proof (cases "length (q_lines (lg_queue g)) \<le> 1")
    case True
    then have "bytes_of (q_lines (lg_queue g)) \<le> L"
      using i by (cases "q_lines (lg_queue g)") (auto simp: queue_ok_def)
    then have "bytes_of (q_lines (lg_queue g)) + q_in_flight (lg_queue g) \<le> L + max (max (cap div 16) 4096) L"
      using f by (rule add_mono)
    then show ?thesis by (rule max.coboundedI2)
  next
    case False
    then have "bytes_of (q_lines (lg_queue g)) + q_in_flight (lg_queue g) \<le> cap" using i by (simp add: queue_ok_def)
    then show ?thesis by (rule max.coboundedI1)
  qed
qed

text \<open>
  The writer is never left asleep over a line: while it sleeps un-notified, nothing is queued
  and no drop waits to be reported.
\<close>

lemma writer_not_left_asleep:
  assumes "(log_step fin fl json cap L)\<^sup>*\<^sup>* log_start g" "lg_phase g = Asleep"
  shows "q_lines (lg_queue g) = [] \<and> q_dropped (lg_queue g) = 0 \<and> flushed (lg_queue g)"
  using log_reachable [OF assms(1)] assms(2) by (simp add: log_inv_def phase_ok_def nothing_to_write_def flushed_def)

section \<open>The queue drains\<close>

lemma takes_fewer:
  assumes "writer_take cap q = (ls, n, q')" "\<not> nothing_to_write q"
  shows "length (q_lines q') + q_dropped q' < length (q_lines q) + q_dropped q"
proof -
  obtain taken bytes rest where t: "take_batch (batch_max cap) (q_lines q) [] 0 = (taken, bytes, rest)"
    by (cases "take_batch (batch_max cap) (q_lines q) [] 0")
  have "0 = bytes_of []" by simp
  note take_batch_spec [OF t this, unfolded append_Nil, of 0]
  then have s: "q_lines q = taken @ rest" "q_lines q \<noteq> [] \<longrightarrow> taken \<noteq> []" by blast+
  have "q_lines q' = rest" "q_dropped q' = 0" using assms(1) by (auto simp: writer_take_def t)
  moreover have "length (q_lines q) = length taken + length rest" using s(1) by simp
  moreover have "0 < length taken \<or> 0 < q_dropped q" using s assms(2) by (auto simp: nothing_to_write_def)
  ultimately show ?thesis by auto
qed

fun phase_rank :: "writer_phase \<Rightarrow> nat" where
  "phase_rank (Writing ls n) = 2"
| "phase_rank Running = 1"
| "phase_rank Notified = 1"
| "phase_rank _ = 0"

definition work_left :: "log_sys \<Rightarrow> nat" where
  "work_left g = 3 * (length (q_lines (lg_queue g)) + q_dropped (lg_queue g)) + phase_rank (lg_phase g)"

lemma writer_step_works:
  "writer_step fin fl json cap g g' \<Longrightarrow> work_left g' < work_left g \<and> lg_pushed g' = lg_pushed g \<and> lg_phase g' \<noteq> NoThread"
proof (induction rule: writer_step.induct)
  case (takes g q ls n q')
  then show ?case using takes_fewer [OF takes(4,3)] by (simp add: work_left_def writer_back_def)
next
  case (woken g ls n q')
  then show ?case using takes_fewer [OF woken(3,2)] by (simp add: work_left_def)
qed (simp_all add: work_left_def writer_sleep_def writer_back_def)

lemma writer_moves:
  assumes "log_inv cap L g" "lg_phase g \<noteq> NoThread" "lg_phase g \<noteq> NotStarted" "lg_phase g \<noteq> Asleep"
  shows "\<exists>g'. writer_step fin fl json cap g g'"
proof (cases "lg_phase g")
  case Running
  obtain ls n q' where "writer_take cap (writer_back (lg_queue g)) = (ls, n, q')" by (cases "writer_take cap (writer_back (lg_queue g))")
  then show ?thesis using writer_step.sleeps [OF Running refl] writer_step.takes [OF Running refl] by blast
next
  case Notified
  obtain ls n q' where "writer_take cap (lg_queue g) = (ls, n, q')" by (cases "writer_take cap (lg_queue g)")
  then show ?thesis using writer_step.woken [OF Notified] writer_step.sleeps_again [OF Notified] by blast
next
  case (Writing ls n)
  then show ?thesis using writer_step.writes [OF Writing Nil_prefix] by blast
qed (use assms in simp_all)

text \<open>
  C25. Logging ends: from any point of any run in which the writer thread could be started, every run of the
  writer's own steps, whichever of its writes fail, comes to a queue that a flush finds empty, with
  every line logged so far given to stderr in a batch or counted in a report.
\<close>

theorem log_drains:
  assumes "(log_step fin fl json cap L)\<^sup>*\<^sup>* log_start g" "lg_phase g \<noteq> NoThread"
  shows "inevitable (writer_step fin fl json cap)
    (\<lambda>g'. flushed (lg_queue g') \<and> lg_pushed g' = lg_pushed g \<and> length (lg_pushed g) = length (handed g') + reported g') g"
proof (rule inevitable_measure [where I = "\<lambda>g'. log_inv cap L g' \<and> lg_phase g' \<noteq> NoThread \<and> lg_pushed g' = lg_pushed g" and m = work_left])
  show "log_inv cap L g \<and> lg_phase g \<noteq> NoThread \<and> lg_pushed g = lg_pushed g" using log_reachable [OF assms(1)] assms(2) by simp
next
  fix x y
  assume "log_inv cap L x \<and> lg_phase x \<noteq> NoThread \<and> lg_pushed x = lg_pushed g" "writer_step fin fl json cap x y"
  then show "(log_inv cap L y \<and> lg_phase y \<noteq> NoThread \<and> lg_pushed y = lg_pushed g) \<and> work_left y < work_left x"
    using writer_step_works writer_step_inv by metis
next
  fix x
  assume x: "log_inv cap L x \<and> lg_phase x \<noteq> NoThread \<and> lg_pushed x = lg_pushed g"
    and n: "\<not> (flushed (lg_queue x) \<and> lg_pushed x = lg_pushed g \<and> length (lg_pushed g) = length (handed x) + reported x)"
  have "lg_phase x \<noteq> NotStarted \<and> lg_phase x \<noteq> Asleep"
  proof (rule ccontr)
    assume "\<not> (lg_phase x \<noteq> NotStarted \<and> lg_phase x \<noteq> Asleep)"
    then have "flushed (lg_queue x) \<and> length (lg_pushed x) = length (handed x) + reported x"
      using x by (auto simp: log_inv_def phase_ok_def nothing_to_write_def flushed_def kept_def)
    then show False using n x by simp
  qed
  then show "\<exists>y. writer_step fin fl json cap x y" using writer_moves x by blast
qed

text \<open>
  Three lines of 3 bytes with room for 8: the first is dropped before the writer takes the others, whose
  write fails at once.
\<close>

definition demo_queue_of :: "line list \<Rightarrow> nat \<Rightarrow> queue" where
  "demo_queue_of ls n = queue_new\<lparr>q_lines := ls, q_queued := sum_list (map length ls), q_dropped := n\<rparr>"

definition demo_log :: log_sys where
  "demo_log = \<lparr>lg_queue = demo_queue_of [[4, 5, 6], [7, 8, 9]] 1, lg_phase = Running,
     lg_pushed = [[1, 2, 3], [4, 5, 6], [7, 8, 9]], lg_batches = []\<rparr>"

definition demo_lost :: log_sys where
  "demo_lost = \<lparr>lg_queue = queue_new\<lparr>q_in_flight := 6, q_writing := True\<rparr>, lg_phase = Running,
     lg_pushed = [[1, 2, 3], [4, 5, 6], [7, 8, 9]],
     lg_batches = [\<lparr>b_lines = [[4, 5, 6], [7, 8, 9]], b_report = 1, b_out = []\<rparr>]\<rparr>"

lemma demo_log_run: "(log_step (\<lambda>_ :: nat. True) fl True 8 3)\<^sup>*\<^sup>* log_start demo_log"
proof -
  let ?R = "log_step (\<lambda>_ :: nat. True) fl True 8 3"
  let ?g1 = "\<lparr>lg_queue = demo_queue_of [[1, 2, 3]] 0, lg_phase = Running, lg_pushed = [[1, 2, 3]], lg_batches = []\<rparr>"
  let ?g2 = "\<lparr>lg_queue = demo_queue_of [[1, 2, 3], [4, 5, 6]] 0, lg_phase = Running, lg_pushed = [[1, 2, 3], [4, 5, 6]], lg_batches = []\<rparr>"
  note defs = log_start_def queue_new_def log_push_def notify_def start_writer_def demo_queue_of_def demo_log_def
  have 1: "?R log_start ?g1"
    using log_step.pushes [of 8 "[1, 2, 3]" log_start False "lg_queue ?g1" 3 "\<lambda>_. True" fl True True] by (simp add: defs)
  have 2: "?R ?g1 ?g2"
    using log_step.pushes [of 8 "[4, 5, 6]" ?g1 False "lg_queue ?g2" 3 "\<lambda>_. True" fl True True] by (simp add: defs)
  have 3: "?R ?g2 demo_log"
    using log_step.pushes [of 8 "[7, 8, 9]" ?g2 False "lg_queue demo_log" 3 "\<lambda>_. True" fl True True] by (simp add: defs)
  from 1 2 3 show ?thesis by (meson rtranclp.rtrancl_refl rtranclp.rtrancl_into_rtrancl)
qed

lemma demo_lost_run: "(log_step (\<lambda>_ :: nat. True) fl True 8 3)\<^sup>*\<^sup>* log_start demo_lost"
proof -
  let ?g = "demo_log\<lparr>lg_queue := queue_new\<lparr>q_in_flight := 6, q_writing := True\<rparr>, lg_phase := Writing [[4, 5, 6], [7, 8, 9]] 1\<rparr>"
  have "writer_step (\<lambda>_ :: nat. True) fl True 8 demo_log ?g"
    by (rule writer_step.takes [OF _ refl]) (simp_all add: demo_log_def demo_queue_of_def queue_new_def writer_back_def nothing_to_write_def
        writer_take_def batch_max_def)
  moreover have "writer_step (\<lambda>_ :: nat. True) fl True 8 ?g demo_lost"
    using writer_step.writes [of ?g "[[4, 5, 6], [7, 8, 9]]" 1 "[]" "\<lambda>_ :: nat. True" fl True 0 8]
    by (simp add: demo_log_def demo_lost_def)
  ultimately show ?thesis using demo_log_run by (meson log_step.writer rtranclp.rtrancl_into_rtrancl)
qed

theorem log_lines_accounted_witness:
  "length (lg_pushed demo_lost) = length (handed demo_lost) + reported demo_lost + q_dropped (lg_queue demo_lost) \<and>
   handed demo_lost = [[4, 5, 6], [7, 8, 9]]"
  using log_lines_accounted [OF demo_lost_run [of "\<lambda>_. []"]] by (simp add: demo_lost_def handed_def queue_new_def)

theorem log_drains_witness:
  "inevitable (writer_step (\<lambda>_ :: nat. True) (\<lambda>_. []) True 8)
     (\<lambda>g'. flushed (lg_queue g') \<and> lg_pushed g' = lg_pushed demo_log \<and> length (lg_pushed demo_log) = length (handed g') + reported g') demo_log"
  by (rule log_drains [OF demo_log_run]) (simp add: demo_log_def)

text \<open>
  The cap is not kept to within one line when lines are longer than it: with the smallest cap, one line of
  5000 bytes being written and one queued are more than the cap and a line.
\<close>

definition big_line :: "nat \<Rightarrow> line" where
  "big_line c = replicate 5000 c"

lemma big_line_length [simp]: "length (big_line c) = 5000"
  unfolding big_line_def by (rule length_replicate)

definition demo_big :: log_sys where
  "demo_big = \<lparr>lg_queue = queue_new\<lparr>q_lines := [big_line 66], q_queued := 5000, q_in_flight := 5000, q_writing := True\<rparr>,
     lg_phase = Writing [big_line 65] 0, lg_pushed = [big_line 65, big_line 66], lg_batches = []\<rparr>"

lemma demo_big_run: "(log_step (\<lambda>_ :: nat. True) fl True 4096 5000)\<^sup>*\<^sup>* log_start demo_big"
proof -
  let ?R = "log_step (\<lambda>_ :: nat. True) fl True 4096 5000"
  let ?g1 = "\<lparr>lg_queue = queue_new\<lparr>q_lines := [big_line 65], q_queued := 5000\<rparr>, lg_phase = Running, lg_pushed = [big_line 65], lg_batches = []\<rparr>"
  let ?g2 = "\<lparr>lg_queue = queue_new\<lparr>q_in_flight := 5000, q_writing := True\<rparr>, lg_phase = Writing [big_line 65] 0, lg_pushed = [big_line 65], lg_batches = []\<rparr>"
  let ?g3 = "\<lparr>lg_queue = queue_new\<lparr>q_lines := [big_line 66], q_queued := 5000, q_in_flight := 5000, q_writing := True\<rparr>,
     lg_phase = Writing [big_line 65] 0, lg_pushed = [big_line 65, big_line 66], lg_batches = []\<rparr>"
  note defs = log_start_def queue_new_def log_push_def notify_def start_writer_def
  have 1: "?R log_start ?g1"
    using log_step.pushes [of 4096 "big_line 65" log_start False "lg_queue ?g1" 5000 "\<lambda>_. True" fl True True] by (simp add: defs)
  have "writer_step (\<lambda>_ :: nat. True) fl True 4096 ?g1 (?g1\<lparr>lg_queue := lg_queue ?g2, lg_phase := Writing [big_line 65] 0\<rparr>)"
    by (rule writer_step.takes [OF _ refl]) (simp_all add: queue_new_def writer_back_def nothing_to_write_def writer_take_def batch_max_def)
  then have 2: "?R ?g1 ?g2" by (intro log_step.writer) simp
  have 3: "?R ?g2 ?g3"
    using log_step.pushes [of 4096 "big_line 66" ?g2 False "lg_queue ?g3" 5000 "\<lambda>_. True" fl True True] by (simp add: defs)
  have g: "demo_big = ?g3" by (simp add: demo_big_def)
  show ?thesis unfolding g
    by (rule rtranclp.rtrancl_into_rtrancl [where r = ?R, OF rtranclp.rtrancl_into_rtrancl [where r = ?R, OF rtranclp.rtrancl_into_rtrancl
          [where r = ?R, OF rtranclp.rtrancl_refl 1] 2] 3])
qed

lemma cap_not_kept:
  "4096 + 5000 < bytes_of (q_lines (lg_queue demo_big)) + q_in_flight (lg_queue demo_big)"
  by (simp add: demo_big_def queue_new_def)

theorem log_memory_bounded_witness:
  "4096 < bytes_of (q_lines (lg_queue demo_big)) + q_in_flight (lg_queue demo_big) \<and>
   bytes_of (q_lines (lg_queue demo_big)) + q_in_flight (lg_queue demo_big) \<le> 10000"
  using log_memory_bounded [OF demo_big_run [of "\<lambda>_. []"]] cap_not_kept by simp

lemma writer_not_left_asleep_example:
  "\<exists>g. (log_step (\<lambda>_ :: nat. True) (\<lambda>_. []) True 8 3)\<^sup>*\<^sup>* log_start g \<and> lg_phase g = Asleep \<and> flushed (lg_queue g)"
proof -
  let ?R = "log_step (\<lambda>_ :: nat. True) (\<lambda>_. []) True 8 3"
  let ?g = "demo_lost\<lparr>lg_queue := writer_sleep (writer_back (lg_queue demo_lost)), lg_phase := Asleep\<rparr>"
  have "?R demo_lost ?g"
    by (rule log_step.writer, rule writer_step.sleeps [OF _ refl])
      (simp_all add: demo_lost_def nothing_to_write_def writer_back_def queue_new_def)
  with demo_lost_run have r: "?R\<^sup>*\<^sup>* log_start ?g" by (rule rtranclp.rtrancl_into_rtrancl)
  have "lg_phase ?g = Asleep" by simp
  with writer_not_left_asleep [OF r this] r show ?thesis by blast
qed

end
