(* ===== verification/Memory.thy ===== *)
theory Memory
  imports Prelude
begin

text \<open>
  The host's allocator for Roc's memory (\<^verbatim>\<open>src/alloc.rs\<close>), over a model of memory in bytes.

  A memory has the bytes, the blocks that the system's allocator has handed out and not got back,
  each with the size and alignment it was asked for, and the read-only data of the program.  An
  operation either returns a value and the memory after it, or ends in a fault: the process exits,
  a panic, or behaviour Rust leaves undefined (an access outside every live block, a write to
  read-only data, a misaligned access, a block given back with the wrong layout).  A theorem that an
  operation returns therefore says that it does none of these.  The system's allocator is a
  parameter; a fresh block keeps whatever bytes were there.

  The second half shows that the allocator implements a plain store: a map from the pointers it
  handed out to their contents.
\<close>

section \<open>Bytes in memory\<close>

record memory =
  m_byte :: "nat \<Rightarrow> u8"
  m_blocks :: "(nat \<times> nat \<times> nat) list"
  m_static :: "(nat \<times> nat) list"

datatype fault = Exits | Panics str | Undefined

type_synonym 'a op = "memory \<Rightarrow> fault + 'a \<times> memory"

definition ret :: "'a \<Rightarrow> 'a op" where
  "ret x m = Inr (x, m)"

definition fail :: "fault \<Rightarrow> 'a op" where
  "fail e m = Inl e"

definition mbind :: "'a op \<Rightarrow> ('a \<Rightarrow> 'b op) \<Rightarrow> 'b op" where
  "mbind x f m = (case x m of Inl e \<Rightarrow> Inl e | Inr (v, m1) \<Rightarrow> f v m1)"

definition within :: "nat \<Rightarrow> nat \<Rightarrow> nat \<Rightarrow> nat \<Rightarrow> bool" where
  "within a n b s \<longleftrightarrow> b \<le> a \<and> a + n \<le> b + s"

definition can_write :: "memory \<Rightarrow> nat \<Rightarrow> nat \<Rightarrow> bool" where
  "can_write m a n = list_ex (\<lambda>(b, s, _). within a n b s) (m_blocks m)"

definition can_read :: "memory \<Rightarrow> nat \<Rightarrow> nat \<Rightarrow> bool" where
  "can_read m a n = (can_write m a n \<or> list_ex (\<lambda>(b, s). within a n b s) (m_static m))"

definition read_bytes :: "nat \<Rightarrow> nat \<Rightarrow> memory \<Rightarrow> bytes" where
  "read_bytes a n m = map (\<lambda>i. m_byte m (a + i)) [0..<n]"

definition write_bytes :: "nat \<Rightarrow> bytes \<Rightarrow> memory \<Rightarrow> memory" where
  "write_bytes a bs m =
     m\<lparr>m_byte := (\<lambda>x. if a \<le> x \<and> x < a + length bs then bs ! (x - a) else m_byte m x)\<rparr>"

text \<open>A slice read through a raw pointer, and bytes copied to one.\<close>

definition load_bytes :: "nat \<Rightarrow> nat \<Rightarrow> bytes op" where
  "load_bytes a n m =
     (if a \<noteq> 0 \<and> (n = 0 \<or> can_read m a n) then Inr (read_bytes a n m, m) else Inl Undefined)"

definition store_bytes :: "nat \<Rightarrow> bytes \<Rightarrow> unit op" where
  "store_bytes a bs m =
     (if a \<noteq> 0 \<and> (bs = [] \<or> can_write m a (length bs)) then Inr ((), write_bytes a bs m) else Inl Undefined)"

text \<open>A word of memory, in the machine's byte order (little endian).\<close>

definition u64_from_le :: "bytes \<Rightarrow> u64" where
  "u64_from_le bs = foldr (\<lambda>b w. push_bit 8 w OR ucast b) bs 0"

definition load_u64 :: "nat \<Rightarrow> u64 op" where
  "load_u64 a m =
     (if 8 dvd a \<and> can_read m a 8 then Inr (u64_from_le (read_bytes a 8 m), m) else Inl Undefined)"

definition store_u64 :: "nat \<Rightarrow> u64 \<Rightarrow> unit op" where
  "store_u64 a w m =
     (if 8 dvd a \<and> can_write m a 8 then Inr ((), write_bytes a (u64_le w) m) else Inl Undefined)"

section \<open>The system's allocator\<close>

text \<open>
  Where the system puts a block of a size and alignment, and where it moves one; 0 is a failure.
\<close>

record sys_allocator =
  sa_alloc :: "memory \<Rightarrow> nat \<Rightarrow> nat \<Rightarrow> nat"
  sa_realloc :: "memory \<Rightarrow> nat \<times> nat \<times> nat \<Rightarrow> nat \<Rightarrow> nat"

abbreviation isize_max :: nat where "isize_max \<equiv> 9223372036854775807"

definition is_power_of_two :: "nat \<Rightarrow> bool" where
  "is_power_of_two a = list_ex (\<lambda>k. a = 2 ^ k) [0..<64]"

text \<open>\<^verbatim>\<open>Layout::from_size_align\<close>: whether there is such a layout.\<close>

definition layout_ok :: "nat \<Rightarrow> nat \<Rightarrow> bool" where
  "layout_ok n a \<longleftrightarrow> is_power_of_two a \<and> n + (a - 1) \<le> isize_max"

text \<open>\<^verbatim>\<open>std::alloc::alloc\<close>, \<^verbatim>\<open>dealloc\<close> and \<^verbatim>\<open>realloc\<close>.\<close>

definition sys_alloc :: "sys_allocator \<Rightarrow> nat \<Rightarrow> nat \<Rightarrow> nat op" where
  "sys_alloc sa n a m =
     (let b = sa_alloc sa m n a
      in Inr (b, if b = 0 then m else m\<lparr>m_blocks := (b, n, a) # m_blocks m\<rparr>))"

definition without :: "nat \<times> nat \<times> nat \<Rightarrow> memory \<Rightarrow> memory" where
  "without blk m = m\<lparr>m_blocks := filter (\<lambda>x. x \<noteq> blk) (m_blocks m)\<rparr>"

definition sys_dealloc :: "nat \<Rightarrow> nat \<Rightarrow> nat \<Rightarrow> unit op" where
  "sys_dealloc b n a m =
     (if (b, n, a) \<in> set (m_blocks m) then Inr ((), without (b, n, a) m) else Inl Undefined)"

definition sys_realloc :: "sys_allocator \<Rightarrow> nat \<Rightarrow> nat \<Rightarrow> nat \<Rightarrow> nat \<Rightarrow> nat op" where
  "sys_realloc sa b n a n' m =
     (if (b, n, a) \<in> set (m_blocks m) \<and> 0 < n' \<and> layout_ok n' a
      then let b' = sa_realloc sa m (b, n, a) n'
           in Inr (b', if b' = 0 then m
                       else let m1 = write_bytes b' (read_bytes b (min n n') m) (without (b, n, a) m)
                            in m1\<lparr>m_blocks := (b', n', a) # m_blocks m1\<rparr>)
      else Inl Undefined)"

section \<open>The host's allocator\<close>

text \<open>
  \<^verbatim>\<open>try_alloc\<close>: null (0) when the size overflows or no memory is to be had.  The word before the
  pointer handed out holds the size of the whole block.
\<close>

definition try_alloc :: "sys_allocator \<Rightarrow> nat \<Rightarrow> nat \<Rightarrow> nat op" where
  "try_alloc sa n alignment =
     (let a = max alignment 8; total = n + a
      in if usize_max < total then ret 0
         else if \<not> layout_ok total a then ret 0
         else mbind (sys_alloc sa total a) (\<lambda>base.
              if base = 0 then ret 0
              else mbind (store_u64 (base + a - 8) (of_nat total)) (\<lambda>_. ret (base + a))))"

definition dealloc :: "nat \<Rightarrow> nat \<Rightarrow> unit op" where
  "dealloc p alignment =
     (let a = max alignment 8
      in mbind (load_u64 (p - 8)) (\<lambda>total. sys_dealloc (p - a) (unat total) a))"

definition alloc :: "sys_allocator \<Rightarrow> nat \<Rightarrow> nat \<Rightarrow> nat op" where
  "alloc sa n alignment = mbind (try_alloc sa n alignment) (\<lambda>p. if p = 0 then fail Exits else ret p)"

definition realloc :: "sys_allocator \<Rightarrow> nat \<Rightarrow> nat \<Rightarrow> nat \<Rightarrow> nat op" where
  "realloc sa p n alignment =
     (let a = max alignment 8
      in mbind (load_u64 (p - 8)) (\<lambda>old_total.
         if usize_max < n + a then fail Exits
         else mbind (sys_realloc sa (p - a) (unat old_total) a (n + a)) (\<lambda>base.
              if base = 0 then fail Exits
              else mbind (store_u64 (base + a - 8) (of_nat (n + a))) (\<lambda>_. ret (base + a)))))"

section \<open>What the system's allocator promises\<close>

text \<open>
  A block it hands out is aligned as asked, does not wrap round the address space and overlaps
  neither a live block nor the read-only data; a block it moves may overlap its old place.
\<close>

definition apart :: "nat \<Rightarrow> nat \<Rightarrow> nat \<Rightarrow> nat \<Rightarrow> bool" where
  "apart a n b s \<longleftrightarrow> a + n \<le> b \<or> b + s \<le> a"

definition fresh :: "memory \<Rightarrow> nat \<Rightarrow> nat \<Rightarrow> bool" where
  "fresh m b n \<longleftrightarrow> list_all (\<lambda>(c, s, _). apart b n c s) (m_blocks m) \<and>
     list_all (\<lambda>(c, s). apart b n c s) (m_static m)"

definition good_block :: "memory \<Rightarrow> nat \<Rightarrow> nat \<Rightarrow> nat \<Rightarrow> bool" where
  "good_block m b n a \<longleftrightarrow> a dvd b \<and> b + n \<le> usize_max \<and> fresh m b n"

definition sys_ok :: "sys_allocator \<Rightarrow> bool" where
  "sys_ok sa \<longleftrightarrow>
     (\<forall>m n a. sa_alloc sa m n a \<noteq> 0 \<longrightarrow> good_block m (sa_alloc sa m n a) n a) \<and>
     (\<forall>m b n a n'. (b, n, a) \<in> set (m_blocks m) \<longrightarrow> sa_realloc sa m (b, n, a) n' \<noteq> 0 \<longrightarrow>
        good_block (without (b, n, a) m) (sa_realloc sa m (b, n, a) n') n' a)"

section \<open>The store it implements\<close>

text \<open>
  Each pointer handed out has an alignment and its contents.  The memory represents a store when its
  blocks are exactly those of the store's pointers, apart from one another and from the read-only
  data, each with its contents after a header that ends in the size of the block.
\<close>

type_synonym store = "nat \<Rightarrow> (nat \<times> bytes) option"

definition block_of :: "nat \<Rightarrow> nat \<Rightarrow> bytes \<Rightarrow> nat \<times> nat \<times> nat" where
  "block_of p a bs = (p - a, length bs + a, a)"

definition block_ok :: "memory \<Rightarrow> nat \<Rightarrow> nat \<Rightarrow> bytes \<Rightarrow> bool" where
  "block_ok m p a bs \<longleftrightarrow> 8 dvd a \<and> 8 \<le> a \<and> a dvd p \<and> a < p \<and> p + length bs \<le> usize_max \<and>
     read_bytes p (length bs) m = bs \<and> read_bytes (p - 8) 8 m = u64_le (of_nat (length bs + a)) \<and>
     list_all (\<lambda>(c, s). apart (p - a) (length bs + a) c s) (m_static m)"

definition reps :: "memory \<Rightarrow> store \<Rightarrow> bool" where
  "reps m H \<longleftrightarrow>
     set (m_blocks m) = {block_of p a bs | p a bs. H p = Some (a, bs)} \<and>
     (\<forall>p a bs. H p = Some (a, bs) \<longrightarrow> block_ok m p a bs) \<and>
     (\<forall>p a xs q b ys. H p = Some (a, xs) \<longrightarrow> H q = Some (b, ys) \<longrightarrow> p \<noteq> q \<longrightarrow>
        apart (p - a) (length xs + a) (q - b) (length ys + b))"

text \<open>Bytes of a list replaced from an index on.\<close>

definition patch :: "nat \<Rightarrow> 'a list \<Rightarrow> 'a list \<Rightarrow> 'a list" where
  "patch k xs bs = take k bs @ xs @ drop (k + length xs) bs"

subsection \<open>Bytes and words\<close>

lemma length_read_bytes [simp]: "length (read_bytes a n m) = n"
  by (simp add: read_bytes_def)

lemma read_bytes_nth: "i < n \<Longrightarrow> read_bytes a n m ! i = m_byte m (a + i)"
  by (simp add: read_bytes_def)

lemma read_bytes_cong:
  "(\<And>i. i < n \<Longrightarrow> m_byte m (a + i) = m_byte m' (a + i)) \<Longrightarrow> read_bytes a n m = read_bytes a n m'"
  by (simp add: read_bytes_def)

lemma read_bytes_0 [simp]: "read_bytes a 0 m = []"
  by (simp add: read_bytes_def)

lemma read_bytes_frame [simp]:
  "read_bytes a n (m\<lparr>m_blocks := bl\<rparr>) = read_bytes a n m"
  "read_bytes a n (without blk m) = read_bytes a n m"
  by (simp_all add: read_bytes_def without_def)

lemma write_bytes_frame [simp]:
  "m_blocks (write_bytes a bs m) = m_blocks m" "m_static (write_bytes a bs m) = m_static m"
  "can_write (write_bytes a bs m) x n = can_write m x n" "can_read (write_bytes a bs m) x n = can_read m x n"
  by (simp_all add: write_bytes_def can_write_def can_read_def)

lemma read_write_apart: "apart a n b (length bs) \<Longrightarrow> read_bytes a n (write_bytes b bs m) = read_bytes a n m"
  by (rule read_bytes_cong) (auto simp: apart_def write_bytes_def)

lemma read_write_within:
  assumes "b = a + k" "k + length xs \<le> n"
  shows "read_bytes a n (write_bytes b xs m) = patch k xs (read_bytes a n m)"
proof (rule nth_equalityI)
  fix i assume "i < length (read_bytes a n (write_bytes b xs m))"
  then have i: "i < n" by simp
  consider "i < k" | "k \<le> i" "i < k + length xs" | "k + length xs \<le> i" by linarith
  then show "read_bytes a n (write_bytes b xs m) ! i = patch k xs (read_bytes a n m) ! i"
    using i assms by cases (auto simp: read_bytes_nth patch_def write_bytes_def nth_append)
qed (use assms in \<open>simp add: patch_def\<close>)

lemma read_bytes_part:
  "k + n \<le> s \<Longrightarrow> read_bytes (a + k) n m = take n (drop k (read_bytes a s m))"
  by (rule nth_equalityI) (auto simp: read_bytes_nth add.assoc)

lemma length_patch [simp]: "k + length xs \<le> length bs \<Longrightarrow> length (patch k xs bs) = length bs"
  by (simp add: patch_def)

lemma bit_u64_from_le:
  "n < 64 \<Longrightarrow> bit (u64_from_le bs) n \<longleftrightarrow> n div 8 < length bs \<and> bit (bs ! (n div 8)) (n mod 8)"
proof (induction bs arbitrary: n)
  case (Cons b bs)
  have "bit (u64_from_le (b # bs)) n \<longleftrightarrow> 8 \<le> n \<and> bit (u64_from_le bs) (n - 8) \<or> n < 8 \<and> bit b n"
    using Cons(2) by (auto simp: u64_from_le_def bit_or_iff bit_push_bit_iff bit_ucast_iff dest: bit_imp_le_length)
  then show ?case
    using Cons by (cases "n < 8") (auto simp: nth_Cons' div_le_dividend le_mod_geq le_div_geq)
qed (simp add: u64_from_le_def)

lemma u64_from_le_le [simp]: "u64_from_le (u64_le x) = x"
proof (rule bit_word_eqI)
  fix n assume "n < LENGTH(64)"
  then have n: "n < 64" by simp
  then have "n div 8 < 8" by simp
  then have "[0..<8] ! (n div 8) = n div 8" by (subst nth_upt) simp_all
  then show "bit (u64_from_le (u64_le x)) n = bit x n"
    using n \<open>n div 8 < 8\<close> by (simp add: bit_u64_from_le u64_le_def bit_ucast_iff bit_drop_bit_eq)
qed

lemma u64_le_from_le: "length bs = 8 \<Longrightarrow> u64_le (u64_from_le bs) = bs"
proof (rule nth_equalityI)
  fix i assume "length bs = 8" "i < length (u64_le (u64_from_le bs))"
  then have i: "i < 8" "length bs = 8" by simp_all
  show "u64_le (u64_from_le bs) ! i = bs ! i"
  proof (rule bit_word_eqI)
    fix j assume "j < LENGTH(8)"
    then show "bit (u64_le (u64_from_le bs) ! i) j = bit (bs ! i) j"
      using i by (simp add: u64_le_def bit_ucast_iff bit_drop_bit_eq bit_u64_from_le nth_upt del: upt_Suc)
  qed
qed simp

subsection \<open>Reading and writing the store\<close>

lemma blocks_image:
  "{block_of p a bs | p a bs. H p = Some (a, bs)} = (\<lambda>p. block_of p (fst (the (H p))) (snd (the (H p)))) ` dom H"
  by force

lemma blocks_insert:
  assumes "H q = None"
  shows "{block_of p c xs | p c xs. (H(q \<mapsto> (a, bs))) p = Some (c, xs)} =
    insert (block_of q a bs) {block_of p c xs | p c xs. H p = Some (c, xs)}"
proof -
  have "(H(q \<mapsto> (a, bs))) p = Some (c, xs) \<longleftrightarrow> p = q \<and> c = a \<and> xs = bs \<or> H p = Some (c, xs)" for p c xs
    using assms by auto
  then show ?thesis by (simp only:) auto
qed

lemma repsD:
  assumes "reps m H"
  shows "set (m_blocks m) = {block_of p a bs | p a bs. H p = Some (a, bs)}"
    "H p = Some (a, bs) \<Longrightarrow> block_ok m p a bs"
    "H p = Some (a, bs) \<Longrightarrow> H q = Some (b, ys) \<Longrightarrow> p \<noteq> q \<Longrightarrow>
       apart (p - a) (length bs + a) (q - b) (length ys + b)"
  using assms unfolding reps_def by blast+

lemma block_okD:
  assumes "block_ok m p a bs"
  shows "8 dvd a" "8 \<le> a" "a < p" "8 dvd p" "p + length bs \<le> usize_max" "read_bytes p (length bs) m = bs"
    "read_bytes (p - 8) 8 m = u64_le (of_nat (length bs + a))"
  using assms unfolding block_ok_def by (blast intro: dvd_trans)+

lemma can_writeI: "(b, s, a) \<in> set (m_blocks m) \<Longrightarrow> within x n b s \<Longrightarrow> can_write m x n"
  unfolding can_write_def list_ex_iff by blast

lemma reps_can_write:
  assumes "reps m H" "H p = Some (a, bs)" "k + n \<le> length bs"
  shows "can_write m (p + k) n"
proof -
  have "block_of p a bs \<in> set (m_blocks m)" using repsD(1) [OF assms(1)] assms(2) by blast
  moreover have "within (p + k) n (p - a) (length bs + a)"
    using assms(3) block_okD(3) [OF repsD(2) [OF assms(1,2)]] by (simp add: within_def)
  ultimately show ?thesis unfolding block_of_def by (rule can_writeI)
qed

lemma reps_load_bytes:
  assumes "reps m H" "H p = Some (a, bs)" "k + n \<le> length bs"
  shows "load_bytes (p + k) n m = Inr (take n (drop k bs), m)"
proof -
  note ok = repsD(2) [OF assms(1,2)]
  have "read_bytes (p + k) n m = take n (drop k bs)" "p \<noteq> 0"
    using read_bytes_part [OF assms(3), of p m] block_okD(3,6) [OF ok] by auto
  then show ?thesis using reps_can_write [OF assms] by (simp add: load_bytes_def can_read_def)
qed

lemma reps_load_u64:
  assumes "reps m H" "H p = Some (a, bs)" "k + 8 \<le> length bs" "8 dvd k"
  shows "load_u64 (p + k) m = Inr (u64_from_le (take 8 (drop k bs)), m)"
proof -
  note ok = repsD(2) [OF assms(1,2)]
  have "8 dvd p + k" using assms(4) block_okD(4) [OF ok] by simp
  moreover have "read_bytes (p + k) 8 m = take 8 (drop k bs)"
    using read_bytes_part [OF assms(3), of p m] block_okD(6) [OF ok] by simp
  ultimately show ?thesis using reps_can_write [OF assms(1-3)] by (simp add: load_u64_def can_read_def)
qed

lemma block_ok_write_apart:
  assumes "block_ok m p a bs" "apart (p - a) (length bs + a) b (length xs)"
  shows "block_ok (write_bytes b xs m) p a bs"
proof -
  have "apart p (length bs) b (length xs)" "apart (p - 8) 8 b (length xs)"
    using assms(2) block_okD(2,3) [OF assms(1)] by (auto simp: apart_def)
  then show ?thesis using assms(1) by (simp add: block_ok_def read_write_apart)
qed

lemma reps_write:
  assumes "reps m H" "H p = Some (a, bs)" "k + length xs \<le> length bs"
  shows "reps (write_bytes (p + k) xs m) (H(p \<mapsto> (a, patch k xs bs)))"
proof -
  let ?m = "write_bytes (p + k) xs m"
  note ok = repsD(2) [OF assms(1,2)]
  note p = block_okD(2,3) [OF ok]
  have "block_ok ?m p a (patch k xs bs)"
  proof -
    have "read_bytes p (length bs) ?m = patch k xs bs"
      using ok assms(3) by (simp add: read_write_within [of _ p k] block_ok_def)
    moreover have "read_bytes (p - 8) 8 ?m = read_bytes (p - 8) 8 m"
      using p by (intro read_write_apart) (auto simp: apart_def)
    ultimately show ?thesis using ok assms(3) by (simp add: block_ok_def)
  qed
  moreover have "block_ok ?m q b ys" if "H q = Some (b, ys)" "q \<noteq> p" for q b ys
    using repsD(3) [OF assms(1) that(1) assms(2) that(2)] assms(3) p
    by (intro block_ok_write_apart repsD(2) [OF assms(1) that(1)]) (auto simp: apart_def)
  moreover have "{block_of q b ys | q b ys. (H(p \<mapsto> (a, patch k xs bs))) q = Some (b, ys)} =
      {block_of q b ys | q b ys. H q = Some (b, ys)}"
    unfolding blocks_image using assms(2,3) by (intro image_cong) (auto simp: block_of_def split: if_splits)
  ultimately show ?thesis
    using assms unfolding reps_def by (auto simp: repsD(1) split: if_splits)
qed

lemma reps_store_bytes:
  assumes "reps m H" "H p = Some (a, bs)" "k + length xs \<le> length bs"
  shows "\<exists>m'. store_bytes (p + k) xs m = Inr ((), m') \<and> reps m' (H(p \<mapsto> (a, patch k xs bs)))"
proof -
  have "p \<noteq> 0" using block_okD(3) [OF repsD(2) [OF assms(1,2)]] by simp
  then show ?thesis using reps_write [OF assms] reps_can_write [OF assms] by (simp add: store_bytes_def)
qed

lemma reps_store_u64:
  assumes "reps m H" "H p = Some (a, bs)" "k + 8 \<le> length bs" "8 dvd k"
  shows "\<exists>m'. store_u64 (p + k) w m = Inr ((), m') \<and> reps m' (H(p \<mapsto> (a, patch k (u64_le w) bs)))"
proof -
  have "8 dvd p + k" using block_okD(4) [OF repsD(2) [OF assms(1,2)]] assms(4) by simp
  then show ?thesis
    using reps_write [OF assms(1,2), of k "u64_le w"] reps_can_write [OF assms(1-3)] assms(3)
    by (simp add: store_u64_def)
qed


subsection \<open>Blocks coming and going\<close>

lemma reps_without:
  assumes "reps m H" "H p = Some (a, bs)"
  shows "reps (without (block_of p a bs) m) (H(p := None))"
proof -
  have ne: "block_of q b ys = block_of p a bs \<longleftrightarrow> q = p" if "H q = Some (b, ys)" for q b ys
    using block_okD(3) [OF repsD(2) [OF assms]] block_okD(3) [OF repsD(2) [OF assms(1) that]] that assms(2)
    by (auto simp: block_of_def)
  have "set (m_blocks (without (block_of p a bs) m)) = {x \<in> {block_of q b ys | q b ys. H q = Some (b, ys)}. x \<noteq> block_of p a bs}"
    using repsD(1) [OF assms(1)] by (simp add: without_def)
  also have "\<dots> = {block_of q b ys | q b ys. H q = Some (b, ys) \<and> q \<noteq> p}"
  proof (intro set_eqI iffI)
    fix x assume "x \<in> {x \<in> {block_of q b ys | q b ys. H q = Some (b, ys)}. x \<noteq> block_of p a bs}"
    then obtain q b ys where "x = block_of q b ys" "H q = Some (b, ys)" "x \<noteq> block_of p a bs" by blast
    then show "x \<in> {block_of q b ys | q b ys. H q = Some (b, ys) \<and> q \<noteq> p}" using ne by blast
  next
    fix x assume "x \<in> {block_of q b ys | q b ys. H q = Some (b, ys) \<and> q \<noteq> p}"
    then obtain q b ys where q: "x = block_of q b ys" "H q = Some (b, ys)" "q \<noteq> p" by blast
    then show "x \<in> {x \<in> {block_of q b ys | q b ys. H q = Some (b, ys)}. x \<noteq> block_of p a bs}"
      using ne [OF q(2)] by auto
  qed
  also have "\<dots> = {block_of q b ys | q b ys. (H(p := None)) q = Some (b, ys)}"
    by (auto split: if_splits)
  finally have "set (m_blocks (without (block_of p a bs) m)) = {block_of q b ys | q b ys. (H(p := None)) q = Some (b, ys)}" .
  moreover have "block_ok (without (block_of p a bs) m) q b ys" if "H q = Some (b, ys)" for q b ys
    using repsD(2) [OF assms(1) that] by (simp add: block_ok_def) (simp add: without_def)
  ultimately show ?thesis using assms(1) by (auto simp: reps_def split: if_splits)
qed

lemma fresh_apart:
  assumes "reps m H" "fresh m b n" "H q = Some (c, ys)"
  shows "apart (q - c) (length ys + c) b n"
proof -
  have "block_of q c ys \<in> set (m_blocks m)" using repsD(1) [OF assms(1)] assms(3) by blast
  then show ?thesis using assms(2) by (auto simp: fresh_def list_all_iff block_of_def apart_def)
qed

lemma reps_write_fresh:
  assumes "reps m H" "fresh m b (length xs)"
  shows "reps (write_bytes b xs m) H"
  using assms block_ok_write_apart [OF _ fresh_apart [OF assms]] by (auto simp: reps_def)

lemma fresh_mono: "fresh m b n \<Longrightarrow> k \<le> n \<Longrightarrow> fresh m b k"
  by (auto simp: fresh_def list_all_iff apart_def)

text \<open>A new block with its header written is a new pointer of the store.\<close>

lemma reps_add:
  fixes b n a m
  defines "m1 \<equiv> m\<lparr>m_blocks := (b, n + a, a) # m_blocks m\<rparr>"
  defines "m2 \<equiv> write_bytes (b + a - 8) (u64_le (of_nat (n + a))) m1"
  assumes "reps m H" "b \<noteq> 0" "good_block m b (n + a) a" "8 dvd a" "8 \<le> a"
  shows "store_u64 (b + a - 8) (of_nat (n + a)) m1 = Inr ((), m2)" "H (b + a) = None"
    "reps m2 (H(b + a \<mapsto> (a, read_bytes (b + a) n m)))"
proof -
  have b: "a dvd b" "b + (n + a) \<le> usize_max" "fresh m b (n + a)"
    using assms(5) by (auto simp: good_block_def)
  then have "8 dvd b + a" using assms(6) by (auto intro: dvd_trans)
  then have "8 dvd b + a - 8" by (simp add: dvd_diff_nat)
  moreover have "can_write m1 (b + a - 8) 8"
    by (rule can_writeI [of b "n + a" a]) (use assms(7) in \<open>auto simp: m1_def within_def\<close>)
  ultimately show "store_u64 (b + a - 8) (of_nat (n + a)) m1 = Inr ((), m2)"
    by (simp add: store_u64_def m2_def)
  have ap: "apart (q - c) (length ys + c) b (n + a)" if "H q = Some (c, ys)" for q c ys
    using fresh_apart [OF assms(3) b(3) that] .
  show none: "H (b + a) = None"
  proof (rule ccontr)
    assume "H (b + a) \<noteq> None"
    then obtain c ys where h: "H (b + a) = Some (c, ys)" by auto
    have "b + a - c + (length ys + c) \<le> b \<or> b + (n + a) \<le> b + a - c" using ap [OF h] by (simp only: apart_def)
    then show False using block_okD(2,3) [OF repsD(2) [OF assms(3) h]] assms(7) by linarith
  qed
  have frame: "m_static m2 = m_static m" "m_blocks m2 = (b, n + a, a) # m_blocks m"
    "read_bytes x k m2 = read_bytes x k (write_bytes (b + a - 8) (u64_le (of_nat (n + a))) m)" for x k
    by (simp_all add: m2_def m1_def read_bytes_def write_bytes_def)
  have new: "block_ok m2 (b + a) a (read_bytes (b + a) n m)"
  proof -
    have "read_bytes (b + a) n m2 = read_bytes (b + a) n m"
      using assms(7) by (simp add: frame read_write_apart apart_def)
    moreover have "read_bytes (b + a - 8) 8 m2 = u64_le (of_nat (n + a))"
      by (simp add: frame read_write_within [of _ _ 0] patch_def)
    moreover have "list_all (\<lambda>(c, s). apart b (n + a) c s) (m_static m)" using b(3) by (simp add: fresh_def)
    ultimately show ?thesis using assms(4,6,7) b by (simp add: block_ok_def frame)
  qed
  have old: "block_ok m2 q c ys" if "H q = Some (c, ys)" for q c ys
  proof -
    have "apart (q - c) (length ys + c) (b + a - 8) 8" using ap [OF that] assms(7) by (auto simp: apart_def)
    then have "block_ok (write_bytes (b + a - 8) (u64_le (of_nat (n + a))) m) q c ys"
      by (intro block_ok_write_apart repsD(2) [OF assms(3) that]) simp
    then show ?thesis by (simp add: block_ok_def frame)
  qed
  have "set (m_blocks m2) = {block_of q c ys | q c ys. (H(b + a \<mapsto> (a, read_bytes (b + a) n m))) q = Some (c, ys)}"
    unfolding blocks_insert [of H, OF none] repsD(1) [OF assms(3), symmetric] by (simp add: frame block_of_def)
  moreover have "apart (q - c) (length ys + c) (p - d) (length xs + d)"
    if q: "(H(b + a \<mapsto> (a, read_bytes (b + a) n m))) q = Some (c, ys)"
      and p: "(H(b + a \<mapsto> (a, read_bytes (b + a) n m))) p = Some (d, xs)" and ne: "q \<noteq> p" for q c ys p d xs
  proof -
    consider "q = b + a" "p \<noteq> b + a" | "p = b + a" "q \<noteq> b + a" | "p \<noteq> b + a" "q \<noteq> b + a" using ne by blast
    then show ?thesis
    proof cases
      case 1
      then have "H p = Some (d, xs)" "c = a" "length ys = n" using p q by auto
      then show ?thesis using ap [of p d xs] 1(1) by (simp add: apart_def disj_commute)
    next
      case 2
      then have "H q = Some (c, ys)" "d = a" "length xs = n" using p q by auto
      then show ?thesis using ap [of q c ys] 2(1) by simp
    next
      case 3
      then show ?thesis using p q ne by (intro repsD(3) [OF assms(3)]) simp_all
    qed
  qed
  moreover have "block_ok m2 q c ys" if "(H(b + a \<mapsto> (a, read_bytes (b + a) n m))) q = Some (c, ys)" for q c ys
    using new old [of q c ys] that by (cases "q = b + a") auto
  ultimately show "reps m2 (H(b + a \<mapsto> (a, read_bytes (b + a) n m)))"
    unfolding reps_def by blast
qed


subsection \<open>The operations\<close>

lemma power_of_two_dvd: "is_power_of_two a \<Longrightarrow> 8 \<le> a \<Longrightarrow> 8 dvd a"
proof -
  assume "is_power_of_two a" "8 \<le> a"
  then obtain k where k: "a = 2 ^ k" "(2 :: nat) ^ 3 \<le> 2 ^ k" by (auto simp: is_power_of_two_def list_ex_iff)
  then have "3 \<le> k" by (simp only: power_increasing_iff)
  then have "(2 :: nat) ^ 3 dvd 2 ^ k" by (rule le_imp_power_dvd)
  with k show "8 dvd a" by simp
qed

definition grows :: "store \<Rightarrow> nat \<Rightarrow> nat \<Rightarrow> fault + nat \<times> memory \<Rightarrow> bool" where
  "grows H n a r \<longleftrightarrow> r = Inl Exits \<or>
     (\<exists>p m' bs. r = Inr (p, m') \<and> H p = None \<and> length bs = n \<and> reps m' (H(p \<mapsto> (a, bs))))"

lemma alloc_grows:
  assumes "sys_ok sa" "reps m H"
  shows "grows H n (max alignment 8) (alloc sa n alignment m)"
proof -
  define a where "a = max alignment 8"
  have a8: "8 \<le> a" by (simp add: a_def)
  define b where "b = sa_alloc sa m (n + a) a"
  have "alloc sa n alignment m = Inl Exits \<or>
    (\<exists>m'. alloc sa n alignment m = Inr (b + a, m') \<and> H (b + a) = None \<and>
       reps m' (H(b + a \<mapsto> (a, read_bytes (b + a) n m))))"
  proof (cases "usize_max < n + a \<or> \<not> layout_ok (n + a) a \<or> b = 0")
    case True
    then show ?thesis
      by (auto simp: alloc_def try_alloc_def mbind_def ret_def fail_def sys_alloc_def a_def [symmetric] b_def [symmetric] Let_def)
  next
    case False
    then have "8 dvd a" "good_block m b (n + a) a"
      using power_of_two_dvd a8 assms(1) by (auto simp: layout_ok_def sys_ok_def b_def)
    note add = reps_add [OF assms(2) _ this(2,1) a8]
    show ?thesis
      using False add by (auto simp: alloc_def try_alloc_def mbind_def ret_def fail_def sys_alloc_def a_def [symmetric] b_def [symmetric] Let_def)
  qed
  then show ?thesis unfolding grows_def a_def by fastforce
qed

lemma reps_header:
  assumes "reps m H" "H p = Some (a, bs)"
  shows "load_u64 (p - 8) m = Inr (of_nat (length bs + a), m)" "unat (of_nat (length bs + a) :: u64) = length bs + a"
proof -
  note ok = block_okD [OF repsD(2) [OF assms]]
  have "block_of p a bs \<in> set (m_blocks m)" using repsD(1) [OF assms(1)] assms(2) by blast
  then have "can_write m (p - 8) 8"
    unfolding block_of_def by (rule can_writeI) (use ok(2,3) in \<open>simp add: within_def\<close>)
  moreover have "8 dvd p - 8" using ok(4) by (simp add: dvd_diff_nat)
  ultimately show "load_u64 (p - 8) m = Inr (of_nat (length bs + a), m)"
    using ok(7) by (simp add: load_u64_def can_read_def)
  have "length bs + a < 2 ^ 64" using ok(3,5) by simp
  then show "unat (of_nat (length bs + a) :: u64) = length bs + a"
    by (subst unat_of_nat) simp
qed


lemma reps_dealloc:
  assumes "reps m H" "H p = Some (max alignment 8, bs)"
  shows "\<exists>m'. dealloc p alignment m = Inr ((), m') \<and> reps m' (H(p := None))"
proof -
  have "block_of p (max alignment 8) bs \<in> set (m_blocks m)" using repsD(1) [OF assms(1)] assms(2) by blast
  then show ?thesis
    using reps_header [OF assms] reps_without [OF assms]
    by (simp add: dealloc_def mbind_def sys_dealloc_def block_of_def Let_def)
qed

lemma reps_realloc:
  assumes "sys_ok sa" "reps m H" "H p = Some (max alignment 8, bs)"
    and "n + max alignment 8 + (max alignment 8 - 1) \<le> isize_max" "is_power_of_two (max alignment 8)"
  shows "realloc sa p n alignment m = Inl Exits \<or>
    (\<exists>p' m' bs'. realloc sa p n alignment m = Inr (p', m') \<and> (H(p := None)) p' = None \<and> length bs' = n \<and>
       take (min n (length bs)) bs' = take (min n (length bs)) bs \<and>
       reps m' (H(p := None, p' \<mapsto> (max alignment 8, bs'))))"
proof -
  define a where "a = max alignment 8"
  note asm = assms(3-5) [folded a_def]
  have a8: "8 \<le> a" by (simp add: a_def)
  note ok = block_okD [OF repsD(2) [OF assms(2) asm(1)]]
  note hd = reps_header [OF assms(2) asm(1)]
  have n: "\<not> usize_max < n + a" using asm(2) by simp
  have blk: "(p - a, length bs + a, a) \<in> set (m_blocks m)"
    using repsD(1) [OF assms(2)] asm(1) by (auto simp: block_of_def)
  define b where "b = sa_realloc sa m (p - a, length bs + a, a) (n + a)"
  show ?thesis
  proof (cases "b = 0")
    case True
    then show ?thesis
      using hd blk asm(2,3) a8
      by (auto simp: n realloc_def mbind_def sys_realloc_def fail_def layout_ok_def a_def [symmetric] b_def [symmetric] Let_def)
  next
    case False
    define m0 where "m0 = without (p - a, length bs + a, a) m"
    define xs where "xs = read_bytes (p - a) (min (length bs + a) (n + a)) m"
    define m1 where "m1 = write_bytes b xs m0"
    have good: "good_block m0 b (n + a) a"
      using assms(1) blk False unfolding sys_ok_def m0_def b_def by blast
    have r0: "reps m0 (H(p := None))"
      using reps_without [OF assms(2) asm(1)] by (simp add: m0_def block_of_def)
    have "fresh m0 b (length xs)" using good fresh_mono by (auto simp: good_block_def xs_def)
    then have r1: "reps m1 (H(p := None))" unfolding m1_def by (rule reps_write_fresh [OF r0])
    have good1: "good_block m1 b (n + a) a" using good by (simp add: good_block_def fresh_def m1_def)
    note add = reps_add [OF r1 False good1 ok(1) a8]
    have "read_bytes (b + a) n m1 = drop a (read_bytes b (n + a) m1)"
      using read_bytes_part [of a n "n + a" b m1] by simp
    also have "\<dots> = drop a (patch 0 xs (read_bytes b (n + a) m0))"
      unfolding m1_def by (subst read_write_within [of b b 0]) (simp_all add: xs_def)
    finally have "take (min n (length bs)) (read_bytes (b + a) n m1) = take (min n (length bs)) (drop a xs)"
      by (simp add: patch_def xs_def)
    also have "drop a xs = take (min n (length bs)) bs"
    proof -
      have "min (length bs + a) (n + a) = min n (length bs) + a" by (simp add: min_def)
      then have "read_bytes (p - a + a) (min n (length bs)) m = drop a xs"
        using read_bytes_part [of a "min n (length bs)" "min n (length bs) + a" "p - a" m]
        by (simp add: xs_def)
      moreover have "read_bytes (p + 0) (min n (length bs)) m = take (min n (length bs)) bs"
        using read_bytes_part [of 0 "min n (length bs)" "length bs" p m] ok(6) by simp
      ultimately show ?thesis using ok(3) by simp
    qed
    finally have "take (min n (length bs)) (read_bytes (b + a) n m1) = take (min n (length bs)) bs" by simp
    moreover have "realloc sa p n alignment m =
        Inr (b + a, write_bytes (b + a - 8) (u64_le (of_nat (n + a))) (m1\<lparr>m_blocks := (b, n + a, a) # m_blocks m1\<rparr>))"
      using hd blk asm(2,3) False add(1) a8
      by (simp add: n realloc_def mbind_def sys_realloc_def ret_def layout_ok_def a_def [symmetric] b_def [symmetric]
          m1_def [symmetric] m0_def [symmetric] xs_def [symmetric] Let_def)
    ultimately show ?thesis using add(2,3) unfolding a_def by (intro disjI2 exI conjI) simp_all
  qed
qed


text \<open>
  Reallocating checks its size for overflow of \<^verbatim>\<open>usize\<close> only, not against the limit of a layout, so a
  size between the two is passed on to a call whose behaviour is then undefined.
\<close>

lemma realloc_size_unchecked:
  assumes "reps m H" "H p = Some (max alignment 8, bs)" "\<not> layout_ok (n + max alignment 8) (max alignment 8)"
    and "n + max alignment 8 \<le> usize_max"
  shows "realloc sa p n alignment m = Inl Undefined"
  using reps_header [OF assms(1,2)] assms(3,4) by (simp add: realloc_def mbind_def sys_realloc_def Let_def)

lemma realloc_overflow:
  assumes "reps m H" "H p = Some (max alignment 8, bs)" "usize_max < n + max alignment 8"
  shows "realloc sa p n alignment m = Inl Exits"
  using reps_header [OF assms(1,2)] assms(3) by (simp add: realloc_def mbind_def fail_def Let_def)

text \<open>
  C37. The host's allocator implements a plain store.  Allocating ends the process or hands out a
  pointer not in use, aligned as asked, to as many bytes as asked; freeing a pointer with the
  alignment it was allocated with always succeeds and removes exactly it.  Reallocating to a size that a
  layout can have ends the process or moves the contents to a pointer of the new size; to a larger size
  that still fits \<^verbatim>\<open>usize\<close> it has undefined behaviour, since the code does not check it; and past \<^verbatim>\<open>usize\<close> it
  ends the process.  Otherwise nothing has undefined behaviour, and no operation changes the contents
  behind any other pointer.
\<close>

theorem allocator_refines_store:
  assumes "sys_ok sa" "reps m H"
  shows "grows H n (max alignment 8) (alloc sa n alignment m) \<and>
    (\<forall>p bs. H p = Some (max alignment 8, bs) \<longrightarrow>
       (\<exists>m'. dealloc p alignment m = Inr ((), m') \<and> reps m' (H(p := None))) \<and>
       (if usize_max < n + max alignment 8 then realloc sa p n alignment m = Inl Exits
        else if \<not> layout_ok (n + max alignment 8) (max alignment 8) then realloc sa p n alignment m = Inl Undefined
        else realloc sa p n alignment m = Inl Exits \<or>
         (\<exists>p' m' bs'. realloc sa p n alignment m = Inr (p', m') \<and> (H(p := None)) p' = None \<and> length bs' = n \<and>
           take (min n (length bs)) bs' = take (min n (length bs)) bs \<and>
           reps m' (H(p := None, p' \<mapsto> (max alignment 8, bs'))))))"
proof (intro conjI allI impI)
  show "grows H n (max alignment 8) (alloc sa n alignment m)" by (rule alloc_grows [OF assms])
next
  fix p bs
  assume p: "H p = Some (max alignment 8, bs)"
  show "\<exists>m'. dealloc p alignment m = Inr ((), m') \<and> reps m' (H(p := None))" using reps_dealloc [OF assms(2) p] .
  show "if usize_max < n + max alignment 8 then realloc sa p n alignment m = Inl Exits
        else if \<not> layout_ok (n + max alignment 8) (max alignment 8) then realloc sa p n alignment m = Inl Undefined
        else realloc sa p n alignment m = Inl Exits \<or>
         (\<exists>p' m' bs'. realloc sa p n alignment m = Inr (p', m') \<and> (H(p := None)) p' = None \<and> length bs' = n \<and>
           take (min n (length bs)) bs' = take (min n (length bs)) bs \<and>
           reps m' (H(p := None, p' \<mapsto> (max alignment 8, bs'))))"
    using realloc_overflow [OF assms(2) p] realloc_size_unchecked [OF assms(2) p] reps_realloc [OF assms p]
    by (simp add: layout_ok_def)
qed

subsection \<open>An allocator\<close>

text \<open>An allocator that puts every block after all others.\<close>

definition top_of :: "memory \<Rightarrow> nat" where
  "top_of m = foldr max (map (\<lambda>(b, s, _). b + s) (m_blocks m) @ map (\<lambda>(b, s). b + s) (m_static m)) 0"

definition place :: "nat \<Rightarrow> nat \<Rightarrow> nat \<Rightarrow> nat" where
  "place t n a = (let b = (t div a + 1) * a in if b + n \<le> usize_max then b else 0)"

definition bump :: sys_allocator where
  "bump = \<lparr>sa_alloc = (\<lambda>m n a. place (top_of m) n a), sa_realloc = (\<lambda>m (b, n, a) n'. place (top_of m) n' a)\<rparr>"

definition empty_memory :: memory where
  "empty_memory = \<lparr>m_byte = (\<lambda>_. 0), m_blocks = [], m_static = []\<rparr>"

lemma foldr_max_ge: "x \<in> set xs \<Longrightarrow> x \<le> foldr max xs (0 :: nat)"
  by (induction xs) auto

lemma top_of_ge:
  "(b, s, a) \<in> set (m_blocks m) \<Longrightarrow> b + s \<le> top_of m" "(b, s) \<in> set (m_static m) \<Longrightarrow> b + s \<le> top_of m"
  unfolding top_of_def by (rule foldr_max_ge; force)+

lemma place_good:
  assumes "place (top_of m) n a \<noteq> 0" "set (m_blocks m0) \<subseteq> set (m_blocks m)" "m_static m0 = m_static m"
  shows "good_block m0 (place (top_of m) n a) n a"
proof -
  have a: "a \<noteq> 0" using assms(1) by (auto simp: place_def Let_def split: if_splits)
  have p: "place (top_of m) n a = (top_of m div a + 1) * a" "(top_of m div a + 1) * a + n \<le> usize_max"
    using assms(1) by (auto simp: place_def Let_def split: if_splits)
  have "top_of m < (top_of m div a + 1) * a"
    using a dividend_less_div_times [of a "top_of m"] by simp
  then have "fresh m0 ((top_of m div a + 1) * a) n"
    using assms(2,3) top_of_ge by (fastforce simp: fresh_def list_all_iff apart_def)
  then show ?thesis using p by (simp add: good_block_def)
qed

lemma bump_ok: "sys_ok bump"
  using place_good by (auto simp: sys_ok_def bump_def without_def)

lemma reps_empty: "reps empty_memory Map.empty"
  by (simp add: reps_def empty_memory_def)

theorem allocator_refines_store_witness:
  "grows Map.empty 100 16 (alloc bump 100 16 empty_memory) \<and> alloc bump 100 16 empty_memory \<noteq> Inl Exits"
proof
  have "max 16 8 = (16 :: nat)" by simp
  then show "grows Map.empty 100 16 (alloc bump 100 16 empty_memory)"
    using allocator_refines_store [OF bump_ok reps_empty, of 100 16] by metis
  show "alloc bump 100 16 empty_memory \<noteq> Inl Exits"
    by (simp add: alloc_def try_alloc_def mbind_def ret_def fail_def sys_alloc_def bump_def empty_memory_def
        place_def top_of_def layout_ok_def is_power_of_two_def store_u64_def can_write_def within_def upt_rec)
qed

end
