(* ===== verification/Roc_Abi.thy ===== *)
theory Roc_Abi
  imports Memory Stdin
begin

text \<open>
  Roc's values as the host reads, builds and releases them (\<^verbatim>\<open>src/roc_platform_abi.rs\<close>): boxes,
  erased callables, strings and lists, each a reference count and data in memory from the host's
  allocator, over the memory of the theory \<open>Memory\<close>.  A pointer is its address, a struct its words;
  the 24 bytes of a string hold a small string itself.  The allocator reaches the operations through
  \<^verbatim>\<open>RocHost\<close>, as in the source.  An element type is its size, its alignment and whether it holds
  counted references; a list's elements are their bytes.
\<close>

section \<open>The host and arithmetic\<close>

text \<open>\<^verbatim>\<open>RocHost\<close>: the allocator takes the length and then the alignment.\<close>

record roc_host =
  rh_alloc :: "nat \<Rightarrow> nat \<Rightarrow> nat op"
  rh_dealloc :: "nat \<Rightarrow> nat \<Rightarrow> unit op"
  rh_realloc :: "nat \<Rightarrow> nat \<Rightarrow> nat \<Rightarrow> nat op"

definition host_alloc :: "roc_host \<Rightarrow> nat \<Rightarrow> nat \<Rightarrow> nat op" where
  "host_alloc rh alignment n = rh_alloc rh n alignment"

definition host_dealloc :: "roc_host \<Rightarrow> nat \<Rightarrow> nat \<Rightarrow> unit op" where
  "host_dealloc rh p alignment = rh_dealloc rh p alignment"

definition host_realloc :: "roc_host \<Rightarrow> nat \<Rightarrow> nat \<Rightarrow> nat \<Rightarrow> nat op" where
  "host_realloc rh p alignment n = rh_realloc rh p n alignment"

abbreviation (input) ptr_width :: nat where "ptr_width \<equiv> 8"

definition checked_add_usize :: "nat \<Rightarrow> nat \<Rightarrow> str \<Rightarrow> nat op" where
  "checked_add_usize l r what = (if l + r \<le> usize_max then ret (l + r) else fail (Panics what))"

definition checked_mul_usize :: "nat \<Rightarrow> nat \<Rightarrow> str \<Rightarrow> nat op" where
  "checked_mul_usize l r what = (if l * r \<le> usize_max then ret (l * r) else fail (Panics what))"

text \<open>\<^verbatim>\<open>checked_shl(1)\<close> only checks the distance of the shift: the top bit is lost.\<close>

definition shifted_capacity :: "u64 \<Rightarrow> u64" where
  "shifted_capacity capacity = push_bit 1 capacity"

section \<open>Boxes and callables\<close>

definition box_data_ptr :: "nat \<Rightarrow> nat option" where
  "box_data_ptr p = (if p = 0 then None else Some p)"

definition box_refcount_ptr :: "nat \<Rightarrow> nat" where
  "box_refcount_ptr d = d - 8"

definition box_header :: "nat \<Rightarrow> bool \<Rightarrow> nat op" where
  "box_header alignment counted =
     mbind (if counted then checked_mul_usize 2 ptr_width (lit ''Roc box header size overflow'') else ret ptr_width)
       (\<lambda>required. ret (max required alignment))"

definition allocate_box :: "nat \<Rightarrow> nat \<Rightarrow> bool \<Rightarrow> roc_host \<Rightarrow> nat op" where
  "allocate_box n alignment counted rh =
     mbind (box_header alignment counted) (\<lambda>header.
     mbind (checked_add_usize header n (lit ''Roc box allocation size overflow'')) (\<lambda>total.
     mbind (host_alloc rh (max ptr_width alignment) total) (\<lambda>base.
     let d = base + header
     in mbind (store_u64 (d - 8) 1) (\<lambda>_. ret d))))"

definition incref_box :: "nat \<Rightarrow> u64 \<Rightarrow> unit op" where
  "incref_box p k =
     (case box_data_ptr p of
        None \<Rightarrow> ret ()
      | Some d \<Rightarrow>
          mbind (load_u64 (box_refcount_ptr d)) (\<lambda>rc.
          if rc = 0 then ret () else store_u64 (box_refcount_ptr d) (rc + k)))"

definition free_box_allocation :: "nat \<Rightarrow> nat \<Rightarrow> bool \<Rightarrow> roc_host \<Rightarrow> unit op" where
  "free_box_allocation d alignment counted rh =
     mbind (box_header alignment counted) (\<lambda>header. host_dealloc rh (d - header) (max ptr_width alignment))"

definition decref_box_with :: "nat \<Rightarrow> nat \<Rightarrow> bool \<Rightarrow> (nat \<Rightarrow> unit op) option \<Rightarrow> roc_host \<Rightarrow> unit op" where
  "decref_box_with p alignment counted callback rh =
     (case box_data_ptr p of
        None \<Rightarrow> ret ()
      | Some d \<Rightarrow>
          mbind (load_u64 (box_refcount_ptr d)) (\<lambda>rc.
          if rc = 0 then ret ()
          else mbind (store_u64 (box_refcount_ptr d) (rc - 1)) (\<lambda>_.
               if rc = 1 then
                 mbind (case callback of None \<Rightarrow> ret () | Some f \<Rightarrow> f p) (\<lambda>_.
                 free_box_allocation d alignment counted rh)
               else ret ())))"

definition decref_box :: "nat \<Rightarrow> roc_host \<Rightarrow> unit op" where
  "decref_box p rh = decref_box_with p ptr_width False None rh"

definition free_box_with :: "nat \<Rightarrow> nat \<Rightarrow> bool \<Rightarrow> (nat \<Rightarrow> unit op) option \<Rightarrow> roc_host \<Rightarrow> unit op" where
  "free_box_with p alignment counted callback rh =
     (case box_data_ptr p of
        None \<Rightarrow> ret ()
      | Some d \<Rightarrow>
          mbind (case callback of None \<Rightarrow> ret () | Some f \<Rightarrow> f p) (\<lambda>_.
          free_box_allocation d alignment counted rh))"

definition is_unique_box :: "nat \<Rightarrow> bool op" where
  "is_unique_box p =
     (case box_data_ptr p of
        None \<Rightarrow> ret True
      | Some d \<Rightarrow> mbind (load_u64 (box_refcount_ptr d)) (\<lambda>rc. ret (rc = 1)))"

text \<open>
  An erased callable is a box whose payload is the address of its code, the address of its
  destructor (0 for none) and then what the closure captured.
\<close>

abbreviation (input) ROC_ERASED_CALLABLE_PAYLOAD_ALIGNMENT :: nat where "ROC_ERASED_CALLABLE_PAYLOAD_ALIGNMENT \<equiv> 16"
abbreviation (input) ROC_ERASED_CALLABLE_CAPTURE_OFFSET :: nat where "ROC_ERASED_CALLABLE_CAPTURE_OFFSET \<equiv> 16"

definition roc_erased_callable_payload_size :: "nat \<Rightarrow> nat op" where
  "roc_erased_callable_payload_size n =
     checked_add_usize ROC_ERASED_CALLABLE_CAPTURE_OFFSET n (lit ''Roc erased-callable payload size overflow'')"

definition roc_erased_callable_capture_ptr :: "nat \<Rightarrow> nat" where
  "roc_erased_callable_capture_ptr c = c + ROC_ERASED_CALLABLE_CAPTURE_OFFSET"

definition roc_erased_callable_allocate :: "roc_host \<Rightarrow> u64 \<Rightarrow> u64 \<Rightarrow> nat \<Rightarrow> nat op" where
  "roc_erased_callable_allocate rh code on_drop n =
     (let extra = max ptr_width ROC_ERASED_CALLABLE_PAYLOAD_ALIGNMENT
      in mbind (roc_erased_callable_payload_size n) (\<lambda>payload.
         mbind (checked_add_usize extra payload (lit ''Roc erased-callable allocation size overflow'')) (\<lambda>total.
         mbind (host_alloc rh (max ptr_width ROC_ERASED_CALLABLE_PAYLOAD_ALIGNMENT) total) (\<lambda>base.
         let d = base + extra
         in mbind (store_u64 (d - 8) 1) (\<lambda>_.
            mbind (store_u64 d code) (\<lambda>_.
            mbind (store_u64 (d + 8) on_drop) (\<lambda>_. ret d)))))))"

text \<open>What calling a destructor does is a parameter: its address and the address of the capture.\<close>

definition drop_erased_callable_payload :: "(u64 \<Rightarrow> nat \<Rightarrow> unit op) \<Rightarrow> nat \<Rightarrow> unit op" where
  "drop_erased_callable_payload call p =
     (if p = 0 then ret ()
      else mbind (load_u64 (p + 8)) (\<lambda>on_drop.
           if on_drop = 0 then ret () else call on_drop (roc_erased_callable_capture_ptr p)))"

definition incref_erased_callable :: "nat \<Rightarrow> u64 \<Rightarrow> unit op" where
  "incref_erased_callable c k = incref_box c k"

definition decref_erased_callable :: "(u64 \<Rightarrow> nat \<Rightarrow> unit op) \<Rightarrow> nat \<Rightarrow> roc_host \<Rightarrow> unit op" where
  "decref_erased_callable call c rh =
     decref_box_with c ROC_ERASED_CALLABLE_PAYLOAD_ALIGNMENT False (Some (drop_erased_callable_payload call)) rh"

section \<open>Strings\<close>

record roc_str =
  rs_bytes :: u64
  rs_cap :: u64
  rs_length :: u64

abbreviation (input) ROC_STR_SIZE :: nat where "ROC_STR_SIZE \<equiv> 24"
abbreviation (input) ROC_SMALL_STR_BIT :: u64 where "ROC_SMALL_STR_BIT \<equiv> push_bit 63 1"

text \<open>The bytes of the struct, and the struct made of such bytes.\<close>

definition str_image :: "roc_str \<Rightarrow> bytes" where
  "str_image s = u64_le (rs_bytes s) @ u64_le (rs_cap s) @ u64_le (rs_length s)"

definition str_of_image :: "bytes \<Rightarrow> roc_str" where
  "str_of_image bs =
     \<lparr>rs_bytes = u64_from_le (take 8 bs), rs_cap = u64_from_le (take 8 (drop 8 bs)),
      rs_length = u64_from_le (take 8 (drop 16 bs))\<rparr>"

definition str_empty :: roc_str where
  "str_empty = \<lparr>rs_bytes = 0, rs_cap = 0, rs_length = ROC_SMALL_STR_BIT\<rparr>"

definition is_small_str :: "roc_str \<Rightarrow> bool" where
  "is_small_str s \<longleftrightarrow> sint (rs_length s) < 0"

definition str_is_slice :: "roc_str \<Rightarrow> bool" where
  "str_is_slice s \<longleftrightarrow> \<not> is_small_str s \<and> rs_cap s AND 1 \<noteq> 0"

definition str_len :: "roc_str \<Rightarrow> nat" where
  "str_len s =
     (if is_small_str s then unat ((str_image s ! (ROC_STR_SIZE - 1)) XOR 128) else unat (rs_length s))"

definition str_as_slice :: "roc_str \<Rightarrow> bytes op" where
  "str_as_slice s =
     (if is_small_str s
      then if str_len s \<le> ROC_STR_SIZE then ret (take (str_len s) (str_image s)) else fail Undefined
      else load_bytes (unat (rs_bytes s)) (str_len s))"

definition str_as_str :: "roc_str \<Rightarrow> str op" where
  "str_as_str s =
     mbind (str_as_slice s) (\<lambda>bs.
     case from_utf8 (map unat bs) of
       None \<Rightarrow> fail (Panics (lit ''RocStr contained invalid UTF-8''))
     | Some t \<Rightarrow> ret t)"

definition str_from_slice :: "bytes \<Rightarrow> roc_host \<Rightarrow> roc_str op" where
  "str_from_slice bs rh =
     (if from_utf8 (map unat bs) = None then fail (Panics (lit ''RocStr::from_slice requires valid UTF-8''))
      else if length bs < ROC_STR_SIZE
      then ret (str_of_image ((patch 0 bs (str_image str_empty))[ROC_STR_SIZE - 1 := of_nat (length bs) OR 128]))
      else mbind (checked_add_usize ptr_width (length bs) (lit ''RocStr allocation size overflow'')) (\<lambda>total.
           mbind (host_alloc rh 8 total) (\<lambda>base.
           let d = base + ptr_width
           in mbind (store_u64 (d - 8) 1) (\<lambda>_.
              mbind (store_bytes d bs) (\<lambda>_.
              ret \<lparr>rs_bytes = of_nat d, rs_cap = shifted_capacity (of_nat (length bs)),
                   rs_length = of_nat (length bs)\<rparr>)))))"

definition str_from_str :: "str \<Rightarrow> roc_host \<Rightarrow> roc_str op" where
  "str_from_str t rh = str_from_slice (map of_nat (concat (map utf8_char t))) rh"

definition str_allocation_ptr :: "roc_str \<Rightarrow> nat" where
  "str_allocation_ptr s = unat (if str_is_slice s then rs_cap s AND NOT 1 else rs_bytes s)"

definition str_decref :: "roc_str \<Rightarrow> roc_host \<Rightarrow> unit op" where
  "str_decref s rh =
     (if is_small_str s then ret ()
      else let p = str_allocation_ptr s
           in if p = 0 then ret ()
              else mbind (load_u64 (p - 8)) (\<lambda>rc.
                   if rc = 0 then ret ()
                   else mbind (store_u64 (p - 8) (rc - 1)) (\<lambda>_.
                        if rc = 1 then host_dealloc rh (p - ptr_width) 8 else ret ())))"

definition str_incref :: "roc_str \<Rightarrow> u64 \<Rightarrow> unit op" where
  "str_incref s k =
     (if is_small_str s then ret ()
      else let p = str_allocation_ptr s
           in if p = 0 then ret ()
              else mbind (load_u64 (p - 8)) (\<lambda>rc.
                   if rc = 0 then ret () else store_u64 (p - 8) (rc + k)))"

definition str_is_unique :: "roc_str \<Rightarrow> bool op" where
  "str_is_unique s =
     (if is_small_str s then ret True
      else let p = str_allocation_ptr s
           in if p = 0 then ret True
              else mbind (load_u64 (p - 8)) (\<lambda>rc. ret (rc = 0 \<or> rc = 1)))"

section \<open>Lists\<close>

record element =
  el_size :: nat
  el_align :: nat
  el_counted :: bool

record roc_list =
  rl_elements :: u64
  rl_length :: u64
  rl_cap :: u64

definition list_header :: "element \<Rightarrow> nat op" where
  "list_header e =
     mbind (if el_counted e then checked_mul_usize 2 ptr_width (lit ''RocList header size overflow'') else ret ptr_width)
       (\<lambda>required. ret (max required (el_align e)))"

definition list_empty :: roc_list where
  "list_empty = \<lparr>rl_elements = 0, rl_length = 0, rl_cap = 0\<rparr>"

definition list_is_slice :: "roc_list \<Rightarrow> bool" where
  "list_is_slice l \<longleftrightarrow> rl_cap l AND 1 \<noteq> 0"

definition list_allocation_ptr :: "roc_list \<Rightarrow> nat" where
  "list_allocation_ptr l = unat (if list_is_slice l then rl_cap l AND NOT 1 else rl_elements l)"

definition allocation_element_count :: "element \<Rightarrow> roc_list \<Rightarrow> nat op" where
  "allocation_element_count e l =
     (if list_is_slice l \<and> el_counted e then
        (let p = list_allocation_ptr l
         in if p = 0 then ret 0 else mbind (load_u64 (p - 16)) (\<lambda>n. ret (unat n)))
      else ret (unat (rl_length l)))"

text \<open>\<^verbatim>\<open>slice::from_raw_parts\<close> of elements.\<close>

definition load_items :: "element \<Rightarrow> nat \<Rightarrow> nat \<Rightarrow> bytes list op" where
  "load_items e a n =
     (if el_align e dvd a
      then mbind (load_bytes a (n * el_size e)) (\<lambda>bs. ret (chunks (el_size e) bs))
      else fail Undefined)"

definition list_as_slice :: "element \<Rightarrow> roc_list \<Rightarrow> bytes list op" where
  "list_as_slice e l =
     (if rl_elements l = 0 then ret [] else load_items e (unat (rl_elements l)) (unat (rl_length l)))"

definition allocation_items :: "element \<Rightarrow> roc_list \<Rightarrow> bytes list op" where
  "allocation_items e l =
     (if rl_elements l = 0 then ret []
      else mbind (allocation_element_count e l) (\<lambda>n. load_items e (list_allocation_ptr l) n))"

definition list_allocate :: "element \<Rightarrow> nat \<Rightarrow> roc_host \<Rightarrow> roc_list op" where
  "list_allocate e n rh =
     (if n = 0 then ret list_empty
      else mbind (list_header e) (\<lambda>header.
           mbind (checked_mul_usize n (el_size e) (lit ''RocList allocation element bytes overflow'')) (\<lambda>body.
           mbind (checked_add_usize body header (lit ''RocList allocation size overflow'')) (\<lambda>total.
           mbind (host_alloc rh (max (el_align e) 8) total) (\<lambda>base.
           let d = base + header
           in mbind (store_u64 (d - 8) 1) (\<lambda>_.
              mbind (if el_counted e then store_u64 (d - 16) (of_nat n) else ret ()) (\<lambda>_.
              ret \<lparr>rl_elements = of_nat d, rl_length = of_nat n, rl_cap = shifted_capacity (of_nat n)\<rparr>)))))))"

definition list_from_slice :: "element \<Rightarrow> bytes list \<Rightarrow> roc_host \<Rightarrow> roc_list op" where
  "list_from_slice e items rh =
     (if items = [] then ret list_empty
      else mbind (list_allocate e (length items) rh) (\<lambda>l.
           mbind (store_bytes (unat (rl_elements l)) (concat items)) (\<lambda>_. ret l)))"

definition list_decref :: "element \<Rightarrow> roc_list \<Rightarrow> roc_host \<Rightarrow> unit op" where
  "list_decref e l rh =
     (if rl_elements l = 0 then ret ()
      else let p = list_allocation_ptr l
           in if p = 0 then ret ()
              else mbind (list_header e) (\<lambda>header.
                   mbind (load_u64 (p - 8)) (\<lambda>rc.
                   if rc = 0 then ret ()
                   else mbind (store_u64 (p - 8) (rc - 1)) (\<lambda>_.
                        if rc = 1 then host_dealloc rh (p - header) (max (el_align e) 8) else ret ()))))"

fun each_op :: "('a \<Rightarrow> unit op) \<Rightarrow> 'a list \<Rightarrow> unit op" where
  "each_op f [] = ret ()"
| "each_op f (x # xs) = mbind (f x) (\<lambda>_. each_op f xs)"

text \<open>\<^verbatim>\<open>release_with\<close>; how an element is released is the argument \<open>rel\<close>.\<close>

definition list_release_with :: "element \<Rightarrow> (bytes \<Rightarrow> roc_host \<Rightarrow> unit op) \<Rightarrow> roc_list \<Rightarrow> roc_host \<Rightarrow> unit op" where
  "list_release_with e rel l rh =
     (if rl_elements l = 0 then ret ()
      else let p = list_allocation_ptr l
           in if p = 0 then ret ()
              else mbind (list_header e) (\<lambda>header.
                   mbind (load_u64 (p - 8)) (\<lambda>rc.
                   if rc = 0 then ret ()
                   else mbind (store_u64 (p - 8) (rc - 1)) (\<lambda>_.
                        if rc = 1 then
                          mbind (if el_counted e
                                 then mbind (allocation_items e l) (\<lambda>items. each_op (\<lambda>x. rel x rh) items)
                                 else ret ()) (\<lambda>_.
                          host_dealloc rh (p - header) (max (el_align e) 8))
                        else ret ()))))"

definition list_incref :: "roc_list \<Rightarrow> u64 \<Rightarrow> unit op" where
  "list_incref l k =
     (if rl_elements l = 0 then ret ()
      else let p = list_allocation_ptr l
           in if p = 0 then ret ()
              else mbind (load_u64 (p - 8)) (\<lambda>rc.
                   if rc = 0 then ret () else store_u64 (p - 8) (rc + k)))"

definition list_is_unique :: "roc_list \<Rightarrow> bool op" where
  "list_is_unique l =
     (let p = list_allocation_ptr l
      in if p = 0 then ret True else mbind (load_u64 (p - 8)) (\<lambda>rc. ret (rc = 0 \<or> rc = 1)))"

definition has_one_ref :: "roc_list \<Rightarrow> bool op" where
  "has_one_ref l =
     (let p = list_allocation_ptr l
      in if p = 0 then ret False else mbind (load_u64 (p - 8)) (\<lambda>rc. ret (rc = 1)))"

text \<open>The release of strings (\<^verbatim>\<open>RocStrRelease\<close>) and of lists of them.\<close>

definition str_element :: element where
  "str_element = \<lparr>el_size = ROC_STR_SIZE, el_align = 8, el_counted = True\<rparr>"

definition release_str :: "bytes \<Rightarrow> roc_host \<Rightarrow> unit op" where
  "release_str im rh = str_decref (str_of_image im) rh"

definition release_str_list :: "roc_list \<Rightarrow> roc_host \<Rightarrow> unit op" where
  "release_str_list l rh = list_release_with str_element release_str l rh"

text \<open>\<^verbatim>\<open>build_args_list\<close> of \<^verbatim>\<open>src/lib.rs\<close>: the command line for Roc's \<^verbatim>\<open>main!\<close>.\<close>

fun write_args :: "nat \<Rightarrow> nat \<Rightarrow> str list \<Rightarrow> roc_host \<Rightarrow> unit op" where
  "write_args a i [] rh = ret ()"
| "write_args a i (t # ts) rh =
     mbind (str_from_str t rh) (\<lambda>s.
     mbind (store_bytes (a + i * ROC_STR_SIZE) (str_image s)) (\<lambda>_. write_args a (i + 1) ts rh))"

definition build_args_list :: "str list \<Rightarrow> roc_host \<Rightarrow> roc_list op" where
  "build_args_list args rh =
     (if args = [] then ret list_empty
      else mbind (list_allocate str_element (length args) rh) (\<lambda>l.
           mbind (write_args (unat (rl_elements l)) 0 args rh) (\<lambda>_. ret l)))"


section \<open>Reasoning about operations\<close>

text \<open>The operation runs out of memory, or returns with \<open>Q\<close>: no panic and nothing undefined.\<close>

definition returns :: "fault + 'a \<times> memory \<Rightarrow> ('a \<Rightarrow> memory \<Rightarrow> bool) \<Rightarrow> bool" where
  "returns r Q \<longleftrightarrow> (case r of Inl e \<Rightarrow> e = Exits | Inr (x, m) \<Rightarrow> Q x m)"

lemma returns_simps [simp]:
  "returns (Inr (x, m)) Q = Q x m" "returns (ret x m) Q = Q x m" "returns (Inl e) Q \<longleftrightarrow> e = Exits"
  by (simp_all add: returns_def ret_def)

lemma returns_mono: "returns r P \<Longrightarrow> (\<And>x m. P x m \<Longrightarrow> Q x m) \<Longrightarrow> returns r Q"
  by (cases r) (auto simp: returns_def)

lemma returns_mbind:
  "returns (x m) P \<Longrightarrow> (\<And>v m1. P v m1 \<Longrightarrow> returns (f v m1) Q) \<Longrightarrow> returns (mbind x f m) Q"
  by (cases "x m") (auto simp: mbind_def)

lemma mbind_Inr: "x m = Inr (v, m1) \<Longrightarrow> mbind x f m = f v m1"
  by (simp add: mbind_def)

lemma mbind_ret [simp]: "mbind (ret x) f = f x"
  by (simp add: mbind_def ret_def fun_eq_iff)

lemma mbind_fail [simp]: "mbind (fail e) f = fail e"
  by (simp add: mbind_def fail_def fun_eq_iff)

lemma mbind_if: "mbind (if c then x else y) f = (if c then mbind x f else mbind y f)"
  by simp

text \<open>What the operations rely on of \<^verbatim>\<open>RocHost\<close>.\<close>

definition host_ok :: "roc_host \<Rightarrow> bool" where
  "host_ok rh \<longleftrightarrow>
     (\<forall>m H n a. reps m H \<longrightarrow> grows H n (max a 8) (rh_alloc rh n a m)) \<and>
     (\<forall>m H p a bs. reps m H \<longrightarrow> H p = Some (max a 8, bs) \<longrightarrow>
        (\<exists>m'. rh_dealloc rh p a m = Inr ((), m') \<and> reps m' (H(p := None))))"

text \<open>The host of \<^verbatim>\<open>src/lib.rs\<close> for memory that no resource heap claims.\<close>

definition plain_host :: "sys_allocator \<Rightarrow> roc_host" where
  "plain_host sa = \<lparr>rh_alloc = alloc sa, rh_dealloc = dealloc, rh_realloc = realloc sa\<rparr>"

lemma plain_host_ok: "sys_ok sa \<Longrightarrow> host_ok (plain_host sa)"
  unfolding host_ok_def plain_host_def using alloc_grows reps_dealloc by simp

lemma host_alloc_returns:
  assumes "host_ok rh" "reps m H"
  shows "returns (host_alloc rh a n m)
    (\<lambda>p m'. H p = None \<and> (\<exists>bs. length bs = n \<and> reps m' (H(p \<mapsto> (max a 8, bs)))))"
proof -
  have "grows H n (max a 8) (rh_alloc rh n a m)" using assms unfolding host_ok_def by blast
  then show ?thesis unfolding grows_def host_alloc_def by (elim disjE exE conjE) auto
qed

lemma host_dealloc_returns:
  assumes "host_ok rh" "reps m H" "H p = Some (max a 8, bs)"
  obtains m' where "host_dealloc rh p a m = Inr ((), m')" "reps m' (H(p := None))"
  using assms unfolding host_ok_def host_dealloc_def by blast

section \<open>Counted blocks\<close>

text \<open>
  A block of the store whose data starts after a header that ends in a reference count.
\<close>

definition counted :: "store \<Rightarrow> nat \<Rightarrow> nat \<Rightarrow> nat \<Rightarrow> u64 \<Rightarrow> bool" where
  "counted H d header a rc \<longleftrightarrow> 8 \<le> header \<and> 8 dvd header \<and> header < d \<and>
     (\<exists>bs. H (d - header) = Some (a, bs) \<and> header \<le> length bs \<and> u64_from_le (take 8 (drop (header - 8) bs)) = rc)"

definition set_count :: "store \<Rightarrow> nat \<Rightarrow> nat \<Rightarrow> u64 \<Rightarrow> store" where
  "set_count H d header rc =
     (case H (d - header) of
        None \<Rightarrow> H
      | Some (a, bs) \<Rightarrow> H(d - header \<mapsto> (a, patch (header - 8) (u64_le rc) bs)))"

lemma counted_load:
  assumes "reps m H" "counted H d header a rc"
  shows "load_u64 (d - 8) m = Inr (rc, m)"
proof -
  obtain bs where bs: "H (d - header) = Some (a, bs)" "header \<le> length bs" "u64_from_le (take 8 (drop (header - 8) bs)) = rc"
    and h: "8 \<le> header" "8 dvd header" "header < d" using assms(2) by (auto simp: counted_def)
  have "load_u64 (d - header + (header - 8)) m = Inr (u64_from_le (take 8 (drop (header - 8) bs)), m)"
    using h by (intro reps_load_u64 [OF assms(1) bs(1)]) (use bs h in \<open>auto simp: dvd_diff_nat\<close>)
  moreover have "d - header + (header - 8) = d - 8" using h by simp
  ultimately show ?thesis using bs(3) by simp
qed

lemma counted_store:
  assumes "reps m H" "counted H d header a rc"
  obtains m' where "store_u64 (d - 8) rc' m = Inr ((), m')" "reps m' (set_count H d header rc')"
proof -
  obtain bs where bs: "H (d - header) = Some (a, bs)" "header \<le> length bs"
    and h: "8 \<le> header" "8 dvd header" "header < d" using assms(2) by (auto simp: counted_def)
  have "\<exists>m'. store_u64 (d - header + (header - 8)) rc' m = Inr ((), m') \<and>
      reps m' (H(d - header \<mapsto> (a, patch (header - 8) (u64_le rc') bs)))"
    using h bs by (intro reps_store_u64 [OF assms(1) bs(1)]) (auto simp: dvd_diff_nat)
  moreover have "d - header + (header - 8) = d - 8" using h by simp
  ultimately show ?thesis using bs(1) by (auto simp: set_count_def intro: that)
qed

lemma set_count_other: "p \<noteq> d - header \<Longrightarrow> set_count H d header rc p = H p"
  by (auto simp: set_count_def split: option.splits)

lemma counted_set_count:
  assumes "counted H d header a rc"
  shows "counted (set_count H d header rc') d header a rc'"
    "set_count (set_count H d header rc') d header rc'' = set_count H d header rc''"
    "(set_count H d header rc')(d - header := None) = H(d - header := None)"
proof -
  obtain bs where bs: "H (d - header) = Some (a, bs)" "header \<le> length bs"
    and h: "8 \<le> header" "8 dvd header" "header < d" using assms by (auto simp: counted_def)
  let ?bs = "patch (header - 8) (u64_le rc') bs"
  have p: "drop (header - 8) ?bs = u64_le rc' @ drop header bs" using h bs by (simp add: patch_def)
  then show "counted (set_count H d header rc') d header a rc'"
    using h bs by (simp add: counted_def set_count_def)
  have "patch (header - 8) (u64_le rc'') ?bs = patch (header - 8) (u64_le rc'') bs"
    using h bs by (simp add: patch_def)
  then show "set_count (set_count H d header rc') d header rc'' = set_count H d header rc''"
    using bs by (simp add: set_count_def)
  show "(set_count H d header rc')(d - header := None) = H(d - header := None)"
    using bs by (simp add: set_count_def)
qed


lemma set_count_same:
  assumes "counted H d header a rc"
  shows "set_count H d header rc = H"
proof -
  obtain bs where bs: "H (d - header) = Some (a, bs)" "header \<le> length bs" "u64_from_le (take 8 (drop (header - 8) bs)) = rc"
    and h: "8 \<le> header" using assms by (auto simp: counted_def)
  have "u64_le rc = take 8 (drop (header - 8) bs)"
    using bs h u64_le_from_le [of "take 8 (drop (header - 8) bs)"] by simp
  moreover have "patch (header - 8) (u64_le rc) bs = take (header - 8) bs @ u64_le rc @ drop 8 (drop (header - 8) bs)"
    using h by (simp add: patch_def)
  ultimately have "patch (header - 8) (u64_le rc) bs = bs" by (simp only: append_take_drop_id)
  then show ?thesis using bs(1) by (auto simp: set_count_def)
qed

section \<open>Reference counting\<close>

text \<open>What the owners of references to one value do in turn: take more references, or drop one.\<close>

datatype ref_event = Retain nat | Drop

fun run_refs :: "('v \<Rightarrow> roc_host \<Rightarrow> unit op) \<Rightarrow> ('v \<Rightarrow> u64 \<Rightarrow> unit op) \<Rightarrow> 'v \<Rightarrow> roc_host \<Rightarrow> ref_event list \<Rightarrow> unit op" where
  "run_refs dec inc v rh [] = ret ()"
| "run_refs dec inc v rh (Retain k # es) = mbind (inc v (of_nat k)) (\<lambda>_. run_refs dec inc v rh es)"
| "run_refs dec inc v rh (Drop # es) = mbind (dec v rh) (\<lambda>_. run_refs dec inc v rh es)"

text \<open>The references left; \<open>None\<close> when one is used that is not there, or they are too many to count.\<close>

fun refs_after :: "nat \<Rightarrow> ref_event list \<Rightarrow> nat option" where
  "refs_after n [] = Some n"
| "refs_after n (Retain k # es) = (if n = 0 \<or> isize_max < n + k then None else refs_after (n + k) es)"
| "refs_after n (Drop # es) = (if n = 0 then None else refs_after (n - 1) es)"

lemma refs_after_none: "refs_after 0 es = Some k \<Longrightarrow> es = []"
  by (cases es; cases "hd es") auto

lemma of_nat_isize:
  "n \<le> isize_max \<Longrightarrow> (of_nat n :: u64) = 0 \<longleftrightarrow> n = 0" "n \<le> isize_max \<Longrightarrow> (of_nat n :: u64) = 1 \<longleftrightarrow> n = 1"
proof -
  assume n: "n \<le> isize_max"
  then have u: "unat (of_nat n :: u64) = n" by (subst unat_of_nat) simp
  show "(of_nat n :: u64) = 0 \<longleftrightarrow> n = 0" by (simp only: word_unat_eq_iff u unat_0)
  show "(of_nat n :: u64) = 1 \<longleftrightarrow> n = 1" by (simp only: word_unat_eq_iff u unat_1)
qed

text \<open>
  The contract of a counted value: releasing a reference that is not the last only lowers the count,
  releasing the last one frees the block, and taking references raises the count.
\<close>

locale refcounted =
  fixes dec :: "'v \<Rightarrow> roc_host \<Rightarrow> unit op" and inc :: "'v \<Rightarrow> u64 \<Rightarrow> unit op"
    and data :: "'v \<Rightarrow> nat" and header :: "'v \<Rightarrow> nat" and al :: "'v \<Rightarrow> nat" and on_heap :: "'v \<Rightarrow> bool"
  assumes dec_shared: "host_ok rh \<Longrightarrow> on_heap v \<Longrightarrow> reps m H \<Longrightarrow> counted H (data v) (header v) (al v) rc \<Longrightarrow>
      rc \<noteq> 0 \<Longrightarrow> rc \<noteq> 1 \<Longrightarrow> \<exists>m'. dec v rh m = Inr ((), m') \<and> reps m' (set_count H (data v) (header v) (rc - 1))"
    and dec_last: "host_ok rh \<Longrightarrow> on_heap v \<Longrightarrow> reps m H \<Longrightarrow> counted H (data v) (header v) (al v) 1 \<Longrightarrow>
      \<exists>m'. dec v rh m = Inr ((), m') \<and> reps m' (H(data v - header v := None))"
    and inc_law: "on_heap v \<Longrightarrow> reps m H \<Longrightarrow> counted H (data v) (header v) (al v) rc \<Longrightarrow>
      rc \<noteq> 0 \<Longrightarrow> \<exists>m'. inc v k m = Inr ((), m') \<and> reps m' (set_count H (data v) (header v) (rc + k))"
    and static_law: "on_heap v \<Longrightarrow> load_u64 (data v - 8) m = Inr (0, m) \<Longrightarrow>
      dec v rh m = Inr ((), m) \<and> inc v k m = Inr ((), m)"
begin

lemma refs_exact:
  assumes "host_ok rh" "on_heap v"
  shows "reps m H \<Longrightarrow> counted H (data v) (header v) (al v) (of_nat n) \<Longrightarrow> 0 < n \<Longrightarrow> n \<le> isize_max \<Longrightarrow>
    refs_after n es = Some k \<Longrightarrow>
    \<exists>m'. run_refs dec inc v rh es m = Inr ((), m') \<and>
      reps m' (if k = 0 then H(data v - header v := None) else set_count H (data v) (header v) (of_nat k))"
proof (induction es arbitrary: n m H)
  case Nil
  then show ?case using set_count_same [OF Nil(2)] by (simp add: ret_def)
next
  case (Cons e es)
  show ?case
  proof (cases e)
    case (Retain j)
    have nz: "(of_nat n :: u64) \<noteq> 0" using of_nat_isize Cons(4,5) by simp
    obtain m1 where m1: "inc v (of_nat j) m = Inr ((), m1)" "reps m1 (set_count H (data v) (header v) (of_nat n + of_nat j))"
      using inc_law [OF assms(2) Cons(2,3) nz] by blast
    note c1 = counted_set_count [OF Cons(3), of "of_nat n + of_nat j"]
    have "\<exists>m'. run_refs dec inc v rh es m1 = Inr ((), m') \<and>
       reps m' (if k = 0 then (set_count H (data v) (header v) (of_nat n + of_nat j))(data v - header v := None)
                else set_count (set_count H (data v) (header v) (of_nat n + of_nat j)) (data v) (header v) (of_nat k))"
      by (rule Cons.IH [of _ _ "n + j"]) (use Cons(4-6) Retain m1(2) c1 in \<open>auto split: if_splits\<close>)
    then show ?thesis unfolding c1(2,3) Retain run_refs.simps mbind_Inr [where x = "inc v (of_nat j)", OF m1(1)] .
  next
    case Drop
    show ?thesis
    proof (cases "n = 1")
      case True
      then have e: "es = []" "k = 0" using Cons(6) Drop refs_after_none [of es k] by auto
      obtain m1 where "dec v rh m = Inr ((), m1)" "reps m1 (H(data v - header v := None))"
        using dec_last [OF assms Cons(2)] Cons(3) True by auto
      then show ?thesis using e Drop by (simp add: mbind_Inr ret_def fun_upd_def)
    next
      case False
      have nz: "(of_nat n :: u64) \<noteq> 0" "(of_nat n :: u64) \<noteq> 1" using of_nat_isize Cons(4,5) False by simp_all
      have d: "(of_nat n :: u64) - 1 = of_nat (n - 1)" using Cons(4) by (simp add: of_nat_diff)
      obtain m1 where m1: "dec v rh m = Inr ((), m1)" "reps m1 (set_count H (data v) (header v) (of_nat (n - 1)))"
        using dec_shared [OF assms Cons(2,3) nz] unfolding d by blast
      note c1 = counted_set_count [OF Cons(3), of "of_nat (n - 1)"]
      have "\<exists>m'. run_refs dec inc v rh es m1 = Inr ((), m') \<and>
         reps m' (if k = 0 then (set_count H (data v) (header v) (of_nat (n - 1)))(data v - header v := None)
                  else set_count (set_count H (data v) (header v) (of_nat (n - 1))) (data v) (header v) (of_nat k))"
        by (rule Cons.IH [of _ _ "n - 1"]) (use Cons(4-6) Drop False m1(2) c1(1) in \<open>auto split: if_splits\<close>)
      then show ?thesis unfolding c1(2,3) Drop run_refs.simps mbind_Inr [where x = "dec v rh", OF m1(1)] .
    qed
  qed
qed

end


text \<open>The addresses that pointers hold.\<close>

lemma reps_address:
  assumes "reps m H" "H p = Some (a, bs)" "k \<le> length bs"
  shows "unat (of_nat (p + k) :: u64) = p + k"
proof -
  have "p + k < 2 ^ 64" using block_okD(5) [OF repsD(2) [OF assms(1,2)]] assms(3) by simp
  then show ?thesis by (subst unat_of_nat) simp
qed

text \<open>The steps that the three kinds of value share, with what freeing the block does.\<close>

definition rc_release :: "nat \<Rightarrow> unit op \<Rightarrow> unit op" where
  "rc_release d fin =
     mbind (load_u64 (d - 8)) (\<lambda>rc.
     if rc = 0 then ret () else mbind (store_u64 (d - 8) (rc - 1)) (\<lambda>_. if rc = 1 then fin else ret ()))"

definition rc_retain :: "nat \<Rightarrow> u64 \<Rightarrow> unit op" where
  "rc_retain d k = mbind (load_u64 (d - 8)) (\<lambda>rc. if rc = 0 then ret () else store_u64 (d - 8) (rc + k))"

lemma rc_release_shared:
  assumes "reps m H" "counted H d header a rc" "rc \<noteq> 0" "rc \<noteq> 1"
  shows "\<exists>m'. rc_release d fin m = Inr ((), m') \<and> reps m' (set_count H d header (rc - 1))"
proof -
  obtain m1 where "store_u64 (d - 8) (rc - 1) m = Inr ((), m1)" "reps m1 (set_count H d header (rc - 1))"
    using counted_store [OF assms(1,2)] by blast
  then show ?thesis
    using assms(3,4) counted_load [OF assms(1,2)] by (simp add: rc_release_def mbind_def ret_def)
qed

lemma rc_release_last:
  assumes "reps m H" "counted H d header a 1"
    and fin: "\<And>m1. reps m1 (set_count H d header 0) \<Longrightarrow> \<exists>m'. fin m1 = Inr ((), m') \<and> reps m' H'"
  shows "\<exists>m'. rc_release d fin m = Inr ((), m') \<and> reps m' H'"
proof -
  obtain m1 where "store_u64 (d - 8) 0 m = Inr ((), m1)" "reps m1 (set_count H d header 0)"
    using counted_store [OF assms(1,2)] by blast
  then show ?thesis
    using fin [of m1] counted_load [OF assms(1,2)] by (simp add: rc_release_def mbind_def)
qed

lemma rc_dealloc:
  assumes "host_ok rh" "counted H d header (max a 8) 1" "reps m (set_count H d header 0)"
  shows "\<exists>m'. host_dealloc rh (d - header) a m = Inr ((), m') \<and> reps m' (H(d - header := None))"
proof -
  note c = counted_set_count [OF assms(2), of 0]
  obtain bs where "set_count H d header 0 (d - header) = Some (max a 8, bs)"
    using c(1) by (auto simp: counted_def)
  then show ?thesis using host_dealloc_returns [OF assms(1,3)] c(3) by metis
qed

lemma rc_retain_counted:
  assumes "reps m H" "counted H d header a rc" "rc \<noteq> 0"
  shows "\<exists>m'. rc_retain d k m = Inr ((), m') \<and> reps m' (set_count H d header (rc + k))"
proof -
  obtain m1 where "store_u64 (d - 8) (rc + k) m = Inr ((), m1)" "reps m1 (set_count H d header (rc + k))"
    using counted_store [OF assms(1,2)] by blast
  then show ?thesis using assms(3) counted_load [OF assms(1,2)] by (simp add: rc_retain_def mbind_def)
qed

lemma rc_static:
  assumes "load_u64 (d - 8) m = Inr (0, m)"
  shows "rc_release d fin m = Inr ((), m)" "rc_retain d k m = Inr ((), m)"
  using assms by (simp_all add: rc_release_def rc_retain_def mbind_def ret_def)

lemma refcountedI:
  assumes "\<And>v rh. on_heap v \<Longrightarrow> dec v rh = rc_release (data v) (host_dealloc rh (data v - header v) (al v))"
    and "\<And>v k. on_heap v \<Longrightarrow> inc v k = rc_retain (data v) k"
  shows "refcounted dec inc data header (\<lambda>v. max (al v) 8) on_heap"
proof unfold_locales
  fix rh v m H rc
  assume "host_ok rh" "on_heap v" "reps m H" "counted H (data v) (header v) (max (al v) 8) rc" "rc \<noteq> 0" "rc \<noteq> 1"
  then show "\<exists>m'. dec v rh m = Inr ((), m') \<and> reps m' (set_count H (data v) (header v) (rc - 1))"
    using assms(1) rc_release_shared by simp
next
  fix rh v m H
  assume "host_ok rh" "on_heap v" "reps m H" "counted H (data v) (header v) (max (al v) 8) 1"
  then show "\<exists>m'. dec v rh m = Inr ((), m') \<and> reps m' (H(data v - header v := None))"
    unfolding assms(1) [OF \<open>on_heap v\<close>] by (intro rc_release_last rc_dealloc)
next
  fix v m H rc k
  assume "on_heap v" "reps m H" "counted H (data v) (header v) (max (al v) 8) rc" "rc \<noteq> 0"
  then show "\<exists>m'. inc v k m = Inr ((), m') \<and> reps m' (set_count H (data v) (header v) (rc + k))"
    using assms(2) rc_retain_counted by simp
next
  fix v m rh k
  assume "on_heap v" "load_u64 (data v - 8) m = Inr (0, m)"
  then show "dec v rh m = Inr ((), m) \<and> inc v k m = Inr ((), m)"
    using assms rc_static by simp
qed

definition str_on_heap :: "roc_str \<Rightarrow> bool" where
  "str_on_heap s \<longleftrightarrow> \<not> is_small_str s \<and> str_allocation_ptr s \<noteq> 0"

definition list_on_heap :: "element \<times> roc_list \<Rightarrow> bool" where
  "list_on_heap v \<longleftrightarrow> rl_elements (snd v) \<noteq> 0 \<and> list_allocation_ptr (snd v) \<noteq> 0"

definition header_of :: "bool \<Rightarrow> nat \<Rightarrow> nat" where
  "header_of c a = max (if c then 16 else 8) a"

lemma headers [simp]: "list_header e = ret (header_of (el_counted e) (el_align e))" "box_header a c = ret (header_of c a)"
  by (simp_all add: list_header_def box_header_def header_of_def checked_mul_usize_def)

interpretation rc_str: refcounted str_decref str_incref str_allocation_ptr "\<lambda>_. 8" "\<lambda>_. max 8 8" str_on_heap
  by (rule refcountedI) (simp_all add: str_on_heap_def str_decref_def str_incref_def rc_release_def rc_retain_def Let_def)

interpretation rc_list: refcounted "\<lambda>(e, l). list_decref e l" "\<lambda>(e, l). list_incref l" "\<lambda>(e, l). list_allocation_ptr l"
  "\<lambda>(e, l). header_of (el_counted e) (el_align e)" "\<lambda>v. max (max (el_align (fst v)) 8) 8" list_on_heap
  by (rule refcountedI)
    (auto simp: list_on_heap_def list_decref_def list_incref_def rc_release_def rc_retain_def Let_def cong: if_cong)

text \<open>A box is its pointer, the alignment of its payload and whether that holds counted references.\<close>

interpretation rc_box: refcounted "\<lambda>(p, a, c) rh. decref_box_with p a c None rh" "\<lambda>(p, a, c) k. incref_box p k"
  "\<lambda>(p, a, c). p" "\<lambda>(p, a, c). header_of c a" "\<lambda>v. max (max 8 (fst (snd v))) 8" "\<lambda>(p, a, c). p \<noteq> 0"
  by (rule refcountedI)
    (auto simp: decref_box_with_def incref_box_def rc_release_def rc_retain_def box_data_ptr_def box_refcount_ptr_def
      free_box_allocation_def cong: if_cong)


section \<open>UTF-8\<close>

lemma first_char_utf8: "is_scalar c \<Longrightarrow> first_char (utf8_char c @ rest) = Some c \<and> char_width (hd (utf8_char c @ rest)) = length (utf8_char c)"
proof -
  assume c: "is_scalar c"
  have "c < 1114112" using c by (auto simp: is_scalar_def)
  then have div: "c div 64 < 32 \<or> 2048 \<le> c" "c div 4096 < 16 \<or> 65536 \<le> c" "c div 262144 < 5"
    by (auto simp: div_less_iff_less_mult)
  have "char_width (hd (utf8_char c @ rest)) = length (utf8_char c)"
    using div by (auto simp: utf8_char_def char_width_def)
  moreover have "char_value (utf8_char c) = c"
  proof -
    have "c div 64 * 64 + c mod 64 = c" "c div 64 div 64 * 64 + c div 64 mod 64 = c div 64"
      "c div 64 div 64 div 64 * 64 + c div 64 div 64 mod 64 = c div 64 div 64" by (rule div_mult_mod_eq)+
    then have "c div 64 * 64 + c mod 64 = c" "c div 64 div 64 * 4096 + c div 64 mod 64 * 64 + c mod 64 = c"
      "c div 64 div 64 div 64 * 262144 + c div 64 div 64 mod 64 * 4096 + c div 64 mod 64 * 64 + c mod 64 = c"
      by linarith+
    moreover have "c div 64 div 64 = c div 4096" "c div 4096 div 64 = c div 262144"
      by (simp_all add: div_mult2_eq [symmetric])
    ultimately show ?thesis by (simp add: utf8_char_def char_value_def)
  qed
  ultimately show ?thesis using c by (simp add: first_char_def)
qed

lemma from_utf8_utf8: "(\<And>c. c \<in> set t \<Longrightarrow> is_scalar c) \<Longrightarrow> from_utf8 (concat (map utf8_char t)) = Some t"
proof (induction t)
  case (Cons c t)
  let ?rest = "concat (map utf8_char t)"
  have c: "first_char (utf8_char c @ ?rest) = Some c" "char_width (hd (utf8_char c @ ?rest)) = length (utf8_char c)"
    using first_char_utf8 Cons(2) by simp_all
  obtain b bs where b: "utf8_char c @ ?rest = b # bs" using utf8_char_length [of c] by (cases "utf8_char c") auto
  have "char_width b = length (utf8_char c)" using c(2) by (simp only: b list.sel)
  then have "drop (char_width b) (b # bs) = ?rest" by (simp only: b [symmetric]) simp
  then show ?case using c(1) Cons by (simp add: b)
qed simp

lemma utf8_char_byte: "is_scalar c \<Longrightarrow> b \<in> set (utf8_char c) \<Longrightarrow> b < 256"
proof -
  assume c: "is_scalar c" and b: "b \<in> set (utf8_char c)"
  have "c < 1114112" using c by (auto simp: is_scalar_def)
  then have "c div 64 < 32 \<or> 2048 \<le> c" "c div 4096 < 16 \<or> 65536 \<le> c" "c div 262144 < 5"
    by (auto simp: div_less_iff_less_mult)
  then show ?thesis using b by (auto simp: utf8_char_def split: if_splits)
qed

section \<open>Strings in memory\<close>

lemma length_str_image [simp]: "length (str_image s) = 24"
  by (simp add: str_image_def)

lemma str_image_of_image [simp]: "length im = 24 \<Longrightarrow> str_image (str_of_image im) = im"
proof -
  assume im: "length im = 24"
  then have "str_image (str_of_image im) = take 8 im @ take 8 (drop 8 im) @ take 8 (drop 16 im)"
    by (simp add: str_image_def str_of_image_def u64_le_from_le)
  also have "\<dots> = take 8 im @ take 8 (drop 8 im) @ drop 8 (drop 8 im)" using im by simp
  also have "\<dots> = im" by (simp only: append_take_drop_id)
  finally show ?thesis .
qed

lemma str_of_image_image [simp]: "str_of_image (str_image s) = s"
  by (simp add: str_image_def str_of_image_def)

lemma is_small_image: "length im = 24 \<Longrightarrow> is_small_str (str_of_image im) \<longleftrightarrow> bit (im ! 23) 7"
  using bit_last_iff [of "rs_length (str_of_image im)"]
  by (simp add: is_small_str_def str_of_image_def bit_u64_from_le)

definition small_image :: "bytes \<Rightarrow> bytes" where
  "small_image bs = (patch 0 bs (str_image str_empty))[23 := of_nat (length bs) OR 128]"

lemma small_tag:
  assumes "n < 24"
  shows "bit (of_nat n OR 128 :: u8) 7" "unat ((of_nat n OR 128 :: u8) XOR 128) = n"
proof -
  have "(128 :: u8) = 2 ^ 7" by simp
  then have b: "bit (128 :: u8) k \<longleftrightarrow> k = 7" for k
    by (simp only: bit_exp_iff possible_bit_word) auto
  show "bit (of_nat n OR 128 :: u8) 7" by (simp add: bit_or_iff b del: bit_numeral_word_iff)
  have "\<not> bit (of_nat n :: u8) 7"
    using bit_below [of n 5 7] assms by (auto simp: bit_of_nat_iff)
  then have "(of_nat n OR 128 :: u8) XOR 128 = of_nat n"
    by (intro bit_word_eqI) (auto simp: bit_or_iff bit_xor_iff b simp del: bit_numeral_word_iff)
  then show "unat ((of_nat n OR 128 :: u8) XOR 128) = n" using assms by (simp add: unat_of_nat)
qed

lemma small_str:
  assumes "length bs < 24"
  shows "is_small_str (str_of_image (small_image bs))" "str_len (str_of_image (small_image bs)) = length bs"
    "str_as_slice (str_of_image (small_image bs)) m = Inr (bs, m)"
proof -
  have l: "length (small_image bs) = 24" using assms by (simp add: small_image_def)
  have tag: "small_image bs ! 23 = of_nat (length bs) OR 128" using assms by (simp add: small_image_def)
  show sm: "is_small_str (str_of_image (small_image bs))"
    using small_tag(1) [OF assms] by (simp add: is_small_image [OF l] tag)
  show len: "str_len (str_of_image (small_image bs)) = length bs"
    using sm small_tag(2) [OF assms] by (simp add: str_len_def l tag)
  have "take (length bs) (small_image bs) = bs" using assms by (simp add: small_image_def patch_def)
  then show "str_as_slice (str_of_image (small_image bs)) m = Inr (bs, m)"
    using sm len l assms by (simp add: str_as_slice_def ret_def)
qed

text \<open>
  How a string holds its bytes: by itself, or in a block of its own, which \<open>add_cell\<close> adds to a store.
\<close>

definition big_str :: "nat \<Rightarrow> nat \<Rightarrow> roc_str" where
  "big_str p n = \<lparr>rs_bytes = of_nat (p + 8), rs_cap = shifted_capacity (of_nat n), rs_length = of_nat n\<rparr>"

fun cell :: "bytes \<Rightarrow> nat option \<Rightarrow> roc_str \<Rightarrow> bool" where
  "cell bs None s \<longleftrightarrow> length bs < 24 \<and> s = str_of_image (small_image bs)"
| "cell bs (Some p) s \<longleftrightarrow> length bs \<le> isize_max \<and> s = big_str p (length bs)"

fun add_cell :: "store \<Rightarrow> bytes \<Rightarrow> nat option \<Rightarrow> store" where
  "add_cell H bs None = H"
| "add_cell H bs (Some p) = H(p \<mapsto> (8, u64_le 1 @ bs))"

fun drop_cell :: "store \<Rightarrow> nat option \<Rightarrow> store" where
  "drop_cell H None = H"
| "drop_cell H (Some p) = H(p := None)"

lemma shifted_even: "shifted_capacity w AND 1 = 0"
  by (rule bit_word_eqI) (simp only: shifted_capacity_def bit_and_iff bit_push_bit_iff bit_1_iff, simp)

lemma big_str_not_small:
  assumes "n \<le> isize_max"
  shows "\<not> is_small_str (big_str p n)" "str_len (big_str p n) = n" "str_allocation_ptr (big_str p n) = unat (of_nat (p + 8) :: u64)"
proof -
  have "bit n 63 \<Longrightarrow> False" using bit_below [of n 63 63] assms by simp
  then show sm: "\<not> is_small_str (big_str p n)"
    using bit_last_iff [of "of_nat n :: u64"] by (auto simp: is_small_str_def big_str_def bit_of_nat_iff)
  show "str_len (big_str p n) = n"
    using sm assms by (simp add: str_len_def big_str_def unat_of_nat)
  show "str_allocation_ptr (big_str p n) = unat (of_nat (p + 8) :: u64)"
    by (simp add: str_allocation_ptr_def str_is_slice_def big_str_def shifted_even)
qed

lemma str_from_slice_cell:
  assumes "host_ok rh" "reps m H" "from_utf8 (map unat bs) \<noteq> None" "length bs \<le> isize_max"
  shows "returns (str_from_slice bs rh m)
    (\<lambda>s m'. \<exists>c. cell bs c s \<and> (\<forall>p. c = Some p \<longrightarrow> H p = None) \<and> reps m' (add_cell H bs c))"
proof (cases "length bs < 24")
  case True
  then show ?thesis
    using assms by (auto simp: str_from_slice_def small_image_def intro!: exI [of _ None])
next
  case False
  have add: "checked_add_usize ptr_width (length bs) msg = ret (8 + length bs)" for msg
    using assms(4) by (simp add: checked_add_usize_def)
  have eq: "str_from_slice bs rh m = mbind (host_alloc rh 8 (8 + length bs)) (\<lambda>p.
      mbind (store_u64 p 1) (\<lambda>_. mbind (store_bytes (p + 8) bs) (\<lambda>_. ret (big_str p (length bs))))) m"
    using assms(3) False by (auto simp: str_from_slice_def add big_str_def Let_def)
  show ?thesis
    unfolding eq
  proof (rule returns_mbind [where x = "host_alloc rh 8 (8 + length bs)" and m = m,
        OF host_alloc_returns [OF assms(1,2)]], elim conjE exE)
    fix p m1 junk
    assume p: "H p = None" "length junk = 8 + length bs" "reps m1 (H(p \<mapsto> (max 8 8, junk)))"
    obtain m2 where m2: "store_u64 (p + 0) 1 m1 = Inr ((), m2)"
      "reps m2 ((H(p \<mapsto> (max 8 8, junk)))(p \<mapsto> (8, patch 0 (u64_le 1) junk)))"
      using reps_store_u64 [OF p(3), of p 8 junk 0 1] p(2) by auto
    have e1: "patch 0 (u64_le 1) junk = u64_le 1 @ drop 8 junk" by (simp add: patch_def)
    obtain m3 where m3: "store_bytes (p + 8) bs m2 = Inr ((), m3)"
      "reps m3 ((H(p \<mapsto> (8, u64_le 1 @ drop 8 junk)))(p \<mapsto> (8, patch 8 bs (u64_le 1 @ drop 8 junk))))"
      using reps_store_bytes [OF m2(2), of p 8 _ 8 bs] p(2) by (auto simp: e1)
    have "patch 8 bs (u64_le 1 @ drop 8 junk) = u64_le 1 @ bs" using p(2) by (simp add: patch_def)
    then show "returns (mbind (store_u64 p 1) (\<lambda>_. mbind (store_bytes (p + 8) bs) (\<lambda>_. ret (big_str p (length bs)))) m1)
      (\<lambda>s m'. \<exists>c. cell bs c s \<and> (\<forall>p. c = Some p \<longrightarrow> H p = None) \<and> reps m' (add_cell H bs c))"
      using m2(1) m3 p(1) assms(4) by (auto simp: mbind_Inr intro!: exI [of _ "Some p"])
  qed
qed


lemma big_counted:
  assumes "reps m H" "H p = Some (8, u64_le rc @ bs)"
  shows "unat (of_nat (p + 8) :: u64) = p + 8" "counted H (p + 8) 8 8 rc"
  using reps_address [OF assms, of 8] assms block_okD(3) [OF repsD(2) [OF assms]] by (auto simp: counted_def)

text \<open>A string found in the store: its bytes, and that it is unshared.\<close>

definition in_store :: "store \<Rightarrow> bytes \<Rightarrow> nat option \<Rightarrow> bool" where
  "in_store H bs c = (case c of None \<Rightarrow> True | Some p \<Rightarrow> H p = Some (8, u64_le 1 @ bs))"

lemma cell_reads:
  assumes "reps m H" "cell bs c s" "in_store H bs c"
  shows "str_as_slice s m = Inr (bs, m)" "str_len s = length bs" "str_is_unique s m = Inr (True, m)"
proof (atomize (full), cases c)
  case None
  then show "str_as_slice s m = Inr (bs, m) \<and> str_len s = length bs \<and> str_is_unique s m = Inr (True, m)"
    using assms(2) small_str by (simp add: str_is_unique_def ret_def)
next
  case (Some p)
  then have s: "s = big_str p (length bs)" "length bs \<le> isize_max" "H p = Some (8, u64_le 1 @ bs)"
    using assms(2,3) by (auto simp: in_store_def)
  note big = big_counted [OF assms(1) s(3)]
  have "load_bytes (p + 8) (length bs) m = Inr (bs, m)"
    using reps_load_bytes [OF assms(1) s(3), of 8 "length bs"] by simp
  moreover have "unat (rs_bytes s) = p + 8" using big(1) by (simp add: s(1) big_str_def)
  ultimately show "str_as_slice s m = Inr (bs, m) \<and> str_len s = length bs \<and> str_is_unique s m = Inr (True, m)"
    using big_str_not_small [OF s(2), of p] big(1) counted_load [OF assms(1) big(2)]
    by (simp add: s(1) str_as_slice_def str_is_unique_def mbind_def ret_def)
qed

lemma cell_decref:
  assumes "host_ok rh" "reps m H" "cell bs c s" "in_store H bs c"
  shows "\<exists>m'. str_decref s rh m = Inr ((), m') \<and> reps m' (drop_cell H c)"
proof (cases c)
  case None
  then show ?thesis using assms(2,3) small_str(1) by (simp add: str_decref_def ret_def)
next
  case (Some p)
  then have s: "s = big_str p (length bs)" "length bs \<le> isize_max" "H p = Some (8, u64_le 1 @ bs)"
    using assms(3,4) by (auto simp: in_store_def)
  note big = big_counted [OF assms(2) s(3)]
  have "str_on_heap s" "str_allocation_ptr s = p + 8"
    using big_str_not_small [OF s(2), of p] big(1) by (simp_all add: str_on_heap_def s(1))
  then show ?thesis using rc_str.dec_last [OF assms(1) _ assms(2), of s] big(2) Some by simp
qed

lemma add_cell_in_store: "in_store (add_cell H bs c) bs c"
  by (cases c) (simp_all add: in_store_def)

lemma drop_add_cell: "(\<forall>p. c = Some p \<longrightarrow> H p = None) \<Longrightarrow> drop_cell (add_cell H bs c) c = H"
  by (cases c) (auto simp: fun_upd_idem)

lemma add_cell_keeps: "(\<forall>p. c = Some p \<longrightarrow> H p = None) \<Longrightarrow> H q \<noteq> None \<Longrightarrow> add_cell H bs c q = H q"
  by (cases c) auto

text \<open>
  C38. A string given to Roc is the text it was made from.  Making one from valid UTF-8 of any length
  ends the process for want of memory, or returns a string, small or in a block of its own, that has
  those bytes and their number, is unshared, and leaves every other block of memory as it was;
  releasing it then gives back exactly the memory it took.  Nothing panics and nothing is undefined.
\<close>

theorem str_roundtrip:
  assumes "sys_ok sa" "reps m H" "from_utf8 (map unat bs) = Some t" "length bs \<le> isize_max"
  shows "returns (str_from_slice bs (plain_host sa) m) (\<lambda>s m1.
    str_as_slice s m1 = Inr (bs, m1) \<and> str_as_str s m1 = Inr (t, m1) \<and> str_len s = length bs \<and>
    str_is_unique s m1 = Inr (True, m1) \<and>
    (\<exists>H1. reps m1 H1 \<and> (\<forall>p. H p \<noteq> None \<longrightarrow> H1 p = H p)) \<and>
    (\<exists>m2. str_decref s (plain_host sa) m1 = Inr ((), m2) \<and> reps m2 H))"
proof -
  note ok = plain_host_ok [OF assms(1)]
  show ?thesis
  proof (rule returns_mono [OF str_from_slice_cell [OF ok assms(2) _ assms(4)]], goal_cases)
    case 1
    then show ?case using assms(3) by simp
  next
    case (2 s m1)
    then obtain c where c: "cell bs c s" "\<forall>p. c = Some p \<longrightarrow> H p = None" "reps m1 (add_cell H bs c)" by blast
    note r = cell_reads [OF c(3,1) add_cell_in_store]
    have "str_as_str s m1 = Inr (t, m1)"
      using r(1) assms(3) by (simp add: str_as_str_def mbind_def ret_def)
    moreover have "\<exists>m2. str_decref s (plain_host sa) m1 = Inr ((), m2) \<and> reps m2 H"
      using cell_decref [OF ok c(3,1) add_cell_in_store] drop_add_cell [OF c(2)] by simp
    ultimately show ?case using r c(3) add_cell_keeps [OF c(2)] by blast
  qed
qed

text \<open>A string of thirty letters, made in an empty memory.\<close>

lemma demo_utf8: "from_utf8 (map unat (replicate 30 (97 :: u8))) = Some (replicate 30 97)"
proof -
  have "concat (map utf8_char (replicate 30 97)) = map unat (replicate 30 (97 :: u8))" by (simp add: utf8_char_def)
  then show ?thesis using from_utf8_utf8 [of "replicate 30 97"] by (simp add: is_scalar_def)
qed

lemma demo_made: "str_from_slice (replicate 30 97) (plain_host bump) empty_memory \<noteq> Inl Exits"
  using demo_utf8
  by (simp add: str_from_slice_def checked_add_usize_def host_alloc_def plain_host_def
      alloc_def try_alloc_def mbind_def ret_def fail_def sys_alloc_def bump_def empty_memory_def
      place_def top_of_def layout_ok_def is_power_of_two_def store_u64_def store_bytes_def can_write_def within_def upt_rec)

lemma demo_str:
  obtains s p m1 where "str_from_slice (replicate 30 97) (plain_host bump) empty_memory = Inr (s, m1)"
    "cell (replicate 30 97) (Some p) s" "reps m1 (add_cell Map.empty (replicate 30 97) (Some p))"
proof -
  note made = str_from_slice_cell [OF plain_host_ok [OF bump_ok] reps_empty, of "replicate 30 97"]
  obtain s m1 c where "str_from_slice (replicate 30 97) (plain_host bump) empty_memory = Inr (s, m1)"
    "cell (replicate 30 97) c s" "reps m1 (add_cell Map.empty (replicate 30 97) c)"
    using made demo_utf8 demo_made by (cases "str_from_slice (replicate 30 97) (plain_host bump) empty_memory") auto
  then show ?thesis using that by (cases c) auto
qed

theorem str_roundtrip_witness:
  "returns (str_from_slice (replicate 30 97) (plain_host bump) empty_memory)
     (\<lambda>s m1. str_as_slice s m1 = Inr (replicate 30 97, m1) \<and> str_len s = 30) \<and>
   str_from_slice (replicate 30 97) (plain_host bump) empty_memory \<noteq> Inl Exits"
proof
  show "returns (str_from_slice (replicate 30 97) (plain_host bump) empty_memory)
     (\<lambda>s m1. str_as_slice s m1 = Inr (replicate 30 97, m1) \<and> str_len s = 30)"
    by (rule returns_mono [OF str_roundtrip [OF bump_ok reps_empty demo_utf8]]) simp_all
qed (rule demo_made)

text \<open>The store when \<open>k\<close> references to a block are left.\<close>

definition left_with :: "store \<Rightarrow> nat \<Rightarrow> nat \<Rightarrow> nat \<Rightarrow> store" where
  "left_with H d header k = (if k = 0 then H(d - header := None) else set_count H d header (of_nat k))"

text \<open>
  C39. Strings, lists and boxes are freed exactly when their last reference is dropped.  From \<open>n\<close>
  references, any sequence of taking and dropping references that never uses one it has not got
  leaves the block with its count at the references left, or frees it when none is left, with the
  size and alignment it was allocated with; no other block changes.
\<close>

theorem references_exact:
  assumes "sys_ok sa" "reps m H" "0 < n" "n \<le> isize_max" "refs_after n es = Some k"
  shows "(\<forall>s. str_on_heap s \<longrightarrow> counted H (str_allocation_ptr s) 8 8 (of_nat n) \<longrightarrow>
      (\<exists>m'. run_refs str_decref str_incref s (plain_host sa) es m = Inr ((), m') \<and>
         reps m' (left_with H (str_allocation_ptr s) 8 k))) \<and>
    (\<forall>e l. list_on_heap (e, l) \<longrightarrow>
      counted H (list_allocation_ptr l) (header_of (el_counted e) (el_align e)) (max (el_align e) 8) (of_nat n) \<longrightarrow>
      (\<exists>m'. run_refs (\<lambda>(e, l). list_decref e l) (\<lambda>(e, l). list_incref l) (e, l) (plain_host sa) es m = Inr ((), m') \<and>
         reps m' (left_with H (list_allocation_ptr l) (header_of (el_counted e) (el_align e)) k))) \<and>
    (\<forall>p a c. p \<noteq> 0 \<longrightarrow> counted H p (header_of c a) (max 8 a) (of_nat n) \<longrightarrow>
      (\<exists>m'. run_refs (\<lambda>(p, a, c) rh. decref_box_with p a c None rh) (\<lambda>(p, a, c) k. incref_box p k) (p, a, c) (plain_host sa) es m = Inr ((), m') \<and>
         reps m' (left_with H p (header_of c a) k)))"
proof (intro conjI allI impI)
  note ok = plain_host_ok [OF assms(1)]
  fix s assume "str_on_heap s" "counted H (str_allocation_ptr s) 8 8 (of_nat n)"
  then show "\<exists>m'. run_refs str_decref str_incref s (plain_host sa) es m = Inr ((), m') \<and>
      reps m' (left_with H (str_allocation_ptr s) 8 k)"
    using rc_str.refs_exact [OF ok _ assms(2) _ assms(3-5), of s] by (simp add: left_with_def)
next
  note ok = plain_host_ok [OF assms(1)]
  fix e l assume "list_on_heap (e, l)"
    "counted H (list_allocation_ptr l) (header_of (el_counted e) (el_align e)) (max (el_align e) 8) (of_nat n)"
  then show "\<exists>m'. run_refs (\<lambda>(e, l). list_decref e l) (\<lambda>(e, l). list_incref l) (e, l) (plain_host sa) es m = Inr ((), m') \<and>
      reps m' (left_with H (list_allocation_ptr l) (header_of (el_counted e) (el_align e)) k)"
    using rc_list.refs_exact [OF ok _ assms(2) _ assms(3-5), of "(e, l)"]
    unfolding left_with_def prod.case fst_conv by simp
next
  note ok = plain_host_ok [OF assms(1)]
  fix p a :: nat and c assume "p \<noteq> 0" "counted H p (header_of c a) (max 8 a) (of_nat n)"
  moreover have "max (max 8 a) 8 = max 8 a" by simp
  ultimately show "\<exists>m'. run_refs (\<lambda>(p, a, c) rh. decref_box_with p a c None rh) (\<lambda>(p, a, c) k. incref_box p k) (p, a, c) (plain_host sa) es m =
      Inr ((), m') \<and> reps m' (left_with H p (header_of c a) k)"
    using rc_box.refs_exact [OF ok _ assms(2) _ assms(3-5), of "(p, a, c)"]
    unfolding left_with_def prod.case fst_conv snd_conv by simp
qed

theorem references_exact_witness:
  "\<exists>s m p. str_on_heap s \<and> reps m [p \<mapsto> (8, u64_le 1 @ replicate 30 97)] \<and>
     (\<exists>m'. run_refs str_decref str_incref s (plain_host bump) [Retain 2, Drop, Drop, Drop] m = Inr ((), m') \<and>
        reps m' Map.empty)"
proof -
  obtain s p m1 where d: "cell (replicate 30 97) (Some p) s" "reps m1 (add_cell Map.empty (replicate 30 97) (Some p))"
    by (rule demo_str)
  let ?H = "[p \<mapsto> (8, u64_le 1 @ replicate 30 (97 :: u8))]"
  have r: "reps m1 ?H" using d(2) by simp
  have s: "s = big_str p 30" using d(1) by simp
  note big = big_counted [OF r, of p 1 "replicate 30 97"]
  have h: "str_on_heap s" "str_allocation_ptr s = p + 8"
    using big_str_not_small [of 30 p] big(1) by (simp_all add: s str_on_heap_def)
  have "refs_after 1 [Retain 2, Drop, Drop, Drop] = Some 0" by simp
  then have "\<exists>m'. run_refs str_decref str_incref s (plain_host bump) [Retain 2, Drop, Drop, Drop] m1 = Inr ((), m') \<and>
      reps m' (left_with ?H (p + 8) 8 0)"
    using references_exact [OF bump_ok r, of 1 "[Retain 2, Drop, Drop, Drop]" 0] h big(2) by auto
  moreover have "left_with ?H (p + 8) 8 0 = Map.empty" by (simp add: left_with_def)
  ultimately show ?thesis using h(1) r by metis
qed


section \<open>Lists in memory\<close>

text \<open>The block of a new list of \<open>n\<close> elements: its count of references is 1, its count of elements \<open>n\<close>.\<close>

definition list_block :: "element \<Rightarrow> nat \<Rightarrow> bytes \<Rightarrow> bool" where
  "list_block e n blk \<longleftrightarrow> length blk = header_of (el_counted e) (el_align e) + n * el_size e \<and>
     take 8 (drop (header_of (el_counted e) (el_align e) - 8) blk) = u64_le 1 \<and>
     (el_counted e \<longrightarrow> take 8 (drop (header_of (el_counted e) (el_align e) - 16) blk) = u64_le (of_nat n))"

definition new_list :: "element \<Rightarrow> nat \<Rightarrow> nat \<Rightarrow> roc_list" where
  "new_list e p n = \<lparr>rl_elements = of_nat (p + header_of (el_counted e) (el_align e)), rl_length = of_nat n,
     rl_cap = shifted_capacity (of_nat n)\<rparr>"

lemma header_ge: "8 \<le> header_of c a" "c \<Longrightarrow> 16 \<le> header_of c a"
  by (auto simp: header_of_def le_max_iff_disj)

lemma take_drop_patch:
  "k + length xs \<le> length bs \<Longrightarrow> take (length xs) (drop k (patch k xs bs)) = xs"
  by (simp add: patch_def)

lemma take_drop_patch_before:
  "j + n \<le> k \<Longrightarrow> k \<le> length bs \<Longrightarrow> take n (drop j (patch k xs bs)) = take n (drop j bs)"
  by (simp add: patch_def drop_take)

lemma take_drop_patch_after:
  "k + length xs \<le> j \<Longrightarrow> k + length xs \<le> length bs \<Longrightarrow> drop j (patch k xs bs) = drop j bs"
  by (simp add: patch_def)

lemma list_allocate_returns:
  assumes "host_ok rh" "reps m H" "0 < n" "8 dvd header_of (el_counted e) (el_align e)"
    and "n * el_size e + header_of (el_counted e) (el_align e) \<le> usize_max"
  shows "returns (list_allocate e n rh m) (\<lambda>l m'. \<exists>p blk. H p = None \<and> list_block e n blk \<and>
    reps m' (H(p \<mapsto> (max (el_align e) 8, blk))) \<and> l = new_list e p n)"
proof -
  define h where "h = header_of (el_counted e) (el_align e)"
  note h8 = header_ge [of "el_counted e" "el_align e", folded h_def]
  have lb: "list_block e n blk \<longleftrightarrow> length blk = h + n * el_size e \<and> take 8 (drop (h - 8) blk) = u64_le 1 \<and>
      (el_counted e \<longrightarrow> take 8 (drop (h - 16) blk) = u64_le (of_nat n))" for blk
    by (simp only: list_block_def h_def)
  have eq: "list_allocate e n rh m = mbind (host_alloc rh (max (el_align e) 8) (n * el_size e + h)) (\<lambda>p.
      mbind (store_u64 (p + h - 8) 1) (\<lambda>_. mbind (if el_counted e then store_u64 (p + h - 16) (of_nat n) else ret ()) (\<lambda>_.
      ret (new_list e p n)))) m"
    using assms(3,5)
    by (simp add: list_allocate_def checked_mul_usize_def checked_add_usize_def h_def [symmetric] new_list_def Let_def)
  show ?thesis
    unfolding eq
  proof (rule returns_mbind [where x = "host_alloc rh (max (el_align e) 8) (n * el_size e + h)" and m = m,
        OF host_alloc_returns [OF assms(1,2)]], elim conjE exE)
    fix p m1 junk
    assume p: "H p = None" "length junk = n * el_size e + h" "reps m1 (H(p \<mapsto> (max (max (el_align e) 8) 8, junk)))"
    let ?a = "max (el_align e) 8"
    define b1 where "b1 = patch (h - 8) (u64_le 1) junk"
    have l1: "length b1 = n * el_size e + h" "take 8 (drop (h - 8) b1) = u64_le 1"
      using p(2) h8 take_drop_patch [of "h - 8" "u64_le 1" junk] by (simp_all add: b1_def)
    obtain m2 where m2: "store_u64 (p + h - 8) 1 m1 = Inr ((), m2)" "reps m2 (H(p \<mapsto> (?a, b1)))"
      using reps_store_u64 [OF p(3), of p ?a junk "h - 8" 1] p(2) h8 assms(4)
      by (auto simp: h_def [symmetric] b1_def dvd_diff_nat)
    have "\<exists>m3 blk. (if el_counted e then store_u64 (p + h - 16) (of_nat n) else ret ()) m2 = Inr ((), m3) \<and>
        list_block e n blk \<and> reps m3 (H(p \<mapsto> (?a, blk)))"
    proof (cases "el_counted e")
      case False
      then show ?thesis using l1 m2(2) by (auto simp: lb ret_def add.commute intro!: exI [of _ b1])
    next
      case True
      define b2 where "b2 = patch (h - 16) (u64_le (of_nat n)) b1"
      note h16 = h8(2) [OF True]
      have "drop (h - 8) b2 = drop (h - 8) b1"
        unfolding b2_def using h16 l1(1) by (intro take_drop_patch_after) simp_all
      then have "list_block e n b2"
        using l1 h16 take_drop_patch [of "h - 16" "u64_le (of_nat n)" b1]
        by (simp add: lb b2_def)
      moreover have "8 dvd h - 16" using assms(4) by (simp add: h_def dvd_diff_nat)
      then have "\<exists>m3. store_u64 (p + h - 16) (of_nat n) m2 = Inr ((), m3) \<and> reps m3 (H(p \<mapsto> (?a, b2)))"
        using reps_store_u64 [OF m2(2), of p ?a b1 "h - 16" "of_nat n"] l1(1) h16 by (auto simp: b2_def)
      ultimately show ?thesis using True by auto
    qed
    then obtain m3 blk where m3: "(if el_counted e then store_u64 (p + h - 16) (of_nat n) else ret ()) m2 = Inr ((), m3)"
      "list_block e n blk" "reps m3 (H(p \<mapsto> (?a, blk)))" by blast
    have "mbind (if el_counted e then store_u64 (p + h - 16) (of_nat n) else ret ()) (\<lambda>_. ret (new_list e p n)) m2 =
        Inr (new_list e p n, m3)"
      unfolding mbind_def using m3(1) by (simp add: ret_def)
    then show "returns (mbind (store_u64 (p + h - 8) 1) (\<lambda>_. mbind (if el_counted e then store_u64 (p + h - 16) (of_nat n) else ret ()) (\<lambda>_.
        ret (new_list e p n))) m1)
      (\<lambda>l m'. \<exists>p blk. H p = None \<and> list_block e n blk \<and> reps m' (H(p \<mapsto> (max (el_align e) 8, blk))) \<and> l = new_list e p n)"
      using m2(1) p(1) m3(2,3) by (simp add: mbind_Inr [where x = "store_u64 (p + h - 8) 1"] del: mbind_ret) blast
  qed
qed


lemma new_list_fields:
  assumes "reps m H" "H p = Some (a, blk)" "header_of (el_counted e) (el_align e) \<le> length blk" "n \<le> usize_max"
  shows "unat (rl_elements (new_list e p n)) = p + header_of (el_counted e) (el_align e)"
    "rl_elements (new_list e p n) \<noteq> 0" "unat (rl_length (new_list e p n)) = n"
    "list_allocation_ptr (new_list e p n) = p + header_of (el_counted e) (el_align e)"
    "\<not> list_is_slice (new_list e p n)"
proof -
  show u: "unat (rl_elements (new_list e p n)) = p + header_of (el_counted e) (el_align e)"
    using reps_address [OF assms(1-3)] by (simp add: new_list_def)
  then show "rl_elements (new_list e p n) \<noteq> 0"
    using header_ge(1) [of "el_counted e" "el_align e"] by (metis add_eq_0_iff_both_eq_0 not_numeral_le_zero unat_0)
  show "unat (rl_length (new_list e p n)) = n"
    using assms(4) by (simp add: new_list_def) (subst unat_of_nat, simp)
  show sl: "\<not> list_is_slice (new_list e p n)" by (simp add: list_is_slice_def new_list_def shifted_even)
  show "list_allocation_ptr (new_list e p n) = p + header_of (el_counted e) (el_align e)"
    using sl u by (simp add: list_allocation_ptr_def)
qed

lemma chunks_concat: "0 < n \<Longrightarrow> (\<And>x. x \<in> set xs \<Longrightarrow> length x = n) \<Longrightarrow> chunks n (concat xs) = xs"
  by (induction xs) (auto simp: chunks.simps)

lemma patch_patch:
  "k + length xs + length ys \<le> length bs \<Longrightarrow> patch (k + length xs) ys (patch k xs bs) = patch k (xs @ ys) bs"
  by (simp add: patch_def ac_simps)

section \<open>The command line\<close>

definition arg_bytes :: "str \<Rightarrow> bytes" where
  "arg_bytes t = map of_nat (concat (map utf8_char t))"

definition arg_ok :: "str \<Rightarrow> bool" where
  "arg_ok t \<longleftrightarrow> (\<forall>c \<in> set t. is_scalar c) \<and> length (arg_bytes t) \<le> isize_max"

lemma arg_bytes_utf8: "arg_ok t \<Longrightarrow> from_utf8 (map unat (arg_bytes t)) = Some t"
proof -
  assume t: "arg_ok t"
  have "unat (of_nat b :: u8) = b" if "b \<in> set (concat (map utf8_char t))" for b
    using that t utf8_char_byte by (fastforce simp: arg_ok_def unat_of_nat)
  then have "map unat (arg_bytes t) = concat (map utf8_char t)"
    unfolding arg_bytes_def map_map by (intro map_idI) simp
  then show ?thesis using from_utf8_utf8 [of t] t by (simp add: arg_ok_def)
qed

text \<open>Several strings, each with how it holds its bytes.\<close>

fun add_cells :: "store \<Rightarrow> (bytes \<times> nat option) list \<Rightarrow> store" where
  "add_cells H [] = H"
| "add_cells H ((bs, c) # xs) = add_cells (add_cell H bs c) xs"

fun new_cells :: "store \<Rightarrow> (bytes \<times> nat option) list \<Rightarrow> bool" where
  "new_cells H [] = True"
| "new_cells H ((bs, c) # xs) \<longleftrightarrow> (\<forall>p. c = Some p \<longrightarrow> H p = None) \<and> new_cells (add_cell H bs c) xs"

lemma add_cells_upd:
  "H L \<noteq> None \<Longrightarrow> new_cells H xs \<Longrightarrow>
     add_cells (H(L \<mapsto> v)) xs = (add_cells H xs)(L \<mapsto> v) \<and> new_cells (H(L \<mapsto> v)) xs"
proof (induction xs arbitrary: H)
  case (Cons x xs)
  obtain bs c where x: "x = (bs, c)" by fastforce
  have c: "\<forall>p. c = Some p \<longrightarrow> H p = None" "new_cells (add_cell H bs c) xs" using Cons(3) x by simp_all
  then have "L \<noteq> p" if "c = Some p" for p using Cons(2) that by auto
  then have eq: "add_cell (H(L \<mapsto> v)) bs c = (add_cell H bs c)(L \<mapsto> v)"
    by (cases c) (auto simp: fun_upd_twist)
  have "add_cell H bs c L \<noteq> None" using add_cell_keeps [OF c(1) Cons(2)] Cons(2) by simp
  then have "add_cells ((add_cell H bs c)(L \<mapsto> v)) xs = (add_cells (add_cell H bs c) xs)(L \<mapsto> v) \<and>
      new_cells ((add_cell H bs c)(L \<mapsto> v)) xs" by (rule Cons.IH [OF _ c(2)])
  moreover have "\<forall>p. c = Some p \<longrightarrow> (H(L \<mapsto> v)) p = None" using c(1) Cons(2) by auto
  ultimately show ?case unfolding x add_cells.simps new_cells.simps eq by blast
qed simp

lemma add_cells_keeps: "new_cells H xs \<Longrightarrow> H q \<noteq> None \<Longrightarrow> add_cells H xs q = H q"
proof (induction xs arbitrary: H)
  case (Cons x xs)
  then show ?case by (cases x) (use add_cell_keeps in \<open>auto simp del: not_None_eq\<close>)
qed simp

lemma add_cells_in_store: "new_cells H xs \<Longrightarrow> (bs, c) \<in> set xs \<Longrightarrow> in_store (add_cells H xs) bs c"
proof (induction xs arbitrary: H)
  case (Cons x xs)
  show ?case
  proof (cases "x = (bs, c)")
    case True
    then show ?thesis
      using Cons(2) add_cells_keeps [of "add_cell H bs c" xs] by (cases c) (auto simp: in_store_def)
  next
    case False
    then show ?thesis using Cons by (cases x) auto
  qed
qed simp

lemma drop_add_cells_Some:
  "H p = None \<Longrightarrow> new_cells (H(p \<mapsto> v)) xs \<Longrightarrow>
     (add_cells (H(p \<mapsto> v)) xs)(p := None) = add_cells H xs \<and> new_cells H xs"
proof (induction xs arbitrary: H)
  case (Cons x xs)
  obtain bs c where x: "x = (bs, c)" by fastforce
  show ?case
  proof (cases c)
    case None
    then show ?thesis using Cons x by simp
  next
    case (Some q)
    then have q: "q \<noteq> p" "H q = None" using Cons(3) x by (auto split: if_splits)
    let ?H = "H(q \<mapsto> (8, u64_le 1 @ bs))"
    have eq: "(H(p \<mapsto> v))(q \<mapsto> (8, u64_le 1 @ bs)) = ?H(p \<mapsto> v)" using q by (simp add: fun_upd_twist)
    have "new_cells (?H(p \<mapsto> v)) xs" using Cons(3) unfolding x Some new_cells.simps add_cell.simps eq by blast
    then have "(add_cells (?H(p \<mapsto> v)) xs)(p := None) = add_cells ?H xs \<and> new_cells ?H xs"
      using Cons.IH [of ?H] Cons(2) q(1) by (metis fun_upd_other)
    moreover have "\<forall>r. Some q = Some r \<longrightarrow> H r = None" using q(2) by simp
    ultimately show ?thesis unfolding x Some new_cells.simps add_cells.simps add_cell.simps eq by blast
  qed
qed (simp add: fun_upd_idem)

lemma drop_add_cells:
  "new_cells H ((bs, c) # xs) \<Longrightarrow> drop_cell (add_cells H ((bs, c) # xs)) c = add_cells H xs \<and> new_cells H xs"
  using drop_add_cells_Some by (cases c) auto


definition cells :: "(bytes \<times> nat option) list \<Rightarrow> roc_str list \<Rightarrow> bool" where
  "cells xs ss = list_all2 (\<lambda>(bs, c) s. cell bs c s) xs ss"

lemma str_from_str_cell:
  assumes "host_ok rh" "reps m H" "arg_ok t"
  shows "returns (str_from_str t rh m)
    (\<lambda>s m'. \<exists>c. cell (arg_bytes t) c s \<and> (\<forall>p. c = Some p \<longrightarrow> H p = None) \<and> reps m' (add_cell H (arg_bytes t) c))"
  unfolding str_from_str_def arg_bytes_def [symmetric]
  by (rule str_from_slice_cell [OF assms(1,2)]) (use assms(3) arg_bytes_utf8 in \<open>auto simp: arg_ok_def\<close>)

lemma write_args_returns:
  assumes "host_ok rh"
  shows "reps m H \<Longrightarrow> H L = Some (8, blk) \<Longrightarrow> 16 + (i + length ts) * 24 \<le> length blk \<Longrightarrow> \<forall>t \<in> set ts. arg_ok t \<Longrightarrow>
    returns (write_args (L + 16) i ts rh m) (\<lambda>_ m'. \<exists>xs ss. map fst xs = map arg_bytes ts \<and> cells xs ss \<and> new_cells H xs \<and>
      reps m' (add_cells (H(L \<mapsto> (8, patch (16 + i * 24) (concat (map str_image ss)) blk))) xs))"
proof (induction ts arbitrary: i m H blk)
  case Nil
  have "patch (16 + i * 24) [] blk = blk" by (simp add: patch_def)
  moreover have "H(L \<mapsto> (8, blk)) = H" using Nil(2) by (rule fun_upd_idem)
  ultimately have "reps m (add_cells (H(L \<mapsto> (8, patch (16 + i * 24) (concat (map str_image [])) blk))) [])"
    using Nil(1) by (simp only: list.map concat.simps add_cells.simps)
  moreover have "cells [] []" "new_cells H []" by (simp_all add: cells_def)
  ultimately show ?case
    unfolding write_args.simps returns_simps by (intro exI [of _ "[]"] conjI) (simp_all only: list.map)
next
  case (Cons t ts)
  show ?case
    unfolding write_args.simps
  proof (rule returns_mbind [where x = "str_from_str t rh" and m = m, OF str_from_str_cell [OF assms Cons(2)]], goal_cases)
    case 1
    then show ?case using Cons(5) by simp
  next
    case (2 s m1)
    then obtain c where c: "cell (arg_bytes t) c s" "\<forall>p. c = Some p \<longrightarrow> H p = None" "reps m1 (add_cell H (arg_bytes t) c)"
      by blast
    let ?H = "add_cell H (arg_bytes t) c" and ?k = "16 + i * 24"
    have L: "?H L = Some (8, blk)" using add_cell_keeps [OF c(2), of L] Cons(3) by simp
    define b1 where "b1 = patch ?k (str_image s) blk"
    have len: "?k + length (str_image s) \<le> length blk" "length b1 = length blk"
      using Cons(4) by (simp_all add: b1_def)
    obtain m2 where m2: "store_bytes (L + 16 + i * 24) (str_image s) m1 = Inr ((), m2)" "reps m2 (?H(L \<mapsto> (8, b1)))"
      using reps_store_bytes [OF c(3) L len(1)] by (auto simp: b1_def add.assoc)
    have "returns (write_args (L + 16) (i + 1) ts rh m2) (\<lambda>_ m'. \<exists>xs ss. map fst xs = map arg_bytes ts \<and> cells xs ss \<and>
        new_cells (?H(L \<mapsto> (8, b1))) xs \<and>
        reps m' (add_cells (?H(L \<mapsto> (8, b1), L \<mapsto> (8, patch (16 + (i + 1) * 24) (concat (map str_image ss)) b1))) xs))"
      by (rule Cons.IH [OF m2(2)]) (use Cons(4,5) len in auto)
    then have "returns (write_args (L + 16) (i + 1) ts rh m2) (\<lambda>_ m'. \<exists>xs ss. map fst xs = map arg_bytes (t # ts) \<and> cells xs ss \<and>
        new_cells H xs \<and> reps m' (add_cells (H(L \<mapsto> (8, patch ?k (concat (map str_image ss)) blk))) xs))"
    proof (rule returns_mono, elim exE conjE)
      fix m' xs ss
      assume xs: "map fst xs = map arg_bytes ts" "cells xs ss" "new_cells (?H(L \<mapsto> (8, b1))) xs"
        "reps m' (add_cells (?H(L \<mapsto> (8, b1), L \<mapsto> (8, patch (16 + (i + 1) * 24) (concat (map str_image ss)) b1))) xs)"
      have len_ss: "length ss = length ts" using xs(1,2) by (metis cells_def length_map list_all2_lengthD)
      have lc: "length (concat (map str_image ss)) = length ts * 24"
        using len_ss by (simp add: length_concat comp_def sum_list_triv)
      have pp: "patch (16 + (i + 1) * 24) (concat (map str_image ss)) b1 = patch ?k (concat (map str_image (s # ss))) blk"
        using patch_patch [of ?k "str_image s" "concat (map str_image ss)" blk] Cons(4) lc by (simp add: b1_def)
      define v where "v = (8 :: nat, patch ?k (concat (map str_image (s # ss))) blk)"
      have "L \<noteq> p" if "c = Some p" for p using c(2) that Cons(3) by auto
      then have tw: "?H(L \<mapsto> v) = add_cell (H(L \<mapsto> v)) (arg_bytes t) c" by (cases c) (auto simp: fun_upd_twist)
      have "?H = (?H(L \<mapsto> (8, b1)))(L \<mapsto> (8, blk))" using L by (simp add: fun_upd_idem)
      moreover have "new_cells ((?H(L \<mapsto> (8, b1)))(L \<mapsto> (8, blk))) xs"
        using add_cells_upd [OF _ xs(3), of L "(8, blk)"] by simp
      ultimately have "new_cells ?H xs" by metis
      then have "new_cells H ((arg_bytes t, c) # xs)" using c(2) by simp
      moreover have "reps m' (add_cells (H(L \<mapsto> v)) ((arg_bytes t, c) # xs))"
        using xs(4) unfolding pp fun_upd_upd v_def [symmetric] tw add_cells.simps .
      moreover have "cells ((arg_bytes t, c) # xs) (s # ss)" using xs(2) c(1) by (simp add: cells_def)
      moreover have "map fst ((arg_bytes t, c) # xs) = map arg_bytes (t # ts)" using xs(1) by simp
      ultimately show "\<exists>xs ss. map fst xs = map arg_bytes (t # ts) \<and> cells xs ss \<and> new_cells H xs \<and>
          reps m' (add_cells (H(L \<mapsto> (8, patch ?k (concat (map str_image ss)) blk))) xs)"
        unfolding v_def by (intro exI [of _ "(arg_bytes t, c) # xs"] exI [of _ "s # ss"] conjI)
    qed
    then show ?case
      unfolding mbind_Inr [where x = "store_bytes (L + 16 + i * 24) (str_image s)" and m = m1, OF m2(1)] .
  qed
qed

text \<open>Reading a list of strings back.\<close>

fun map_op :: "('a \<Rightarrow> 'b op) \<Rightarrow> 'a list \<Rightarrow> 'b list op" where
  "map_op f [] = ret []"
| "map_op f (x # xs) = mbind (f x) (\<lambda>y. mbind (map_op f xs) (\<lambda>ys. ret (y # ys)))"

definition read_args :: "roc_list \<Rightarrow> str list op" where
  "read_args l = mbind (list_as_slice str_element l) (map_op (\<lambda>im. str_as_str (str_of_image im)))"

lemma map_op_cells:
  assumes "reps m S"
  shows "cells xs ss \<Longrightarrow> \<forall>(bs, c) \<in> set xs. in_store S bs c \<Longrightarrow> map fst xs = map arg_bytes ts \<Longrightarrow> \<forall>t \<in> set ts. arg_ok t \<Longrightarrow>
    map_op (\<lambda>im. str_as_str (str_of_image im)) (map str_image ss) m = Inr (ts, m)"
proof (induction xs arbitrary: ss ts)
  case (Cons x xs)
  obtain bs c where x: "x = (bs, c)" by fastforce
  obtain s ss' where ss: "ss = s # ss'" "cell bs c s" "cells xs ss'" using Cons(2) x by (auto simp: cells_def list_all2_Cons1)
  obtain t ts' where ts: "ts = t # ts'" "bs = arg_bytes t" "map fst xs = map arg_bytes ts'" using Cons(4) x by (cases ts) auto
  have "str_as_slice s m = Inr (arg_bytes t, m)"
    using cell_reads(1) [OF assms ss(2)] Cons(3) x ts(2) by simp
  then have "str_as_str s m = Inr (t, m)"
    using arg_bytes_utf8 [of t] Cons(5) ts(1) by (simp add: str_as_str_def mbind_def ret_def)
  moreover have "map_op (\<lambda>im. str_as_str (str_of_image im)) (map str_image ss') m = Inr (ts', m)"
    using Cons.IH [OF ss(3) _ ts(3)] Cons(3,5) ts(1) by simp
  ultimately show ?case by (simp add: ss(1) ts(1) mbind_def ret_def)
qed (simp add: cells_def ret_def)

lemma release_cells:
  assumes "host_ok rh"
  shows "reps m (add_cells H xs) \<Longrightarrow> cells xs ss \<Longrightarrow> new_cells H xs \<Longrightarrow>
    \<exists>m'. each_op (\<lambda>im. release_str im rh) (map str_image ss) m = Inr ((), m') \<and> reps m' H"
proof (induction xs arbitrary: ss m H)
  case (Cons x xs)
  obtain bs c where x: "x = (bs, c)" by fastforce
  obtain s ss' where ss: "ss = s # ss'" "cell bs c s" "cells xs ss'" using Cons(3) x by (auto simp: cells_def list_all2_Cons1)
  have "in_store (add_cells H (x # xs)) bs c" using add_cells_in_store [OF Cons(4)] x by simp
  from cell_decref [OF assms Cons(2) ss(2) this] obtain m1 where
    m1: "str_decref s rh m = Inr ((), m1)" "reps m1 (drop_cell (add_cells H (x # xs)) c)" by blast
  have d: "drop_cell (add_cells H (x # xs)) c = add_cells H xs" "new_cells H xs"
    using drop_add_cells [of H bs c xs] Cons(4) x by blast+
  obtain m2 where "each_op (\<lambda>im. release_str im rh) (map str_image ss') m1 = Inr ((), m2)" "reps m2 H"
    using Cons.IH [OF _ ss(3) d(2), of m1] m1(2) d(1) by auto
  then show ?case using m1(1) by (simp add: ss(1) release_str_def mbind_Inr)
qed (simp add: cells_def ret_def)


text \<open>A list of strings in the store: the block of the list and the cells of its strings.\<close>

definition args_in :: "store \<Rightarrow> nat \<Rightarrow> (bytes \<times> nat option) list \<Rightarrow> roc_str list \<Rightarrow> u64 \<Rightarrow> store \<Rightarrow> bool" where
  "args_in H L xs ss rc S \<longleftrightarrow> H L = None \<and> cells xs ss \<and>
     (\<exists>blk. S = add_cells (H(L \<mapsto> (8, blk))) xs \<and> new_cells (H(L \<mapsto> (8, blk))) xs \<and>
        length blk = 16 + length ss * 24 \<and> take 8 (drop 8 blk) = u64_le rc \<and> drop 16 blk = concat (map str_image ss))"

lemma str_header [simp]: "header_of True 8 = 16" "el_size str_element = 24"
  "el_align str_element = 8" "el_counted str_element"
  by (simp_all add: str_element_def header_of_def)

lemma build_args_returns:
  assumes "host_ok rh" "reps m H" "\<forall>t \<in> set args. arg_ok t" "args \<noteq> []" "16 + length args * 24 \<le> usize_max"
  shows "returns (build_args_list args rh m) (\<lambda>l m'. \<exists>L xs ss S. l = new_list str_element L (length args) \<and>
    args_in H L xs ss 1 S \<and> length ss = length args \<and> map fst xs = map arg_bytes args \<and> reps m' S)"
proof -
  let ?n = "length args"
  have eq: "build_args_list args rh m = mbind (list_allocate str_element ?n rh) (\<lambda>l.
      mbind (write_args (unat (rl_elements l)) 0 args rh) (\<lambda>_. ret l)) m"
    using assms(4) by (simp add: build_args_list_def)
  have "returns (list_allocate str_element ?n rh m) (\<lambda>l m'. \<exists>p blk. H p = None \<and> list_block str_element ?n blk \<and>
      reps m' (H(p \<mapsto> (max (el_align str_element) 8, blk))) \<and> l = new_list str_element p ?n)"
    by (rule list_allocate_returns [OF assms(1,2)]) (use assms(4,5) in auto)
  then show ?thesis
    unfolding eq
  proof (rule returns_mbind [where x = "list_allocate str_element ?n rh" and m = m], elim exE conjE)
    fix l m1 L blk
    assume a: "H L = None" "list_block str_element ?n blk" "reps m1 (H(L \<mapsto> (max (el_align str_element) 8, blk)))"
      "l = new_list str_element L ?n"
    let ?H = "H(L \<mapsto> (8, blk))"
    have r: "reps m1 ?H" "?H L = Some (8, blk)" using a(3) by simp_all
    have b: "length blk = 16 + ?n * 24" "take 8 (drop 8 blk) = u64_le 1" using a(2) by (simp_all add: list_block_def)
    have el: "unat (rl_elements l) = L + 16"
      using new_list_fields(1) [OF r, of str_element ?n] assms(5) b(1) a(4) by simp
    have "returns (write_args (L + 16) 0 args rh m1) (\<lambda>_ m'. \<exists>xs ss. map fst xs = map arg_bytes args \<and> cells xs ss \<and> new_cells ?H xs \<and>
        reps m' (add_cells (?H(L \<mapsto> (8, patch (16 + 0 * 24) (concat (map str_image ss)) blk))) xs))"
      by (rule write_args_returns [OF assms(1) r]) (use b(1) assms(3) in auto)
    then show "returns (mbind (write_args (unat (rl_elements l)) 0 args rh) (\<lambda>_. ret l) m1)
      (\<lambda>l m'. \<exists>L xs ss S. l = new_list str_element L ?n \<and> args_in H L xs ss 1 S \<and> length ss = ?n \<and>
         map fst xs = map arg_bytes args \<and> reps m' S)"
      unfolding el
    proof (rule returns_mbind [where x = "write_args (L + 16) 0 args rh" and m = m1], elim exE conjE)
      fix m2 xs ss
      let ?b = "patch (16 + 0 * 24) (concat (map str_image ss)) blk"
      assume x: "map fst xs = map arg_bytes args" "cells xs ss" "new_cells ?H xs" "reps m2 (add_cells (?H(L \<mapsto> (8, ?b))) xs)"
      have l: "length ss = ?n" using x(1,2) by (metis cells_def length_map list_all2_lengthD)
      then have lc: "length (concat (map str_image ss)) = ?n * 24" by (simp add: length_concat comp_def sum_list_triv)
      have "new_cells (?H(L \<mapsto> (8, ?b))) xs" using add_cells_upd [OF _ x(3), of L "(8, ?b)"] r(2) by blast
      moreover have "length ?b = 16 + length ss * 24" "take 8 (drop 8 ?b) = u64_le 1" "drop 16 ?b = concat (map str_image ss)"
        using b lc l take_drop_patch_before [of 8 8 16 blk] by (simp_all add: patch_def)
      ultimately have "args_in H L xs ss 1 (add_cells (?H(L \<mapsto> (8, ?b))) xs)"
        unfolding args_in_def fun_upd_upd using a(1) x(2) by blast
      then show "returns (ret l m2) (\<lambda>l m'. \<exists>L xs ss S. l = new_list str_element L ?n \<and> args_in H L xs ss 1 S \<and> length ss = ?n \<and>
          map fst xs = map arg_bytes args \<and> reps m' S)"
        unfolding returns_simps using a(4) l x(1,4) by (intro exI conjI)
    qed
  qed
qed

lemma args_items:
  assumes "reps m S" "args_in H L xs ss rc S" "length ss \<le> usize_max"
  shows "load_items str_element (L + 16) (length ss) m = Inr (map str_image ss, m)"
    "counted S (L + 16) 16 8 rc"
    "args_in H L xs ss rc' (set_count S (L + 16) 16 rc')"
    "unat (rl_elements (new_list str_element L (length ss))) = L + 16" "rl_elements (new_list str_element L (length ss)) \<noteq> 0"
    "unat (rl_length (new_list str_element L (length ss))) = length ss"
    "list_allocation_ptr (new_list str_element L (length ss)) = L + 16" "\<not> list_is_slice (new_list str_element L (length ss))"
proof -
  obtain blk where S: "S = add_cells (H(L \<mapsto> (8, blk))) xs" "new_cells (H(L \<mapsto> (8, blk))) xs"
    and b: "length blk = 16 + length ss * 24" "take 8 (drop 8 blk) = u64_le rc" "drop 16 blk = concat (map str_image ss)"
    and h: "H L = None" "cells xs ss" using assms(2) by (auto simp: args_in_def)
  have L: "S L = Some (8, blk)" unfolding S(1) using add_cells_keeps [OF S(2), of L] by simp
  have ok: "8 dvd L" "8 < L" using block_okD(3,4) [OF repsD(2) [OF assms(1) L]] by simp_all
  have "load_bytes (L + 16) (length ss * 24) m = Inr (concat (map str_image ss), m)"
    using reps_load_bytes [OF assms(1) L, of 16 "length ss * 24"] b
    by (simp add: length_concat comp_def sum_list_triv)
  moreover have "chunks 24 (concat (map str_image ss)) = map str_image ss" by (rule chunks_concat) auto
  ultimately show "load_items str_element (L + 16) (length ss) m = Inr (map str_image ss, m)"
    using ok by (simp add: load_items_def mbind_def ret_def)
  show "counted S (L + 16) 16 8 rc" using L b ok by (auto simp: counted_def)
  show "args_in H L xs ss rc' (set_count S (L + 16) 16 rc')"
  proof -
    let ?b = "patch 8 (u64_le rc') blk"
    have "set_count S (L + 16) 16 rc' = S(L \<mapsto> (8, ?b))" using L by (simp add: set_count_def)
    moreover have upd: "add_cells (H(L \<mapsto> (8, blk), L \<mapsto> (8, ?b))) xs = S(L \<mapsto> (8, ?b)) \<and>
        new_cells (H(L \<mapsto> (8, blk), L \<mapsto> (8, ?b))) xs"
      unfolding S(1) by (rule add_cells_upd [OF _ S(2)]) simp
    ultimately have "set_count S (L + 16) 16 rc' = add_cells (H(L \<mapsto> (8, ?b))) xs" by (simp only: fun_upd_upd)
    moreover have "new_cells (H(L \<mapsto> (8, ?b))) xs" using upd by (simp only: fun_upd_upd)
    moreover have "length ?b = 16 + length ss * 24" "take 8 (drop 8 ?b) = u64_le rc'" "drop 16 ?b = concat (map str_image ss)"
      using b take_drop_patch [of 8 "u64_le rc'" blk] take_drop_patch_after [of 8 "u64_le rc'" 16 blk] by simp_all
    ultimately show ?thesis unfolding args_in_def using h by blast
  qed
  note f = new_list_fields [OF assms(1) L, of str_element "length ss"]
  show "unat (rl_elements (new_list str_element L (length ss))) = L + 16" "rl_elements (new_list str_element L (length ss)) \<noteq> 0"
    "unat (rl_length (new_list str_element L (length ss))) = length ss"
    "list_allocation_ptr (new_list str_element L (length ss)) = L + 16" "\<not> list_is_slice (new_list str_element L (length ss))"
    using f b(1) assms(3) by simp_all
qed


text \<open>
  C40. The command line reaches Roc whole and costs nothing in the end.  Building the list of arguments
  ends the process for want of memory or returns a list from which every argument reads back, in
  order; releasing the list then releases each string once and gives back exactly the memory that
  was taken, however many of the strings were small.  Nothing panics and nothing is undefined.
\<close>

theorem args_list_exact:
  assumes "sys_ok sa" "reps m H" "\<forall>t \<in> set args. arg_ok t" "16 + length args * 24 \<le> usize_max"
  shows "returns (build_args_list args (plain_host sa) m) (\<lambda>l m1. read_args l m1 = Inr (args, m1) \<and>
    (\<exists>m2. release_str_list l (plain_host sa) m1 = Inr ((), m2) \<and> reps m2 H))"
proof (cases "args = []")
  case True
  then show ?thesis
    using assms(2) by (simp add: build_args_list_def read_args_def list_as_slice_def list_empty_def release_str_list_def
        list_release_with_def ret_def)
next
  case False
  note ok = plain_host_ok [OF assms(1)]
  show ?thesis
  proof (rule returns_mono [OF build_args_returns [OF ok assms(2,3) False assms(4)]], elim exE conjE)
    fix l m1 L xs ss S
    assume l: "l = new_list str_element L (length args)" and in_S: "args_in H L xs ss 1 S" and n: "length ss = length args"
      and xs: "map fst xs = map arg_bytes args" and r: "reps m1 S"
    have small: "length ss \<le> usize_max" using n assms(4) by simp
    note it = args_items [OF r in_S small]
    obtain blk where S: "S = add_cells (H(L \<mapsto> (8, blk))) xs" "new_cells (H(L \<mapsto> (8, blk))) xs"
      and h: "H L = None" "cells xs ss" using in_S by (auto simp: args_in_def)
    have "map_op (\<lambda>im. str_as_str (str_of_image im)) (map str_image ss) m1 = Inr (args, m1)"
      by (rule map_op_cells [OF r h(2) _ xs assms(3)]) (use add_cells_in_store [OF S(2)] S(1) in auto)
    then have "read_args l m1 = Inr (args, m1)"
      using it(1,4,5,6) l n by (simp add: read_args_def list_as_slice_def mbind_def)
    moreover have "\<exists>m2. release_str_list l (plain_host sa) m1 = Inr ((), m2) \<and> reps m2 H"
    proof -
      let ?fin = "mbind (mbind (allocation_items str_element l) (\<lambda>items. each_op (\<lambda>x. release_str x (plain_host sa)) items))
        (\<lambda>_. host_dealloc (plain_host sa) (L + 16 - 16) (max 8 8))"
      have "release_str_list l (plain_host sa) = rc_release (L + 16) ?fin"
        using it(5,7) l n by (simp add: release_str_list_def list_release_with_def rc_release_def Let_def cong: if_cong)
      moreover have "\<exists>m2. rc_release (L + 16) ?fin m1 = Inr ((), m2) \<and> reps m2 H"
      proof (rule rc_release_last [OF r it(2)])
        fix m2 assume r2: "reps m2 (set_count S (L + 16) 16 0)"
        note in2 = it(3) [of 0]
        note it2 = args_items [OF r2 in2 small]
        obtain b2 where S2: "set_count S (L + 16) 16 0 = add_cells (H(L \<mapsto> (8, b2))) xs" "new_cells (H(L \<mapsto> (8, b2))) xs"
          using in2 by (auto simp: args_in_def)
        have items: "allocation_items str_element l m2 = Inr (map str_image ss, m2)"
          using it2(1) it(5-8) l n by (simp add: allocation_items_def allocation_element_count_def)
        obtain m3 where m3: "each_op (\<lambda>x. release_str x (plain_host sa)) (map str_image ss) m2 = Inr ((), m3)"
          "reps m3 (H(L \<mapsto> (8, b2)))"
          using release_cells [OF ok _ h(2) S2(2), of m2] r2 S2(1) by auto
        obtain m4 where "host_dealloc (plain_host sa) L (max 8 8) m3 = Inr ((), m4)" "reps m4 (H(L \<mapsto> (8, b2), L := None))"
          by (rule host_dealloc_returns [OF ok m3(2), of L "max 8 8" b2]) auto
        moreover have "H(L \<mapsto> (8, b2), L := None) = H" using h(1) by (simp add: fun_upd_idem)
        ultimately show "\<exists>m'. ?fin m2 = Inr ((), m') \<and> reps m' H"
          using items m3(1) by (simp add: mbind_def)
      qed
      ultimately show ?thesis by simp
    qed
    ultimately show "read_args l m1 = Inr (args, m1) \<and> (\<exists>m2. release_str_list l (plain_host sa) m1 = Inr ((), m2) \<and> reps m2 H)"
      by blast
  qed
qed

theorem args_list_exact_witness:
  "returns (build_args_list [lit ''prog'', replicate 30 97] (plain_host bump) empty_memory) (\<lambda>l m1.
     read_args l m1 = Inr ([lit ''prog'', replicate 30 97], m1) \<and>
     (\<exists>m2. release_str_list l (plain_host bump) m1 = Inr ((), m2) \<and> reps m2 Map.empty))"
proof -
  have "arg_ok (replicate 30 97)" "arg_ok (lit ''prog'')"
    by (simp_all add: arg_ok_def arg_bytes_def is_scalar_def lit_def length_concat)
  then show ?thesis
    by (intro args_list_exact [OF bump_ok reps_empty]) auto
qed

end
