(* ===== verification/Spec2Isabelle.thy ===== *)
theory Spec2Isabelle
  imports Channels_Safety Select Scope Copy Files Log_Queue Noise Stdin Signals Roc_Abi
begin

text \<open>
  The host of roc-net, a platform for network programs written in Roc: a Rust library (\<^verbatim>\<open>src/src\<close>) that
  runs Roc's tasks as coroutines on a few threads and gives them channels, sockets, streams, files,
  standard input, signals and logging through hosted functions.

  \<^bold>\<open>The parts and how they work together.\<close>  The scheduler (\<^verbatim>\<open>sched.rs\<close>) keeps tasks in the run queues of workers.
  A task that has to wait begins a numbered wait, leaves a waker that names it with whatever it waits for,
  and suspends; whoever ends the wait first makes the task runnable again.  Everything that blocks is
  built on that: task locks and helper threads, slots of resource heaps, channels, the end of a task,
  sockets, lines of standard input, signals, and \<^verbatim>\<open>Select\<close>, which waits on several of them at once.  Roc holds
  the host's resources by reference-counted handles, which are addresses of slots in the resource heaps,
  and its own values in memory from the host's allocator.

  \<^bold>\<open>Theories.\<close>
  \<^item> \<open>Prelude\<close>: machine integers, instants and deadlines, I/O errors, text and byte encodings, and the lemmas
    about them that the components share.
  \<^item> \<open>Limits\<close> (\<^verbatim>\<open>limits.rs\<close>): every limit read from the environment.  What is read is in its documented range.
  \<^item> \<open>Sched\<close> (\<^verbatim>\<open>sched.rs\<close>: \<^verbatim>\<open>Task\<close>, \<^verbatim>\<open>schedule\<close>, \<^verbatim>\<open>wake\<close>, \<^verbatim>\<open>begin_wait\<close>, \<^verbatim>\<open>Worker\<close>, \<^verbatim>\<open>steal\<close>, timers, \<^verbatim>\<open>spawn\<close>, \<^verbatim>\<open>Waiters\<close>): the state of
    the scheduler is the record \<open>sched\<close>, whose fields are the atomics and the queues.
    \<open>Sched_Inv\<close> has the steps of workers, tasks and threads as a relation and its invariant; \<open>Sched_Safety\<close> the
    properties: the run queues hold exactly the tasks that are due, each once, no task runs twice at a
    time, no suspended task is lost, timers fire exactly.
  \<^item> \<open>Guard\<close>: the pattern of the comment on \<^verbatim>\<open>Waiters\<close>, in which a task that finds no room registers, tries again,
    suspends and tries again, as the locale \<open>guarded\<close>: its laws are about one list of waiters and what they wait for,
    and its result is that nobody is left asleep while there is room.
  \<^item> \<open>Sync\<close> (\<^verbatim>\<open>Lock\<close> and \<^verbatim>\<open>claim_blocking_slot\<close>), \<open>Resource\<close> (\<^verbatim>\<open>resource.rs\<close>), \<open>Channels\<close> and \<open>Channels_Safety\<close> (\<^verbatim>\<open>channels.rs\<close>):
    each interprets \<open>guarded\<close> on its own operations, channels once for receivers and once for senders.  Locks
    exclude, helper threads are bounded, slots are conserved and handles resolve to what was inserted, channels
    are bounded, first in first out and lose nothing.
  \<^item> \<open>Tasks\<close> (\<^verbatim>\<open>tasks.rs\<close>): spawning against the limit, handles, results, joining, cancelling and scopes.  A spawn takes
    everything or nothing.  \<open>Scope\<close> has the life of a scope, from its group being made to its closing, while anything
    else goes on: every task added before the closing began has finished when it ends.
  \<^item> \<open>Select\<close> (\<^verbatim>\<open>select.rs\<close>, with \<^verbatim>\<open>watch_io\<close> and \<^verbatim>\<open>MultiWait\<close> of \<^verbatim>\<open>sched.rs\<close> and the watches of channels and TLS streams):
    the locale \<open>watchable\<close> is what it relies on in a source, interpreted on receivers, senders, standard input,
    signals and tasks.  It suspends only with every source registered, and takes back what it registered, but for
    the one socket whose re-arming failed, which keeps a wait that has ended.
  \<^item> \<open>Sockets\<close> (\<^verbatim>\<open>sockets.rs\<close>, \<^verbatim>\<open>wait_io\<close>): deadlines, the retry loop, writing everything, closing and aborting.
  \<^item> \<open>Copy\<close> (\<^verbatim>\<open>copy.rs\<close>): copying between streams through a buffer or a pipe.  What the destination accepts is exactly
    what was taken, in order and within the limit.
  \<^item> \<open>Noise\<close> (\<^verbatim>\<open>noise.rs\<close>): framing, nonces, decrypting and delivery.  Only a prefix of what the peer sealed is
    delivered, all of it once it has arrived, and no nonce is used twice.
  \<^item> \<open>Stdin\<close>, \<open>Signals\<close> (\<^verbatim>\<open>stdin.rs\<close>, \<^verbatim>\<open>signals.rs\<close>): the helper threads, their queues and those who wait for them.
  \<^item> \<open>Files\<close> (\<^verbatim>\<open>files.rs\<close>): over a model of a disk in which any call may fail; replacing and creating are atomic.
  \<^item> \<open>Log_Time\<close>, \<open>Log_Format\<close>, \<open>Log_Queue\<close> (\<^verbatim>\<open>log.rs\<close>): the calendar and timestamps, lines as JSON and text, which read
    back, and the bounded queue with its writer thread, which accounts for every line and drains if
    the thread could be started.
  \<^item> \<open>Memory\<close>, \<open>Roc_Abi\<close> (\<^verbatim>\<open>alloc.rs\<close>, the hand-written part of \<^verbatim>\<open>roc_platform_abi.rs\<close>, the arguments of \<^verbatim>\<open>lib.rs\<close>): the
    allocator over memory in bytes, which refines a store of contents by pointer, and on top of it strings,
    lists and boxes; the locale \<open>refcounted\<close> is their contract, freed exactly with the last reference.

  \<^bold>\<open>How code became definitions.\<close>  A structure is a record, a sum a datatype with the source's constructors, a
  \<^verbatim>\<open>Result\<close> a sum whose \<open>Inl\<close> is the error.  Fixed-width integers are words where they wrap, saturate or are
  compared with their limits, and numbers elsewhere.  A function that suspends is cut there (\<open>_attempt\<close> up to the
  suspension, \<open>_again\<close> after it), and the properties of concurrent parts are about every interleaving of these steps.

  \<^bold>\<open>Granularity.\<close>  In channels, locks, heaps, standard input, signals and the log a step is a section under the mutex
  with the wake-ups that follow it.  In the scheduler a step is coarser than the source's atomics: \<open>wake\<close> (the compare and
  exchange of the wait, the store of how it ended, scheduling), \<open>schedule\<close> with the \<open>push\<close> it leads to, \<open>steal\<close> (the test
  of each queue's length and the section under its lock), \<open>begin_wait\<close>, \<open>requeue\<close> and \<open>finish_task\<close> are one step each, so
  interleavings within them are not covered.  Reference counts, in \<open>Tasks\<close> and \<open>Roc_Abi\<close>, are sequential: a
  decrement is a load and a store of one step.  Memory orderings weaker than sequential consistency are not
  distinguished.

  \<^bold>\<open>Liveness.\<close>  That something comes to pass is either that the next step of the scheduler makes it so or, for the
  helper threads, \<open>inevitable\<close> (\<open>Prelude\<close>): every run of the thread's own steps, each enabled only as in the code, gets
  there after finitely many.

  \<^bold>\<open>Loops.\<close>  Nothing uses fuel.  Loops over data are structural or have a termination proof; the loops that end only
  if the outside lets them (retrying an operation on a socket, reading, writing, copying) are partial
  functions into \<open>option\<close>, and the properties of writing and copying state that they return.

  \<^bold>\<open>Parameters.\<close>  What is not in the repository is an argument of the definitions that use it, with what the code
  relies on as named hypotheses: system calls and the outcomes of the rest of the system during a wait,
  the event queue of mio, the ciphers of Noise, the state of a rustls session, the TLS and Noise layers of a
  stream that is copied, the system's allocator and
  file system, the start of a thread, how floats print.

  \<^bold>\<open>Not modelled.\<close>  The switch between coroutine stacks and the delivery of events by the event queue: unsafe code and
  system calls whose effect is a step of the scheduler here.  The TLS protocol and certificates (\<^verbatim>\<open>tls.rs\<close>), name
  resolution, socket options and cryptographic primitives (\<^verbatim>\<open>resolve.rs\<close>, \<^verbatim>\<open>sockopts.rs\<close>, \<^verbatim>\<open>crypto.rs\<close>, \<^verbatim>\<open>random.rs\<close>): calls
  of other libraries.  The hosted network functions (\<^verbatim>\<open>net.rs\<close>), the clock (\<^verbatim>\<open>time.rs\<close>), start-up and standard output
  (\<^verbatim>\<open>lib.rs\<close>, \<^verbatim>\<open>main.rs\<close>): conversions around system calls.  The generated declarations of \<^verbatim>\<open>roc_platform_abi.rs\<close>, which
  are layouts without behaviour, and the Noise handshake, which is in Roc.
\<close>

end
